(* ===== verification/Prelude.thy ===== *)
theory Prelude
  imports Main "HOL-Library.Sublist" "HOL-Library.Code_Target_Nat"
begin

text \<open>
  Shared vocabulary of the development. A byte (Rust \<open>u8\<close>) is a HOL \<open>char\<close>, the type of
  8-bit values, so that byte-string literals are written as in the source; a Rust \<open>&str\<close> or
  \<open>String\<close> is the byte list of its UTF-8 encoding. A \<open>usize\<close> is a \<open>nat\<close> with the bound
  \<open>USIZE_MAX\<close> of the 64-bit Linux target stated where it matters. A fallible operation
  returns \<open>'e + 'a\<close> with the error on the left.

  The theory holds the parts of the Rust standard library that the sources use (slices,
  splitting, trimming, UTF-8 validation, unsigned parsing, ASCII case folding) and the generic
  lemmas about them; hash maps have a theory of their own.
\<close>

named_theorems std_simps \<open>equations of the standard-library operations\<close>
named_theorems wf_intros \<open>introduction rules for the well-formedness invariants\<close>

type_synonym byte = char
type_synonym bytes = "byte list"
type_synonym str = string
type_synonym usize = nat

definition USIZE_MAX :: nat where
  "USIZE_MAX = 18446744073709551615"

lemma USIZE_MAX_pow: "USIZE_MAX = 2 ^ 64 - 1"
  by (simp add: USIZE_MAX_def)

abbreviation CR :: byte where "CR \<equiv> CHR 0x0D"
abbreviation LF :: byte where "LF \<equiv> CHR 0x0A"
abbreviation CRLF :: bytes where "CRLF \<equiv> [CR, LF]"

section \<open>Slices and searching\<close>

text \<open>The subslice \<open>xs[i..j]\<close>; the callers prove \<open>i \<le> j \<le> length xs\<close>.\<close>

definition subslice :: "nat \<Rightarrow> nat \<Rightarrow> 'a list \<Rightarrow> 'a list" where
  "subslice i j xs = take (j - i) (drop i xs)"

lemma length_subslice [simp]: "j \<le> length xs \<Longrightarrow> length (subslice i j xs) = j - i"
  by (simp add: subslice_def)

lemma subslice_append_left: "j \<le> length xs \<Longrightarrow> subslice i j (xs @ ys) = subslice i j xs"
  by (simp add: subslice_def)

lemma subslice_append_mid:
  "i = length xs \<Longrightarrow> j = length xs + length ys \<Longrightarrow> subslice i j (xs @ ys @ zs) = ys"
  by (simp add: subslice_def)

text \<open>\<open>Iterator::position\<close>: the index of the first element that satisfies the predicate.\<close>

fun position :: "('a \<Rightarrow> bool) \<Rightarrow> 'a list \<Rightarrow> nat option" where
  "position P [] = None"
| "position P (x # xs) = (if P x then Some 0 else map_option Suc (position P xs))"

lemma position_NoneD: "position P xs = None \<Longrightarrow> x \<in> set xs \<Longrightarrow> \<not> P x"
  by (induction xs) (auto split: if_splits)

lemma position_None_iff: "position P xs = None \<longleftrightarrow> (\<forall>x \<in> set xs. \<not> P x)"
  by (induction xs) auto

lemma position_SomeD:
  "position P xs = Some i \<Longrightarrow> i < length xs \<and> P (xs ! i) \<and> (\<forall>j < i. \<not> P (xs ! j))"
proof (induction xs arbitrary: i)
  case Nil
  then show ?case by simp
next
  case (Cons x xs)
  show ?case
  proof (cases "P x")
    case True
    with Cons.prems show ?thesis by simp
  next
    case False
    with Cons.prems obtain k where k: "position P xs = Some k" and i: "i = Suc k" by auto
    show ?thesis using Cons.IH [OF k] False i by (auto simp: less_Suc_eq_0_disj)
  qed
qed

lemma position_append_hit:
  "\<forall>x \<in> set xs. \<not> P x \<Longrightarrow> P y \<Longrightarrow> position P (xs @ y # ys) = Some (length xs)"
  by (induction xs) auto

section \<open>Splitting\<close>

text \<open>\<open>slice::split\<close> and \<open>str::split\<close>: the pieces between separators, at least one.\<close>

fun split_on :: "('a \<Rightarrow> bool) \<Rightarrow> 'a list \<Rightarrow> 'a list list" where
  "split_on P [] = [[]]"
| "split_on P (x # xs) =
     (if P x then [] # split_on P xs
      else (case split_on P xs of [] \<Rightarrow> [[x]] | y # ys \<Rightarrow> (x # y) # ys))"

lemma split_on_not_Nil [simp]: "split_on P xs \<noteq> []"
  by (cases xs) (auto split: list.splits)

lemma split_on_no_sep: "\<forall>x \<in> set xs. \<not> P x \<Longrightarrow> split_on P xs = [xs]"
  by (induction xs) auto

lemma split_on_append_sep:
  "\<forall>x \<in> set xs. \<not> P x \<Longrightarrow> P s \<Longrightarrow> split_on P (xs @ s # ys) = xs # split_on P ys"
  by (induction xs) auto

lemma split_on_piece_no_sep: "p \<in> set (split_on P xs) \<Longrightarrow> x \<in> set p \<Longrightarrow> \<not> P x"
proof (induction xs arbitrary: p)
  case Nil
  then show ?case by simp
next
  case (Cons y ys)
  obtain q qs where q: "split_on P ys = q # qs" by (meson list.exhaust split_on_not_Nil)
  show ?case
  proof (cases "P y")
    case True
    with Cons show ?thesis by auto
  next
    case False
    with Cons.prems q have "p = y # q \<or> p \<in> set qs" by auto
    with Cons.IH [of q] Cons.IH [of p] Cons.prems(2) False q show ?thesis by auto
  qed
qed

lemma length_split_on_piece: "p \<in> set (split_on P xs) \<Longrightarrow> length p \<le> length xs"
proof (induction xs arbitrary: p)
  case Nil
  then show ?case by simp
next
  case (Cons y ys)
  obtain q qs where q: "split_on P ys = q # qs" by (meson list.exhaust split_on_not_Nil)
  show ?case using Cons.prems q Cons.IH [of q] Cons.IH [of p]
    by (auto split: if_splits simp: le_Suc_eq)
qed

text \<open>\<open>str::splitn(2, c)\<close>: the first piece, and what follows the first separator if any.\<close>

definition splitn2 :: "'a \<Rightarrow> 'a list \<Rightarrow> 'a list \<times> 'a list option" where
  "splitn2 c s =
     (takeWhile (\<lambda>x. x \<noteq> c) s,
      (case dropWhile (\<lambda>x. x \<noteq> c) s of [] \<Rightarrow> None | _ # r \<Rightarrow> Some r))"

text \<open>\<open>str::trim_start_matches(c)\<close>.\<close>

definition trim_start_matches :: "'a \<Rightarrow> 'a list \<Rightarrow> 'a list" where
  "trim_start_matches c s = dropWhile (\<lambda>x. x = c) s"

lemma length_trim_start_matches [simp]: "length (trim_start_matches c s) \<le> length s"
  by (simp add: trim_start_matches_def length_dropWhile_le)

section \<open>ASCII case folding\<close>

definition to_ascii_lowercase :: "byte \<Rightarrow> byte" where
  "to_ascii_lowercase c =
     (if 65 \<le> (of_char c :: nat) \<and> (of_char c :: nat) \<le> 90
      then char_of ((of_char c :: nat) + 32) else c)"

definition eq_ignore_ascii_case :: "str \<Rightarrow> str \<Rightarrow> bool" where
  "eq_ignore_ascii_case a b \<longleftrightarrow> map to_ascii_lowercase a = map to_ascii_lowercase b"

lemma eq_ignore_ascii_case_refl [simp]: "eq_ignore_ascii_case s s"
  by (simp add: eq_ignore_ascii_case_def)

lemma eq_ignore_ascii_case_sym: "eq_ignore_ascii_case a b \<Longrightarrow> eq_ignore_ascii_case b a"
  by (simp add: eq_ignore_ascii_case_def)

lemma eq_ignore_ascii_case_trans:
  "eq_ignore_ascii_case a b \<Longrightarrow> eq_ignore_ascii_case b c \<Longrightarrow> eq_ignore_ascii_case a c"
  by (simp add: eq_ignore_ascii_case_def)

section \<open>UTF-8\<close>

text \<open>
  \<open>str::from_utf8\<close> succeeds on exactly the well-formed byte sequences of the Unicode
  standard (no overlong forms, no surrogates, nothing above U+10FFFF).
\<close>

abbreviation bval :: "byte \<Rightarrow> nat" where "bval c \<equiv> of_char c"

definition byte_in :: "nat \<Rightarrow> nat \<Rightarrow> byte \<Rightarrow> bool" where
  "byte_in lo hi c \<longleftrightarrow> lo \<le> bval c \<and> bval c \<le> hi"

abbreviation utf8_cont :: "byte \<Rightarrow> bool" where "utf8_cont \<equiv> byte_in 0x80 0xBF"

text \<open>The number of bytes of the scalar value at the front of a byte sequence, if any.\<close>

definition utf8_head :: "bytes \<Rightarrow> nat option" where
  "utf8_head s = (case s of
     [] \<Rightarrow> None
   | a # r \<Rightarrow>
       if byte_in 0 0x7F a then Some 1
       else (case r of
         [] \<Rightarrow> None
       | b # r2 \<Rightarrow>
           if byte_in 0xC2 0xDF a \<and> utf8_cont b then Some 2
           else (case r2 of
             [] \<Rightarrow> None
           | c # r3 \<Rightarrow>
               if utf8_cont c \<and>
                  (byte_in 0xE0 0xE0 a \<and> byte_in 0xA0 0xBF b \<or>
                   byte_in 0xE1 0xEC a \<and> utf8_cont b \<or>
                   byte_in 0xED 0xED a \<and> byte_in 0x80 0x9F b \<or>
                   byte_in 0xEE 0xEF a \<and> utf8_cont b) then Some 3
               else (case r3 of
                 [] \<Rightarrow> None
               | d # _ \<Rightarrow>
                   if utf8_cont c \<and> utf8_cont d \<and>
                      (byte_in 0xF0 0xF0 a \<and> byte_in 0x90 0xBF b \<or>
                       byte_in 0xF1 0xF3 a \<and> utf8_cont b \<or>
                       byte_in 0xF4 0xF4 a \<and> byte_in 0x80 0x8F b) then Some 4
                   else None))))"

lemma utf8_head_bounds: "utf8_head s = Some n \<Longrightarrow> 0 < n \<and> n \<le> length s"
  by (auto simp: utf8_head_def split: list.splits if_splits)

function utf8_valid :: "bytes \<Rightarrow> bool" where
  "utf8_valid s = (s = [] \<or> (case utf8_head s of None \<Rightarrow> False | Some n \<Rightarrow> utf8_valid (drop n s)))"
  by pat_completeness auto
termination
  by (relation "measure length") (auto dest: utf8_head_bounds)

declare utf8_valid.simps [simp del]

lemma utf8_valid_Nil [simp]: "utf8_valid []"
  by (simp add: utf8_valid.simps)

lemma utf8_head_ascii: "byte_in 0 0x7F a \<Longrightarrow> utf8_head (a # s) = Some 1"
  by (simp add: utf8_head_def)

lemma utf8_valid_ascii_Cons:
  "byte_in 0 0x7F a \<Longrightarrow> utf8_valid (a # s) = utf8_valid s"
  by (subst utf8_valid.simps) (simp add: utf8_head_ascii)

lemma utf8_valid_ascii: "\<forall>c \<in> set s. byte_in 0 0x7F c \<Longrightarrow> utf8_valid s"
  by (induction s) (auto simp: utf8_valid_ascii_Cons)

section \<open>Trimming white space\<close>

text \<open>
  \<open>str::trim\<close> drops leading and trailing characters with the Unicode property
  \<open>White_Space\<close>. On a UTF-8 string this is dropping their encodings at either end (an
  encoding is never a proper suffix of another character's encoding).
\<close>

definition white_space :: "bytes list" where
  "white_space =
     [[CHR 0x09], [CHR 0x0A], [CHR 0x0B], [CHR 0x0C], [CHR 0x0D], [CHR 0x20],
      [CHR 0xC2, CHR 0x85], [CHR 0xC2, CHR 0xA0], [CHR 0xE1, CHR 0x9A, CHR 0x80],
      [CHR 0xE2, CHR 0x80, CHR 0x80], [CHR 0xE2, CHR 0x80, CHR 0x81],
      [CHR 0xE2, CHR 0x80, CHR 0x82], [CHR 0xE2, CHR 0x80, CHR 0x83],
      [CHR 0xE2, CHR 0x80, CHR 0x84], [CHR 0xE2, CHR 0x80, CHR 0x85],
      [CHR 0xE2, CHR 0x80, CHR 0x86], [CHR 0xE2, CHR 0x80, CHR 0x87],
      [CHR 0xE2, CHR 0x80, CHR 0x88], [CHR 0xE2, CHR 0x80, CHR 0x89],
      [CHR 0xE2, CHR 0x80, CHR 0x8A], [CHR 0xE2, CHR 0x80, CHR 0xA8],
      [CHR 0xE2, CHR 0x80, CHR 0xA9], [CHR 0xE2, CHR 0x80, CHR 0xAF],
      [CHR 0xE2, CHR 0x81, CHR 0x9F], [CHR 0xE3, CHR 0x80, CHR 0x80]]"

definition strip_one :: "bytes list \<Rightarrow> bytes \<Rightarrow> bytes option" where
  "strip_one ws s = (case List.find (\<lambda>w. w \<noteq> [] \<and> prefix w s) ws of
     None \<Rightarrow> None | Some w \<Rightarrow> Some (drop (length w) s))"

lemma strip_one_shorter: "strip_one ws s = Some r \<Longrightarrow> length r < length s"
  by (auto simp: strip_one_def find_Some_iff prefix_def split: option.splits)

function strip_all :: "bytes list \<Rightarrow> bytes \<Rightarrow> bytes" where
  "strip_all ws s = (case strip_one ws s of None \<Rightarrow> s | Some r \<Rightarrow> strip_all ws r)"
  by pat_completeness auto
termination
  by (relation "measure (length o snd)") (auto dest: strip_one_shorter)

declare strip_all.simps [simp del]

definition trim_start :: "str \<Rightarrow> str" where
  "trim_start s = strip_all white_space s"

definition trim_end :: "str \<Rightarrow> str" where
  "trim_end s = rev (strip_all (map rev white_space) (rev s))"

definition trim :: "str \<Rightarrow> str" where
  "trim s = trim_end (trim_start s)"

lemma strip_all_fixed: "strip_one ws s = None \<Longrightarrow> strip_all ws s = s"
  by (simp add: strip_all.simps)

lemma strip_all_stuck: "strip_one ws (strip_all ws s) = None"
proof (induction ws s rule: strip_all.induct)
  case (1 ws s)
  then show ?case
    by (cases "strip_one ws s") (simp_all add: strip_all.simps [of ws s])
qed

lemma strip_all_idem: "strip_all ws (strip_all ws s) = strip_all ws s"
  by (rule strip_all_fixed) (rule strip_all_stuck)

lemma strip_all_suffix: "suffix (strip_all ws s) s"
proof (induction ws s rule: strip_all.induct)
  case (1 ws s)
  show ?case
  proof (cases "strip_one ws s")
    case None
    then show ?thesis by (simp add: strip_all.simps [of ws s])
  next
    case (Some r)
    then have "suffix r s"
      by (auto simp: strip_one_def suffix_drop split: option.splits)
    with "1" [OF Some] show ?thesis
      using suffix_order.order_trans Some by (simp add: strip_all.simps [of ws s])
  qed
qed

text \<open>A string is trimmed when no white space stands at either end.\<close>

definition trimmed :: "str \<Rightarrow> bool" where
  "trimmed s \<longleftrightarrow> strip_one white_space s = None \<and>
     strip_one (map rev white_space) (rev s) = None"

lemma trim_trimmed: "trimmed s \<Longrightarrow> trim s = s"
  by (simp add: trimmed_def trim_def trim_start_def trim_end_def strip_all_fixed)

text \<open>
  For an ASCII text, where the only white space is the six ASCII characters, being trimmed
  is a condition on its first and last character.
\<close>

definition ascii_ws :: "byte \<Rightarrow> bool" where
  "ascii_ws c \<longleftrightarrow> c \<in> {CHR 0x09, CHR 0x0A, CHR 0x0B, CHR 0x0C, CHR 0x0D, CHR 0x20}"

section \<open>Unsigned integer parsing\<close>

text \<open>
  \<open>str::parse\<close> at an unsigned type with maximum \<open>mx\<close>: an optional plus sign, then one or
  more decimal digits; anything else, and every overflow, is an error.
\<close>

definition digit_val :: "byte \<Rightarrow> nat option" where
  "digit_val c = (if byte_in 48 57 c then Some (bval c - 48) else None)"

fun parse_digits :: "nat \<Rightarrow> nat \<Rightarrow> str \<Rightarrow> nat option" where
  "parse_digits mx acc [] = Some acc"
| "parse_digits mx acc (c # cs) = (case digit_val c of
     None \<Rightarrow> None
   | Some d \<Rightarrow>
       if mx < acc * 10 then None
       else if mx < acc * 10 + d then None
       else parse_digits mx (acc * 10 + d) cs)"

definition parse_uint :: "nat \<Rightarrow> str \<Rightarrow> nat option" where
  "parse_uint mx s = (case s of
     [] \<Rightarrow> None
   | c # cs \<Rightarrow>
       if c = CHR ''+'' then (if cs = [] then None else parse_digits mx 0 cs)
       else parse_digits mx 0 s)"

abbreviation parse_usize :: "str \<Rightarrow> usize option" where
  "parse_usize \<equiv> parse_uint USIZE_MAX"

lemma parse_digits_bound: "parse_digits mx acc s = Some n \<Longrightarrow> acc \<le> mx \<Longrightarrow> n \<le> mx"
  by (induction mx acc s rule: parse_digits.induct) (auto split: option.splits if_splits)

lemma parse_uint_bound: "parse_uint mx s = Some n \<Longrightarrow> n \<le> mx"
  by (auto simp: parse_uint_def simp del: parse_digits.simps split: list.splits if_splits
      dest: parse_digits_bound)

lemma parse_digits_append:
  "parse_digits mx acc (s @ t) =
     (case parse_digits mx acc s of None \<Rightarrow> None | Some n \<Rightarrow> parse_digits mx n t)"
  by (induction mx acc s rule: parse_digits.induct) (auto split: option.splits)

end
