(* ===== verification/Hash_Map.thy ===== *)
theory Hash_Map
  imports Prelude "HOL-Library.AList"
begin

text \<open>
  \<open>std::collections::HashMap\<close>, as the sources use it: the connection tables, the interest
  maps, the routing table and the asset cache. The contract the clients rely on is the locale
  \<open>hash_map\<close>; its client lemmas (sizes after an update, bulk removal and its independence of
  the order) are proved there once. The model is an association list with distinct keys, so
  that iteration visits each entry once, in an order the clients' theorems never depend on.
\<close>

locale hash_map =
  fixes empty :: 'm
    and get :: "'m \<Rightarrow> 'k \<Rightarrow> 'v option"
    and insert :: "'k \<Rightarrow> 'v \<Rightarrow> 'm \<Rightarrow> 'm"
    and remove :: "'k \<Rightarrow> 'm \<Rightarrow> 'm"
    and len :: "'m \<Rightarrow> nat"
    and entries :: "'m \<Rightarrow> ('k \<times> 'v) list"
    and invar :: "'m \<Rightarrow> bool"
  assumes get_empty: "get empty k = None"
    and get_insert: "invar m \<Longrightarrow> get (insert k v m) k' = (if k' = k then Some v else get m k')"
    and get_remove: "invar m \<Longrightarrow> get (remove k m) k' = (if k' = k then None else get m k')"
    and entries_distinct: "invar m \<Longrightarrow> distinct (map fst (entries m))"
    and entries_get: "invar m \<Longrightarrow> (k, v) \<in> set (entries m) \<longleftrightarrow> get m k = Some v"
    and len_entries: "invar m \<Longrightarrow> len m = length (entries m)"
    and invar_empty: "invar empty"
    and invar_insert: "invar m \<Longrightarrow> invar (insert k v m)"
    and invar_remove: "invar m \<Longrightarrow> invar (remove k m)"
begin

lemma entries_keys: "invar m \<Longrightarrow> fst ` set (entries m) = dom (get m)"
proof -
  assume inv: "invar m"
  have "k \<in> fst ` set (entries m) \<longleftrightarrow> (\<exists>v. get m k = Some v)" for k
    using entries_get [OF inv, of k] by force
  then show ?thesis by (auto simp: dom_def)
qed

lemma finite_dom_get: "invar m \<Longrightarrow> finite (dom (get m))"
  by (metis entries_keys finite_imageI finite_set)

lemma len_card: "invar m \<Longrightarrow> len m = card (dom (get m))"
  by (metis distinct_card entries_distinct entries_keys len_entries length_map list.set_map)

lemma dom_insert: "invar m \<Longrightarrow> dom (get (insert k v m)) = Set.insert k (dom (get m))"
  by (auto simp: get_insert dom_def)

lemma dom_remove: "invar m \<Longrightarrow> dom (get (remove k m)) = dom (get m) - {k}"
  by (auto simp: get_remove dom_def split: if_splits)

lemma len_insert_new: "invar m \<Longrightarrow> get m k = None \<Longrightarrow> len (insert k v m) = Suc (len m)"
  by (simp add: len_card invar_insert dom_insert finite_dom_get domIff)

lemma len_insert_le: "invar m \<Longrightarrow> len (insert k v m) \<le> Suc (len m)"
  by (simp add: len_card invar_insert dom_insert finite_dom_get card_insert_if)

lemma len_insert_old: "invar m \<Longrightarrow> get m k = Some w \<Longrightarrow> len (insert k v m) = len m"
  by (simp add: len_card invar_insert dom_insert insert_absorb domI)

lemma len_remove_le: "invar m \<Longrightarrow> len (remove k m) \<le> len m"
  by (simp add: len_card invar_remove dom_remove finite_dom_get card_Diff1_le)

lemma len_remove_present: "invar m \<Longrightarrow> get m k = Some v \<Longrightarrow> Suc (len (remove k m)) = len m"
  by (metis card_Suc_Diff1 dom_remove domI finite_dom_get invar_remove len_card)

lemma invar_fold_remove: "invar m \<Longrightarrow> invar (fold remove ks m)"
  by (induction ks arbitrary: m) (auto simp: invar_remove)

lemma get_fold_remove:
  "invar m \<Longrightarrow> get (fold remove ks m) k = (if k \<in> set ks then None else get m k)"
  by (induction ks arbitrary: m) (auto simp: invar_remove get_remove)

lemma fold_remove_order:
  "invar m \<Longrightarrow> set ks = set ks' \<Longrightarrow> get (fold remove ks m) = get (fold remove ks' m)"
  by (rule ext) (simp add: get_fold_remove)

end

type_synonym ('k, 'v) hashmap = "('k \<times> 'v) list"

definition hm_empty :: "('k, 'v) hashmap" where
  "hm_empty = []"

definition hm_get :: "('k, 'v) hashmap \<Rightarrow> 'k \<Rightarrow> 'v option" where
  "hm_get m k = map_of m k"

definition hm_insert :: "'k \<Rightarrow> 'v \<Rightarrow> ('k, 'v) hashmap \<Rightarrow> ('k, 'v) hashmap" where
  "hm_insert k v m = AList.update k v m"

definition hm_remove :: "'k \<Rightarrow> ('k, 'v) hashmap \<Rightarrow> ('k, 'v) hashmap" where
  "hm_remove k m = AList.delete k m"

definition hm_len :: "('k, 'v) hashmap \<Rightarrow> nat" where
  "hm_len m = length m"

definition hm_entries :: "('k, 'v) hashmap \<Rightarrow> ('k \<times> 'v) list" where
  "hm_entries m = m"

definition hm_invar :: "('k, 'v) hashmap \<Rightarrow> bool" where
  "hm_invar m \<longleftrightarrow> distinct (map fst m)"

lemmas hm_defs = hm_empty_def hm_get_def hm_insert_def hm_remove_def hm_len_def hm_entries_def
  hm_invar_def

interpretation hm: hash_map hm_empty hm_get hm_insert hm_remove hm_len hm_entries hm_invar
  by unfold_locales
     (auto simp: hm_defs update_conv' delete_conv' distinct_update distinct_delete
       split: if_splits)

declare hm.get_empty [simp] hm.invar_empty [simp, wf_intros]
  hm.invar_insert [simp, wf_intros] hm.invar_remove [simp, wf_intros]

end
