(* ===== verification/Http_Base.thy ===== *)
theory Http_Base
  imports Prelude
begin

text \<open>
  The small HTTP vocabulary of \<open>core/src/limits.rs\<close>, \<open>core/src/http/method.rs\<close> and
  \<open>core/src/http/headers.rs\<close>: the input ceilings, the method and version tokens, and the
  header collection with its case-insensitive first-match lookup.
\<close>

section \<open>Limits\<close>

definition MAX_REQUEST_LINE :: usize where "MAX_REQUEST_LINE = 8 * 1024"
definition MAX_HEADER_BYTES :: usize where "MAX_HEADER_BYTES = 32 * 1024"
definition MAX_HEADER_COUNT :: usize where "MAX_HEADER_COUNT = 100"
definition MAX_BODY_BYTES :: usize where "MAX_BODY_BYTES = 1024 * 1024"
definition READ_CHUNK :: usize where "READ_CHUNK = 16 * 1024"

lemmas limit_defs = MAX_REQUEST_LINE_def MAX_HEADER_BYTES_def MAX_HEADER_COUNT_def
  MAX_BODY_BYTES_def READ_CHUNK_def

lemma READ_CHUNK_pos [simp]: "0 < READ_CHUNK"
  by (simp add: READ_CHUNK_def)

section \<open>Method and version\<close>

datatype http_method = Get | Head | Unsupported

definition method_parse :: "bytes \<Rightarrow> http_method" where
  "method_parse token =
     (if token = ''GET'' then Get else if token = ''HEAD'' then Head else Unsupported)"

datatype version = Http10 | Http11

definition version_parse :: "bytes \<Rightarrow> version option" where
  "version_parse token =
     (if token = ''HTTP/1.0'' then Some Http10
      else if token = ''HTTP/1.1'' then Some Http11 else None)"

section \<open>Headers\<close>

record headers =
  inner :: "(str \<times> str) list"

definition headers_new :: headers where
  "headers_new = \<lparr>inner = []\<rparr>"

definition headers_get :: "headers \<Rightarrow> str \<Rightarrow> str option" where
  "headers_get h name =
     map_option snd (List.find (\<lambda>(k, _). eq_ignore_ascii_case k name) (inner h))"

definition headers_insert :: "headers \<Rightarrow> str \<Rightarrow> str \<Rightarrow> headers" where
  "headers_insert h name value = h\<lparr>inner := inner h @ [(name, value)]\<rparr>"

definition headers_iter :: "headers \<Rightarrow> (str \<times> str) list" where
  "headers_iter h = inner h"

lemma inner_headers_new [simp]: "inner headers_new = []"
  by (simp add: headers_new_def)

lemma inner_headers_insert [simp]: "inner (headers_insert h k v) = inner h @ [(k, v)]"
  by (simp add: headers_insert_def)

lemma headers_get_new [simp]: "headers_get headers_new name = None"
  by (simp add: headers_get_def)

lemma find_append:
  "List.find P (xs @ ys) = (case List.find P xs of None \<Rightarrow> List.find P ys | Some x \<Rightarrow> Some x)"
  by (induction xs) auto

text \<open>Inserting never hides an earlier field: the lookup returns the first match.\<close>

lemma headers_get_insert:
  "headers_get (headers_insert h k v) name =
     (case headers_get h name of
        Some w \<Rightarrow> Some w
      | None \<Rightarrow> if eq_ignore_ascii_case k name then Some v else None)"
  by (auto simp: headers_get_def find_append split: option.splits)

lemma headers_get_cong:
  assumes "eq_ignore_ascii_case a b"
  shows "headers_get h a = headers_get h b"
proof -
  have "eq_ignore_ascii_case k a = eq_ignore_ascii_case k b" for k
    using assms by (simp add: eq_ignore_ascii_case_def)
  then show ?thesis by (simp add: headers_get_def)
qed

lemma headers_get_None_iff:
  "headers_get h name = None \<longleftrightarrow> (\<forall>(k, v) \<in> set (inner h). \<not> eq_ignore_ascii_case k name)"
  by (auto simp: headers_get_def find_None_iff)

end
