(* ===== verification/Router.thy ===== *)
theory Router
  imports Hash_Map Http_Base
begin

text \<open>
  The path trie of \<open>core/src/router.rs\<close>. A handler is a function pointer; the model keeps it as
  a value of a type variable, which \<open>App\<close> instantiates. The abstract view of a router is a
  partial map from methods and lists of path segments to handlers: the trie ignores repeated,
  leading and trailing slashes, so two paths with the same segments are the same route.
\<close>

datatype 'h node = Node (key: str) (children: "'h node list") (handler: "'h option")

definition node_new :: "str \<Rightarrow> 'h node" where
  "node_new k = Node k [] None"

lemma splitn2_rest_shorter:
  "s \<noteq> [] \<Longrightarrow> length (case snd (splitn2 c s) of None \<Rightarrow> [] | Some r \<Rightarrow> r) < length s"
proof -
  assume "s \<noteq> []"
  have "length (dropWhile (\<lambda>x. x \<noteq> c) s) \<le> length s" by (rule length_dropWhile_le)
  with \<open>s \<noteq> []\<close> show ?thesis
    by (cases "dropWhile (\<lambda>x. x \<noteq> c) s") (auto simp: splitn2_def simp del: dropWhile_eq_Nil_conv)
qed

text \<open>\<open>parts.next().unwrap()\<close> and \<open>parts.next().unwrap_or("")\<close> of \<open>path.splitn(2, '/')\<close>.\<close>

definition path_segment :: "str \<Rightarrow> str" where
  "path_segment path = fst (splitn2 (CHR ''/'') path)"

definition path_rest :: "str \<Rightarrow> str" where
  "path_rest path = (case snd (splitn2 (CHR ''/'') path) of None \<Rightarrow> [] | Some r \<Rightarrow> r)"

lemma path_rest_shorter: "path \<noteq> [] \<Longrightarrow> length (path_rest path) < length path"
  by (simp add: path_rest_def splitn2_rest_shorter)

lemma path_rest_trim_shorter:
  "trim_start_matches c path \<noteq> [] \<Longrightarrow>
     length (path_rest (trim_start_matches c path)) < length path"
  by (rule order.strict_trans2 [OF path_rest_shorter length_trim_start_matches])

function node_insert :: "'h node \<Rightarrow> str \<Rightarrow> 'h \<Rightarrow> 'h node" where
  "node_insert n path h =
     (let path = trim_start_matches (CHR ''/'') path in
      if path = [] then Node (key n) (children n) (Some h)
      else
        (let segment = path_segment path; rest = path_rest path in
         case position (\<lambda>c. key c = segment) (children n) of
           Some i \<Rightarrow>
             Node (key n) ((children n)[i := node_insert (children n ! i) rest h]) (handler n)
         | None \<Rightarrow>
             Node (key n) (children n @ [node_insert (node_new segment) rest h]) (handler n)))"
  by pat_completeness auto
termination
  by (relation "measure (\<lambda>(n, path, h). length path)") (auto simp: path_rest_trim_shorter)

declare node_insert.simps [simp del]

function node_get :: "'h node \<Rightarrow> str \<Rightarrow> 'h option" where
  "node_get n path =
     (let path = trim_start_matches (CHR ''/'') path in
      if path = [] then handler n
      else
        (let segment = path_segment path; rest = path_rest path in
         case List.find (\<lambda>c. key c = segment) (children n) of
           None \<Rightarrow> None
         | Some child \<Rightarrow> node_get child rest))"
  by pat_completeness auto
termination
  by (relation "measure (\<lambda>(n, path). length path)") (auto simp: path_rest_trim_shorter)

declare node_get.simps [simp del]

record 'h router =
  routes :: "(http_method, 'h node) hashmap"

definition router_new :: "'h router" where
  "router_new = \<lparr>routes = hm_empty\<rparr>"

text \<open>\<open>entry(method).or_insert_with(|| Node::new(""))\<close>, then \<open>root.insert(path, handler)\<close>.\<close>

definition router_insert :: "'h router \<Rightarrow> http_method \<Rightarrow> str \<Rightarrow> 'h \<Rightarrow> 'h router" where
  "router_insert r m path h =
     (let root = (case hm_get (routes r) m of None \<Rightarrow> node_new [] | Some n \<Rightarrow> n)
      in r\<lparr>routes := hm_insert m (node_insert root path h) (routes r)\<rparr>)"

definition router_lookup :: "'h router \<Rightarrow> http_method \<Rightarrow> str \<Rightarrow> 'h option" where
  "router_lookup r m path =
     (case hm_get (routes r) m of None \<Rightarrow> None | Some root \<Rightarrow> node_get root path)"

section \<open>The abstract view\<close>

text \<open>The segments of a path: its nonempty pieces between slashes.\<close>

definition segments :: "str \<Rightarrow> str list" where
  "segments path = filter (\<lambda>s. s \<noteq> []) (split_on (\<lambda>c. c = CHR ''/'') path)"

fun node_at :: "'h node \<Rightarrow> str list \<Rightarrow> 'h option" where
  "node_at n [] = handler n"
| "node_at n (s # ss) =
     (case List.find (\<lambda>c. key c = s) (children n) of None \<Rightarrow> None | Some c \<Rightarrow> node_at c ss)"

definition router_map :: "'h router \<Rightarrow> http_method \<times> str list \<Rightarrow> 'h option" where
  "router_map r = (\<lambda>(m, ss). case hm_get (routes r) m of None \<Rightarrow> None | Some n \<Rightarrow> node_at n ss)"

lemma segments_slash: "segments (CHR ''/'' # p) = segments p"
  by (simp add: segments_def)

lemma segments_trim: "segments (trim_start_matches (CHR ''/'') p) = segments p"
  by (induction p) (auto simp: trim_start_matches_def segments_slash)

lemma split_on_takeWhile:
  "split_on P xs = takeWhile (\<lambda>x. \<not> P x) xs #
     (case dropWhile (\<lambda>x. \<not> P x) xs of [] \<Rightarrow> [] | _ # r \<Rightarrow> split_on P r)"
  by (induction xs) auto

lemma segments_step:
  assumes "trim_start_matches (CHR ''/'') p \<noteq> []"
  shows "segments p = path_segment (trim_start_matches (CHR ''/'') p) #
    segments (path_rest (trim_start_matches (CHR ''/'') p))"
proof -
  let ?q = "trim_start_matches (CHR ''/'') p"
  have hd: "hd ?q \<noteq> CHR ''/''"
    using assms hd_dropWhile [of "\<lambda>x. x = CHR ''/''" p] by (simp add: trim_start_matches_def)
  then have ne: "takeWhile (\<lambda>x. x \<noteq> CHR ''/'') ?q \<noteq> []" using assms by (cases ?q) auto
  have "segments ?q = path_segment ?q # segments (path_rest ?q)"
    using ne
    by (cases "dropWhile (\<lambda>x. x \<noteq> CHR ''/'') ?q")
       (simp_all add: segments_def path_segment_def path_rest_def splitn2_def
        split_on_takeWhile [of _ ?q] del: dropWhile_eq_Nil_conv)
  then show ?thesis by (simp add: segments_trim)
qed

lemma segments_done: "trim_start_matches (CHR ''/'') p = [] \<Longrightarrow> segments p = []"
  using segments_trim [of p] by (simp add: segments_def)

lemma node_get_at: "node_get n path = node_at n (segments path)"
proof (induction n path rule: node_get.induct)
  case (1 n path)
  show ?case
  proof (cases "trim_start_matches (CHR ''/'') path = []")
    case True
    then show ?thesis by (simp add: node_get.simps [of n path] segments_done)
  next
    case False
    with "1" show ?thesis
      by (simp add: node_get.simps [of n path] segments_step Let_def split: option.splits)
  qed
qed

section \<open>Insertion updates the abstract map\<close>

lemma find_position:
  "List.find P xs = (case position P xs of None \<Rightarrow> None | Some i \<Rightarrow> Some (xs ! i))"
  by (induction xs) (auto split: option.splits)

lemma find_update_same:
  "position P xs = Some i \<Longrightarrow> P y \<Longrightarrow> List.find P (xs[i := y]) = Some y"
  by (induction xs arbitrary: i) (auto split: if_splits nat.splits)

lemma find_update_other:
  "i < length xs \<Longrightarrow> \<not> P (xs ! i) \<Longrightarrow> \<not> P y \<Longrightarrow> List.find P (xs[i := y]) = List.find P xs"
  by (induction xs arbitrary: i) (auto split: nat.splits)

lemma key_node_insert [simp]: "key (node_insert n path h) = key n"
  by (subst node_insert.simps) (simp add: Let_def split: option.splits)

lemma node_at_new: "node_at (node_new k) ss = None"
  by (cases ss) (simp_all add: node_new_def)

lemma node_at_child_update:
  assumes i: "position (\<lambda>c. key c = seg) (children n) = Some i" and key: "key m = seg"
    and IH: "\<And>ss. node_at m ss = (if ss = segs then Some h else node_at (children n ! i) ss)"
  shows "node_at (Node (key n) ((children n)[i := m]) (handler n)) ss = (if ss = seg # segs then Some h else node_at n ss)"
proof (cases ss)
  case (Cons s ss')
  have found: "List.find (\<lambda>c. key c = seg) (children n) = Some (children n ! i)"
    using i by (simp add: find_position)
  show ?thesis
  proof (cases "s = seg")
    case True
    with Cons found IH find_update_same [OF i, of m] key show ?thesis by simp
  next
    case other: False
    have "List.find (\<lambda>c. key c = s) ((children n)[i := m]) = List.find (\<lambda>c. key c = s) (children n)"
      by (rule find_update_other) (use position_SomeD [OF i] key other in auto)
    with Cons other show ?thesis by simp
  qed
qed simp

lemma node_insert_at:
  "node_at (node_insert n path h) ss = (if ss = segments path then Some h else node_at n ss)"
proof (induction n path h arbitrary: ss rule: node_insert.induct)
  case (1 n path h)
  let ?p = "trim_start_matches (CHR ''/'') path"
  let ?seg = "path_segment ?p" and ?rest = "path_rest ?p"
  show ?case
  proof (cases "?p = []")
    case True
    then show ?thesis
      by (cases ss) (simp_all add: node_insert.simps [of n path h] segments_done)
  next
    case False
    have segs: "segments path = ?seg # segments ?rest" using False by (rule segments_step)
    show ?thesis
    proof (cases "position (\<lambda>c. key c = ?seg) (children n)")
      case None
      then have ins: "node_insert n path h =
        Node (key n) (children n @ [node_insert (node_new ?seg) ?rest h]) (handler n)"
        using False by (simp add: node_insert.simps [of n path h] Let_def)
      have absent: "List.find (\<lambda>c. key c = ?seg) (children n) = None"
        using None by (simp add: find_position)
      show ?thesis
        using "1.IH"(1) [OF refl False refl refl None] absent
        by (cases ss) (auto simp: ins segs find_append node_new_def node_at_new [unfolded node_new_def]
            split: option.splits)
    next
      case (Some i)
      then have ins: "node_insert n path h =
        Node (key n) ((children n)[i := node_insert (children n ! i) ?rest h]) (handler n)"
        using False by (simp add: node_insert.simps [of n path h] Let_def)
      have "key (node_insert (children n ! i) ?rest h) = ?seg" using position_SomeD [OF Some] by simp
      from node_at_child_update [OF Some this "1.IH"(2) [OF refl False refl refl Some]]
      show ?thesis by (simp add: ins segs)
    qed
  qed
qed

text \<open>Well-formedness of a router is the hash map's own invariant.\<close>

definition wf_router :: "'h router \<Rightarrow> bool" where
  "wf_router r \<longleftrightarrow> hm_invar (routes r)"

lemma wf_router_new [simp, wf_intros]: "wf_router router_new"
  by (simp add: wf_router_def router_new_def)

lemma wf_router_insert [simp, wf_intros]: "wf_router r \<Longrightarrow> wf_router (router_insert r m path h)"
  by (simp add: wf_router_def router_insert_def Let_def)

lemma router_map_new: "router_map router_new = Map.empty"
  by (rule ext) (simp add: router_map_def router_new_def split: prod.splits)

lemma router_map_insert:
  assumes "wf_router r"
  shows "router_map (router_insert r m path h) = (router_map r)((m, segments path) \<mapsto> h)"
proof (rule ext, clarify)
  fix m' ss
  have get: "hm_get (routes (router_insert r m path h)) k =
    (if k = m then Some (node_insert (case hm_get (routes r) m of None \<Rightarrow> node_new [] | Some n \<Rightarrow> n) path h)
     else hm_get (routes r) k)" for k
    using assms by (simp add: router_insert_def Let_def wf_router_def hm.get_insert)
  show "router_map (router_insert r m path h) (m', ss) =
    ((router_map r)((m, segments path) \<mapsto> h)) (m', ss)"
    by (cases "m' = m"; cases "hm_get (routes r) m")
       (simp_all add: router_map_def get node_insert_at node_at_new)
qed

lemma router_lookup_map: "router_lookup r m path = router_map r (m, segments path)"
  by (simp add: router_lookup_def router_map_def node_get_at split: option.split)

lemma wf_router_inserts:
  "wf_router r \<Longrightarrow> wf_router (fold (\<lambda>(m, path, h) r. router_insert r m path h) regs r)"
  by (induction regs arbitrary: r) auto

lemma router_map_inserts:
  "wf_router r \<Longrightarrow>
     router_map (fold (\<lambda>(m, path, h) r. router_insert r m path h) regs r) =
     router_map r ++ map_of (rev (map (\<lambda>(m, path, h). ((m, segments path), h)) regs))"
  by (induction regs arbitrary: r)
     (auto simp: router_map_insert map_add_def fun_eq_iff split: option.splits)

section \<open>Properties\<close>

text \<open>
  C11: the trie is a map from a method and a path's segments to the handler registered last for
  them: after any sequence of registrations, a lookup finds a handler exactly when a path with
  the same segments was registered for the method, and then the last one; extra slashes do not
  matter and a prefix or an extension of a registered path is not found.
\<close>

theorem router_lookup_last_registered:
  "router_lookup (fold (\<lambda>(m, path, h) r. router_insert r m path h) regs router_new) m path =
     map_of (rev (map (\<lambda>(m, path, h). ((m, segments path), h)) regs)) (m, segments path)"
  by (simp add: router_lookup_map router_map_inserts router_map_new)

end
