(* ===== verification/Response.thy ===== *)
theory Response
  imports Http_Base "HOL-Library.Word"
begin

text \<open>
  The response model and the sans-IO encoder of \<open>core/src/http/response.rs\<close>: status codes and
  reason phrases, the response value, \<open>Response::encode\<close>, and the allocation-free decimal
  writer. The decimal writer is modelled with its 20-byte scratch array and its descending
  index, and shown equal to the positional definition \<open>decimal\<close> for every \<open>usize\<close>.
\<close>

section \<open>Status codes\<close>

datatype status_code = StatusCode (sc_code: "16 word")

definition OK :: status_code where "OK = StatusCode 200"
definition BAD_REQUEST :: status_code where "BAD_REQUEST = StatusCode 400"
definition NOT_FOUND :: status_code where "NOT_FOUND = StatusCode 404"
definition METHOD_NOT_ALLOWED :: status_code where "METHOD_NOT_ALLOWED = StatusCode 405"
definition URI_TOO_LONG :: status_code where "URI_TOO_LONG = StatusCode 414"
definition PAYLOAD_TOO_LARGE :: status_code where "PAYLOAD_TOO_LARGE = StatusCode 413"
definition HEADER_FIELDS_TOO_LARGE :: status_code where "HEADER_FIELDS_TOO_LARGE = StatusCode 431"
definition INTERNAL_ERROR :: status_code where "INTERNAL_ERROR = StatusCode 500"
definition VERSION_NOT_SUPPORTED :: status_code where "VERSION_NOT_SUPPORTED = StatusCode 505"

lemmas status_defs = OK_def BAD_REQUEST_def NOT_FOUND_def METHOD_NOT_ALLOWED_def
  URI_TOO_LONG_def PAYLOAD_TOO_LARGE_def HEADER_FIELDS_TOO_LARGE_def INTERNAL_ERROR_def
  VERSION_NOT_SUPPORTED_def

definition reason :: "status_code \<Rightarrow> str" where
  "reason s = (let c = sc_code s in
     if c = 200 then ''OK''
     else if c = 400 then ''Bad Request''
     else if c = 404 then ''Not Found''
     else if c = 405 then ''Method Not Allowed''
     else if c = 413 then ''Payload Too Large''
     else if c = 414 then ''URI Too Long''
     else if c = 431 then ''Request Header Fields Too Large''
     else if c = 500 then ''Internal Server Error''
     else if c = 505 then ''HTTP Version Not Supported''
     else ''Unknown'')"

section \<open>Responses\<close>

datatype body = Empty | Bytes bytes

record response =
  rs_status :: status_code
  rs_headers :: headers
  rs_body :: body

definition response_new :: "status_code \<Rightarrow> response" where
  "response_new status = \<lparr>rs_status = status, rs_headers = headers_new, rs_body = Empty\<rparr>"

definition response_ok :: "str \<Rightarrow> bytes \<Rightarrow> response" where
  "response_ok content_type body =
     (let r = response_new OK;
          r = r\<lparr>rs_headers := headers_insert (rs_headers r) ''Content-Type'' content_type\<rparr>
      in r\<lparr>rs_body := Bytes body\<rparr>)"

definition response_text :: "status_code \<Rightarrow> str \<Rightarrow> response" where
  "response_text status msg =
     (let r = response_new status;
          r = r\<lparr>rs_headers :=
                 headers_insert (rs_headers r) ''Content-Type'' ''text/plain; charset=utf-8''\<rparr>
      in r\<lparr>rs_body := Bytes msg\<rparr>)"

definition with_header :: "response \<Rightarrow> str \<Rightarrow> str \<Rightarrow> response" where
  "with_header r name value = r\<lparr>rs_headers := headers_insert (rs_headers r) name value\<rparr>"

definition body_bytes :: "body \<Rightarrow> bytes" where
  "body_bytes b = (case b of Empty \<Rightarrow> [] | Bytes bs \<Rightarrow> bs)"

section \<open>The decimal writer\<close>

definition digit_char :: "nat \<Rightarrow> byte" where
  "digit_char d = char_of (48 + d)"

text \<open>The loop: \<open>i -= 1; tmp[i] = b'0' + (n % 10) as u8; n /= 10\<close> while \<open>n > 0\<close>.\<close>

fun write_digits :: "bytes \<Rightarrow> nat \<Rightarrow> nat \<Rightarrow> bytes \<times> nat" where
  "write_digits tmp i n =
     (if n > 0 then write_digits (tmp[i - 1 := digit_char (n mod 10)]) (i - 1) (n div 10)
      else (tmp, i))"

declare write_digits.simps [simp del]

definition write_u16_usize :: "bytes \<Rightarrow> usize \<Rightarrow> bytes" where
  "write_u16_usize out n =
     (if n = 0 then out @ ''0''
      else (let (tmp, i) = write_digits (replicate 20 (CHR 0x00)) 20 n in out @ drop i tmp))"

definition write_u16 :: "bytes \<Rightarrow> 16 word \<Rightarrow> bytes" where
  "write_u16 out n = write_u16_usize out (unat n)"

section \<open>The encoder\<close>

definition owned_header :: "str \<Rightarrow> bool" where
  "owned_header k \<longleftrightarrow>
     eq_ignore_ascii_case k ''content-length'' \<or> eq_ignore_ascii_case k ''connection''"

fun encode_headers :: "(str \<times> str) list \<Rightarrow> bytes \<Rightarrow> bytes" where
  "encode_headers [] out = out"
| "encode_headers ((k, v) # hs) out =
     (if owned_header k then encode_headers hs out
      else encode_headers hs (out @ k @ '': '' @ v @ CRLF))"

definition encode :: "response \<Rightarrow> bool \<Rightarrow> bool \<Rightarrow> bytes \<Rightarrow> bytes" where
  "encode r keep_alive include_body out =
     (let bb = body_bytes (rs_body r);
          out = out @ ''HTTP/1.1 '';
          out = write_u16 out (sc_code (rs_status r));
          out = out @ '' '';
          out = out @ reason (rs_status r);
          out = out @ CRLF;
          out = encode_headers (headers_iter (rs_headers r)) out;
          out = out @ ''Content-Length: '';
          out = write_u16_usize out (length bb);
          out = out @ CRLF;
          out = out @ ''Connection: '';
          out = out @ (if keep_alive then ''keep-alive'' else ''close'');
          out = out @ CRLF;
          out = out @ CRLF
      in if include_body then out @ bb else out)"

section \<open>Correctness of the decimal writer\<close>

text \<open>The positional decimal form, and the number it denotes.\<close>

fun decimal :: "nat \<Rightarrow> bytes" where
  "decimal n = (if n < 10 then [digit_char n] else decimal (n div 10) @ [digit_char (n mod 10)])"

declare decimal.simps [simp del]

lemma digit_val_digit_char: "d < 10 \<Longrightarrow> digit_val (digit_char d) = Some d"
  by (simp add: digit_val_def digit_char_def byte_in_def)

lemma decimal_not_Nil [simp]: "decimal n \<noteq> []"
  by (subst decimal.simps) simp

lemma decimal_digits: "c \<in> set (decimal n) \<Longrightarrow> byte_in 48 57 c"
proof (induction n rule: decimal.induct)
  case (1 n)
  then show ?case
    by (subst (asm) decimal.simps) (auto simp: digit_char_def byte_in_def split: if_splits)
qed

lemma length_decimal: "n < 10 ^ k \<Longrightarrow> 0 < k \<Longrightarrow> length (decimal n) \<le> k"
proof (induction n arbitrary: k rule: decimal.induct)
  case (1 n)
  show ?case
  proof (cases "n < 10")
    case True
    with "1.prems" show ?thesis by (simp add: decimal.simps [of n])
  next
    case False
    with "1.prems" obtain j where k: "k = Suc j" and j: "0 < j"
      by (cases k; cases "k - 1") auto
    have "n div 10 < 10 ^ j" using "1.prems"(1) k by (simp add: less_mult_imp_div_less)
    then have "length (decimal (n div 10)) \<le> j" using "1.IH" False j by simp
    with False k show ?thesis by (simp add: decimal.simps [of n])
  qed
qed

text \<open>The loop fills the scratch array from the right with the decimal form.\<close>

lemma write_digits_decimal:
  "0 < n \<Longrightarrow> length (decimal n) \<le> i \<Longrightarrow> i \<le> length tmp \<Longrightarrow>
   write_digits tmp i n =
     (take (i - length (decimal n)) tmp @ decimal n @ drop i tmp, i - length (decimal n))"
proof (induction tmp i n rule: write_digits.induct)
  case (1 tmp i n)
  show ?case
  proof (cases "n < 10")
    case True
    with "1.prems" show ?thesis
      by (simp add: write_digits.simps decimal.simps [of n] upd_conv_take_nth_drop)
  next
    case False
    let ?d = "decimal (n div 10)"
    have len: "length ?d < i" and pos: "0 < n div 10"
      using "1.prems" False by (auto simp: decimal.simps [of n])
    have IH: "write_digits (tmp[i - 1 := digit_char (n mod 10)]) (i - 1) (n div 10) =
      (take (i - 1 - length ?d) (tmp[i - 1 := digit_char (n mod 10)]) @ ?d @
        drop (i - 1) (tmp[i - 1 := digit_char (n mod 10)]), i - 1 - length ?d)"
      using "1.IH" "1.prems" len pos by simp
    have "drop (i - 1) (tmp[i - 1 := digit_char (n mod 10)]) = digit_char (n mod 10) # drop i tmp"
      using "1.prems" len by (simp add: upd_conv_take_nth_drop)
    with IH False "1.prems" show ?thesis
      by (simp add: write_digits.simps [of tmp i n] decimal.simps [of n] take_update_cancel)
  qed
qed

lemma usize_lt_pow10: "n \<le> USIZE_MAX \<Longrightarrow> n < 10 ^ 20"
  by (simp add: USIZE_MAX_def)

lemma length_decimal_usize: "n \<le> USIZE_MAX \<Longrightarrow> length (decimal n) \<le> 20"
  by (rule length_decimal [OF usize_lt_pow10]) auto

lemma write_u16_usize_decimal:
  "n \<le> USIZE_MAX \<Longrightarrow> write_u16_usize out n = out @ decimal n"
  using write_digits_decimal [of n 20 "replicate 20 (CHR 0x00)"] length_decimal_usize [of n]
  by (auto simp: write_u16_usize_def decimal.simps [of 0] digit_char_def char_of_def bit_simps)

lemma unat16_usize: "unat (n :: 16 word) \<le> USIZE_MAX"
proof -
  have "unat n < 2 ^ LENGTH(16)" by (rule unsigned_less)
  then show ?thesis by (simp add: USIZE_MAX_def)
qed

lemma write_u16_decimal: "write_u16 out n = out @ decimal (unat n)"
  by (simp add: write_u16_def write_u16_usize_decimal unat16_usize)

lemma parse_digits_decimal: "n \<le> mx \<Longrightarrow> parse_digits mx 0 (decimal n) = Some n"
proof (induction n rule: decimal.induct)
  case (1 n)
  show ?case
  proof (cases "n < 10")
    case True
    with "1.prems" show ?thesis by (simp add: decimal.simps [of n] digit_val_digit_char)
  next
    case False
    with "1" have "parse_digits mx 0 (decimal (n div 10)) = Some (n div 10)" by simp
    with False "1.prems" show ?thesis
      by (simp add: decimal.simps [of n] parse_digits_append digit_val_digit_char)
  qed
qed

lemma decimal_hd_not_plus: "decimal n \<noteq> CHR ''+'' # cs"
  using decimal_digits [of "CHR ''+''" n] by (auto simp: byte_in_def)

lemma parse_uint_decimal: "n \<le> mx \<Longrightarrow> parse_uint mx (decimal n) = Some n"
  using parse_digits_decimal [of n mx] decimal_hd_not_plus [of n]
  by (cases "decimal n") (auto simp: parse_uint_def)

section \<open>Correctness of the encoder\<close>

definition header_line :: "str \<times> str \<Rightarrow> bytes" where
  "header_line h = fst h @ '': '' @ snd h @ CRLF"

text \<open>The header fields on the wire: the user's without the owned names, then the owned ones.\<close>

definition wire_headers :: "response \<Rightarrow> bool \<Rightarrow> (str \<times> str) list" where
  "wire_headers r keep_alive =
     filter (\<lambda>h. \<not> owned_header (fst h)) (inner (rs_headers r)) @
     [(''Content-Length'', decimal (length (body_bytes (rs_body r)))),
      (''Connection'', if keep_alive then ''keep-alive'' else ''close'')]"

definition status_line :: "response \<Rightarrow> bytes" where
  "status_line r = ''HTTP/1.1 '' @ decimal (unat (sc_code (rs_status r))) @ '' '' @
     reason (rs_status r) @ CRLF"

definition response_head :: "response \<Rightarrow> bool \<Rightarrow> bytes" where
  "response_head r keep_alive =
     status_line r @ concat (map header_line (wire_headers r keep_alive)) @ CRLF"

definition body_usize :: "response \<Rightarrow> bool" where
  "body_usize r \<longleftrightarrow> length (body_bytes (rs_body r)) \<le> USIZE_MAX"

lemma encode_headers_eq:
  "encode_headers hs out =
     out @ concat (map header_line (filter (\<lambda>h. \<not> owned_header (fst h)) hs))"
  by (induction hs out rule: encode_headers.induct) (auto simp: header_line_def)

lemma encode_eq:
  "body_usize r \<Longrightarrow> encode r ka ib out =
     out @ response_head r ka @ (if ib then body_bytes (rs_body r) else [])"
  by (simp add: encode_def Let_def body_usize_def write_u16_usize_decimal write_u16_decimal
      encode_headers_eq headers_iter_def response_head_def status_line_def wire_headers_def
      header_line_def)

lemma encode_not_Nil: "encode r ka ib out \<noteq> []"
  by (simp add: encode_def Let_def)

lemma encode_append: "encode r ka ib out = out @ encode r ka ib []"
proof -
  have w: "write_u16_usize o' n = o' @ write_u16_usize [] n" for o' n
    by (auto simp: write_u16_usize_def split: prod.splits)
  show ?thesis
    by (simp add: encode_def Let_def write_u16_def encode_headers_eq)
       (subst (1 2 3 4) w, simp)
qed

lemma owned_header_names [simp]:
  "owned_header ''Content-Length''" "owned_header ''Connection''" "\<not> owned_header ''Content-Type''"
  by (simp_all add: owned_header_def eq_ignore_ascii_case_def to_ascii_lowercase_def
      char_of_def bit_simps)

lemma wire_headers_content_length:
  "filter (\<lambda>h. eq_ignore_ascii_case (fst h) ''content-length'') (wire_headers r ka) =
     [(''Content-Length'', decimal (length (body_bytes (rs_body r))))]"
  by (auto simp: wire_headers_def filter_empty_conv owned_header_def)
     (simp_all add: eq_ignore_ascii_case_def to_ascii_lowercase_def char_of_def bit_simps)

lemma wire_headers_connection:
  "filter (\<lambda>h. eq_ignore_ascii_case (fst h) ''connection'') (wire_headers r ka) =
     [(''Connection'', if ka then ''keep-alive'' else ''close'')]"
  by (auto simp: wire_headers_def filter_empty_conv owned_header_def)
     (simp_all add: eq_ignore_ascii_case_def to_ascii_lowercase_def char_of_def bit_simps)

section \<open>Properties\<close>

text \<open>
  C10: the encoder appends a well-formed response: the status line, the handler's header
  fields, exactly one \<open>Content-Length\<close> with the decimal length of the body and exactly one
  \<open>Connection\<close> field that agrees with \<open>keep_alive\<close>, whatever the handler set, then the empty
  line and, unless it answers a HEAD request, the body.
\<close>

theorem encode_wire:
  assumes "body_usize r"
  shows "encode r ka ib out =
      out @ status_line r @ concat (map header_line (wire_headers r ka)) @ CRLF @
        (if ib then body_bytes (rs_body r) else []) \<and>
    filter (\<lambda>h. eq_ignore_ascii_case (fst h) ''content-length'') (wire_headers r ka) =
      [(''Content-Length'', decimal (length (body_bytes (rs_body r))))] \<and>
    filter (\<lambda>h. eq_ignore_ascii_case (fst h) ''connection'') (wire_headers r ka) =
      [(''Connection'', if ka then ''keep-alive'' else ''close'')]"
  using encode_eq [OF assms, of ka ib out] wire_headers_content_length wire_headers_connection
  by (simp add: response_head_def)

definition demo_response :: response where
  "demo_response = with_header (response_text NOT_FOUND ''no'') ''CONTENT-length'' ''7''"

theorem encode_wire_witness:
  "encode demo_response False True [] =
     ''HTTP/1.1 404 Not Found'' @ CRLF @ concat (map header_line (wire_headers demo_response False)) @
     CRLF @ ''no''"
proof -
  have "body_usize demo_response" "body_bytes (rs_body demo_response) = ''no''"
    "status_line demo_response = ''HTTP/1.1 404 Not Found'' @ CRLF"
    by code_simp+
  with encode_wire [of demo_response False True "[]"] show ?thesis by simp
qed

text \<open>
  The number writer and the number parser agree on every usize: what \<open>write_u16_usize\<close>
  appends is at most the 20 bytes of its scratch array and parses back to the number.
\<close>

theorem write_u16_usize_roundtrip:
  assumes "n \<le> USIZE_MAX"
  shows "\<exists>ds. write_u16_usize out n = out @ ds \<and> length ds \<le> 20 \<and> parse_usize ds = Some n"
  using assms
  by (intro exI [of _ "decimal n"])
     (simp add: write_u16_usize_decimal length_decimal_usize parse_uint_decimal)

theorem write_u16_usize_roundtrip_witness:
  "\<exists>ds. write_u16_usize ''x'' USIZE_MAX = ''x'' @ ds \<and> length ds \<le> 20 \<and> parse_usize ds = Some USIZE_MAX"
  by (rule write_u16_usize_roundtrip) simp

end
