(* ===== verification/Request.thy ===== *)
theory Request
  imports Response
begin

text \<open>
  The incremental, sans-IO request parser of \<open>core/src/http/request.rs\<close>. The parser's state is
  the record \<open>request_parser\<close>, one field per field of the struct; each method is a function
  that takes the state and returns it updated together with the method's result. A
  \<open>Result<T, ParseError>\<close> is a sum with the error on the left.

  The theory defines the parser and proves the facts about its single steps; the theorems
  about whole pushes are in \<open>Request_Correct\<close>.
\<close>

section \<open>Requests\<close>

record request =
  rq_method :: http_method
  rq_path :: str
  rq_version :: version
  rq_headers :: headers
  rq_body :: bytes

definition connection_has :: "request \<Rightarrow> str \<Rightarrow> bool" where
  "connection_has r token =
     (case headers_get (rq_headers r) ''connection'' of
        None \<Rightarrow> False
      | Some v \<Rightarrow> (\<exists>t \<in> set (split_on (\<lambda>c. c = CHR '','') v). eq_ignore_ascii_case (trim t) token))"

definition wants_keep_alive :: "request \<Rightarrow> bool" where
  "wants_keep_alive r =
     (case rq_version r of
        Http11 \<Rightarrow> \<not> connection_has r ''close''
      | Http10 \<Rightarrow> connection_has r ''keep-alive'')"

definition content_length :: "request \<Rightarrow> usize" where
  "content_length r =
     (case headers_get (rq_headers r) ''content-length'' of
        None \<Rightarrow> 0
      | Some v \<Rightarrow> (case parse_usize (trim v) of None \<Rightarrow> 0 | Some n \<Rightarrow> n))"

section \<open>Errors and outcomes\<close>

datatype parse_error =
    MalformedRequestLine
  | UnsupportedVersion
  | MalformedHeader
  | RequestLineTooLong
  | HeadersTooLarge
  | TooManyHeaders
  | BodyTooLarge

fun status :: "parse_error \<Rightarrow> status_code" where
  "status MalformedRequestLine = BAD_REQUEST"
| "status MalformedHeader = BAD_REQUEST"
| "status RequestLineTooLong = URI_TOO_LONG"
| "status HeadersTooLarge = HEADER_FIELDS_TOO_LARGE"
| "status TooManyHeaders = HEADER_FIELDS_TOO_LARGE"
| "status BodyTooLarge = PAYLOAD_TOO_LARGE"
| "status UnsupportedVersion = VERSION_NOT_SUPPORTED"

datatype parse_status =
    Incomplete
  | Complete (ps_request: request) (ps_consumed: usize)
  | Failed parse_error

datatype pstate = RequestLine | Headers | Body | Done

record request_parser =
  buf :: bytes
  pstate :: pstate
  line_start :: usize
  scanned :: usize
  header_block_start :: usize
  body_start :: usize
  header_count :: usize
  p_content_length :: usize
  p_method :: http_method
  p_path :: str
  p_version :: version
  p_headers :: headers

definition parser_new :: request_parser where
  "parser_new = \<lparr>
     buf = [], pstate = RequestLine, line_start = 0, scanned = 0, header_block_start = 0,
     body_start = 0, header_count = 0, p_content_length = 0, p_method = Unsupported,
     p_path = [], p_version = Http11, p_headers = headers_new\<rparr>"

lemma parser_new_fields [simp]:
  "buf parser_new = []" "pstate parser_new = RequestLine" "line_start parser_new = 0"
  "scanned parser_new = 0" "header_count parser_new = 0" "p_headers parser_new = headers_new"
  by (simp_all add: parser_new_def)

definition reset :: "request_parser \<Rightarrow> request_parser" where
  "reset p = p\<lparr>
     pstate := RequestLine, line_start := 0, scanned := 0, header_block_start := 0,
     body_start := 0, header_count := 0, p_content_length := 0, p_method := Unsupported,
     p_path := [], p_version := Http11\<rparr>"

section \<open>The CRLF search\<close>

text \<open>The scan loop: the index of the first CRLF at or after \<open>i\<close>, and where the scan stopped.\<close>

function crlf_scan :: "bytes \<Rightarrow> nat \<Rightarrow> nat option \<times> nat" where
  "crlf_scan b i =
     (if i + 1 < length b
      then if b ! i = CR \<and> b ! (i + 1) = LF then (Some i, i) else crlf_scan b (i + 1)
      else (None, i))"
  by pat_completeness auto
termination
  by (relation "measure (\<lambda>(b, i). length b - i)") auto

declare crlf_scan.simps [simp del]

definition next_crlf :: "request_parser \<Rightarrow> request_parser \<times> nat option" where
  "next_crlf p =
     (case crlf_scan (buf p) (max (scanned p) (line_start p)) of
        (Some i, _) \<Rightarrow> (p, Some i)
      | (None, i) \<Rightarrow> (p\<lparr>scanned := i\<rparr>, None))"

section \<open>The request line\<close>

text \<open>
  What \<open>parse_request_line\<close> does once the line's end is known. The four \<open>parts.next()\<close>
  calls of the source match exactly the lines of three pieces.
\<close>

definition request_line_at ::
  "request_parser \<Rightarrow> nat \<Rightarrow> request_parser \<times> (parse_error + bool)" where
  "request_line_at p eol =
     (if eol - line_start p > MAX_REQUEST_LINE then (p, Inl RequestLineTooLong)
      else
        (case split_on (\<lambda>b. b = CHR '' '') (subslice (line_start p) eol (buf p)) of
           [m, path, v] \<Rightarrow>
             if m \<noteq> [] \<and> path \<noteq> [] \<and> v \<noteq> [] then
               if \<not> utf8_valid path then (p, Inl MalformedRequestLine)
               else (case version_parse v of
                  None \<Rightarrow> (p, Inl UnsupportedVersion)
                | Some version \<Rightarrow>
                    (p\<lparr>p_method := method_parse m, p_path := path, p_version := version,
                       line_start := eol + 2, scanned := eol + 2,
                       header_block_start := eol + 2, pstate := Headers\<rparr>, Inr True))
             else (p, Inl MalformedRequestLine)
         | _ \<Rightarrow> (p, Inl MalformedRequestLine)))"

definition parse_request_line ::
  "request_parser \<Rightarrow> request_parser \<times> (parse_error + bool)" where
  "parse_request_line p =
     (case next_crlf p of
        (p, None) \<Rightarrow>
          if length (buf p) - line_start p > MAX_REQUEST_LINE
          then (p, Inl RequestLineTooLong) else (p, Inr False)
      | (p, Some eol) \<Rightarrow> request_line_at p eol)"

section \<open>The header block\<close>

definition determine_content_length ::
  "request_parser \<Rightarrow> request_parser \<times> (parse_error + unit)" where
  "determine_content_length p =
     (case headers_get (p_headers p) ''content-length'' of
        None \<Rightarrow> (p\<lparr>p_content_length := 0\<rparr>, Inr ())
      | Some v \<Rightarrow>
          (case parse_usize (trim v) of
             None \<Rightarrow> (p, Inl MalformedHeader)
           | Some n \<Rightarrow>
               if n > MAX_BODY_BYTES then (p, Inl BodyTooLarge)
               else (p\<lparr>p_content_length := n\<rparr>, Inr ())))"

text \<open>
  One turn of the loop in \<open>parse_headers\<close>: it either returns from the function, or has
  consumed one header line and goes round again.
\<close>

datatype header_turn = Return "parse_error + bool" | Again

definition end_of_headers :: "request_parser \<Rightarrow> nat \<Rightarrow> request_parser \<times> header_turn" where
  "end_of_headers p eol =
     (case determine_content_length (p\<lparr>body_start := eol + 2\<rparr>) of
        (p, Inl e) \<Rightarrow> (p, Return (Inl e))
      | (p, Inr _) \<Rightarrow> (p\<lparr>pstate := Body\<rparr>, Return (Inr True)))"

definition header_field_at :: "request_parser \<Rightarrow> nat \<Rightarrow> request_parser \<times> header_turn" where
  "header_field_at p eol =
     (let line = subslice (line_start p) eol (buf p) in
      case position (\<lambda>b. b = CHR '':'') line of
        None \<Rightarrow> (p, Return (Inl MalformedHeader))
      | Some colon \<Rightarrow>
          if \<not> utf8_valid (take colon line) then (p, Return (Inl MalformedHeader))
          else if \<not> utf8_valid (drop (colon + 1) line) then (p, Return (Inl MalformedHeader))
          else
            (let name = trim (take colon line); value = trim (drop (colon + 1) line) in
             if name = [] then (p, Return (Inl MalformedHeader))
             else
               (let p = p\<lparr>header_count := header_count p + 1\<rparr> in
                if header_count p > MAX_HEADER_COUNT then (p, Return (Inl TooManyHeaders))
                else (p\<lparr>p_headers := headers_insert (p_headers p) name value,
                        line_start := eol + 2, scanned := eol + 2\<rparr>, Again))))"

definition header_line_at :: "request_parser \<Rightarrow> nat \<Rightarrow> request_parser \<times> header_turn" where
  "header_line_at p eol =
     (if (eol + 2) - header_block_start p > MAX_HEADER_BYTES
      then (p, Return (Inl HeadersTooLarge))
      else if eol = line_start p then end_of_headers p eol
      else header_field_at p eol)"

definition header_turn :: "request_parser \<Rightarrow> request_parser \<times> header_turn" where
  "header_turn p =
     (case next_crlf p of
        (p, None) \<Rightarrow>
          if length (buf p) - header_block_start p > MAX_HEADER_BYTES
          then (p, Return (Inl HeadersTooLarge)) else (p, Return (Inr False))
      | (p, Some eol) \<Rightarrow> header_line_at p eol)"

lemmas header_line_defs = header_line_at_def header_field_at_def end_of_headers_def

lemma crlf_scan_SomeD:
  "crlf_scan b i = (Some k, j) \<Longrightarrow> i \<le> k \<and> k + 1 < length b \<and> b ! k = CR \<and> b ! (k + 1) = LF"
proof (induction b i rule: crlf_scan.induct)
  case (1 b i)
  then show ?case by (subst (asm) (2) crlf_scan.simps) (auto split: if_splits)
qed

lemma next_crlf_SomeD:
  "next_crlf p = (q, Some eol) \<Longrightarrow>
     q = p \<and> line_start p \<le> eol \<and> scanned p \<le> eol \<and> eol + 1 < length (buf p)"
  by (auto simp: next_crlf_def split: prod.splits option.splits dest: crlf_scan_SomeD)

lemma next_crlf_NoneD: "next_crlf p = (q, None) \<Longrightarrow> \<exists>i. q = p\<lparr>scanned := i\<rparr>"
  by (auto simp: next_crlf_def split: prod.splits option.splits)

lemma determine_content_length_fields:
  "determine_content_length p = (q, r) \<Longrightarrow> \<exists>n. q = p\<lparr>p_content_length := n\<rparr>"
  by (auto simp: determine_content_length_def split: option.splits if_splits)
     (metis request_parser.surjective request_parser.update_convs(8))+

text \<open>A turn that goes round again has moved the start of the line forward in the buffer.\<close>

lemma header_turn_Again:
  "header_turn p = (q, Again) \<Longrightarrow>
     buf q = buf p \<and> line_start p < line_start q \<and> line_start q \<le> length (buf p)"
  by (auto simp: header_turn_def header_line_defs Let_def
      split: prod.splits option.splits if_splits sum.splits dest!: next_crlf_SomeD)

function parse_headers :: "request_parser \<Rightarrow> request_parser \<times> (parse_error + bool)" where
  "parse_headers p =
     (case header_turn p of (q, Return r) \<Rightarrow> (q, r) | (q, Again) \<Rightarrow> parse_headers q)"
  by pat_completeness auto
termination
  by (relation "measure (\<lambda>p. length (buf p) - line_start p)")
     (auto dest!: header_turn_Again [OF sym])

declare parse_headers.simps [simp del]

text \<open>Evaluation by rewriting needs the recursive call outside of a binder.\<close>

lemma parse_headers_code [code]:
  "parse_headers p =
     (case snd (header_turn p) of
        Return r \<Rightarrow> (fst (header_turn p), r)
      | Again \<Rightarrow> parse_headers (fst (header_turn p)))"
  by (subst parse_headers.simps) (simp split: prod.split header_turn.split)

section \<open>The body and the driver loop\<close>

definition parse_body ::
  "request_parser \<Rightarrow> request_parser \<times> (parse_error + parse_status option)" where
  "parse_body p =
     (let available = length (buf p) - body_start p in
      if available < p_content_length p then (p, Inr None)
      else
        (let body_end = body_start p + p_content_length p;
             request = \<lparr>rq_method = p_method p, rq_path = p_path p, rq_version = p_version p,
                        rq_headers = p_headers p,
                        rq_body = subslice (body_start p) body_end (buf p)\<rparr>;
             p = p\<lparr>p_path := [], p_headers := headers_new, buf := drop body_end (buf p),
                   pstate := Done\<rparr>
         in (p, Inr (Some (Complete request body_end)))))"

definition fail :: "request_parser \<Rightarrow> parse_error \<Rightarrow> request_parser \<times> parse_status" where
  "fail p e = (p\<lparr>pstate := Done\<rparr>, Failed e)"

fun pstate_rank :: "pstate \<Rightarrow> nat" where
  "pstate_rank RequestLine = 3"
| "pstate_rank Headers = 2"
| "pstate_rank Body = 1"
| "pstate_rank Done = 0"

lemma parse_request_line_True: "parse_request_line p = (q, Inr True) \<Longrightarrow> pstate q = Headers"
  by (auto simp: parse_request_line_def request_line_at_def
      split: prod.splits option.splits if_splits list.splits)

lemma header_turn_True: "header_turn p = (q, Return (Inr True)) \<Longrightarrow> pstate q = Body"
  by (auto simp: header_turn_def header_line_defs Let_def
      split: prod.splits option.splits if_splits sum.splits)

lemma parse_headers_True: "parse_headers p = (q, Inr True) \<Longrightarrow> pstate q = Body"
proof (induction p rule: parse_headers.induct)
  case (1 p)
  then show ?case
    by (subst (asm) (2) parse_headers.simps)
       (auto split: prod.splits header_turn.splits dest: header_turn_True)
qed

function advance :: "request_parser \<Rightarrow> request_parser \<times> parse_status" where
  "advance p =
     (case pstate p of
        RequestLine \<Rightarrow>
          (case parse_request_line p of
             (q, Inr True) \<Rightarrow> advance q
           | (q, Inr False) \<Rightarrow> (q, Incomplete)
           | (q, Inl e) \<Rightarrow> fail q e)
      | Headers \<Rightarrow>
          (case parse_headers p of
             (q, Inr True) \<Rightarrow> advance q
           | (q, Inr False) \<Rightarrow> (q, Incomplete)
           | (q, Inl e) \<Rightarrow> fail q e)
      | Body \<Rightarrow>
          (case parse_body p of
             (q, Inr (Some st)) \<Rightarrow> (q, st)
           | (q, Inr None) \<Rightarrow> (q, Incomplete)
           | (q, Inl e) \<Rightarrow> fail q e)
      | Done \<Rightarrow> (p, Incomplete))"
  by pat_completeness auto
termination
  by (relation "measure (\<lambda>p. pstate_rank (pstate p))")
     (auto dest!: parse_request_line_True [OF sym] parse_headers_True [OF sym])

declare advance.simps [simp del]

lemma advance_code [code]:
  "advance p =
     (case pstate p of
        RequestLine \<Rightarrow>
          (case snd (parse_request_line p) of
             Inl e \<Rightarrow> fail (fst (parse_request_line p)) e
           | Inr True \<Rightarrow> advance (fst (parse_request_line p))
           | Inr False \<Rightarrow> (fst (parse_request_line p), Incomplete))
      | Headers \<Rightarrow>
          (case snd (parse_headers p) of
             Inl e \<Rightarrow> fail (fst (parse_headers p)) e
           | Inr True \<Rightarrow> advance (fst (parse_headers p))
           | Inr False \<Rightarrow> (fst (parse_headers p), Incomplete))
      | Body \<Rightarrow>
          (case snd (parse_body p) of
             Inl e \<Rightarrow> fail (fst (parse_body p)) e
           | Inr None \<Rightarrow> (fst (parse_body p), Incomplete)
           | Inr (Some st) \<Rightarrow> (fst (parse_body p), st))
      | Done \<Rightarrow> (p, Incomplete))"
proof (cases "pstate p")
  case RequestLine
  then show ?thesis
    by (cases "parse_request_line p")
       (simp add: advance.simps [of p] split: sum.split bool.split)
next
  case Headers
  then show ?thesis
    by (cases "parse_headers p") (simp add: advance.simps [of p] split: sum.split bool.split)
next
  case Body
  then show ?thesis
    by (cases "parse_body p") (simp add: advance.simps [of p] split: sum.split option.split)
next
  case Done
  then show ?thesis by (simp add: advance.simps [of p])
qed

lemma advance_RequestLine:
  "pstate p = RequestLine \<Longrightarrow> parse_request_line p = (q, Inr True) \<Longrightarrow> advance p = advance q"
  by (simp add: advance.simps [of p])

lemma advance_Headers:
  "pstate p = Headers \<Longrightarrow> parse_headers p = (q, Inr True) \<Longrightarrow> advance p = advance q"
  by (simp add: advance.simps [of p])

definition push :: "request_parser \<Rightarrow> bytes \<Rightarrow> request_parser \<times> parse_status" where
  "push p bs = advance (p\<lparr>buf := buf p @ bs\<rparr>)"

end
