(* ===== verification/App.thy ===== *)
theory App
  imports Router Request
begin

text \<open>
  The immutable application state: \<open>core/src/asset.rs\<close>, \<open>core/src/metrics.rs\<close> and
  \<open>core/src/app.rs\<close>. The file system the asset cache is loaded from is an argument: a directory
  listing with the errors the kernel may report at each step. The metrics are the only field
  that changes after boot (through atomics), so the operations that count return the
  application state updated.
\<close>

section \<open>I/O errors\<close>

datatype io_error =
    WouldBlock | TimedOut | Interrupted | UnsupportedKind | UnexpectedEof | InvalidData
  | OsError nat

section \<open>Asset cache\<close>

record asset =
  a_bytes :: bytes
  a_content_type :: str

record asset_cache =
  assets_map :: "(str, asset) hashmap"

definition asset_cache_default :: asset_cache where
  "asset_cache_default = \<lparr>assets_map = hm_empty\<rparr>"

definition asset_get :: "asset_cache \<Rightarrow> str \<Rightarrow> asset option" where
  "asset_get c name = hm_get (assets_map c) name"

text \<open>
  \<open>Path::extension\<close> of the last component: what follows the last dot, unless there is none or
  it is the leading character.
\<close>

definition extension :: "str \<Rightarrow> str option" where
  "extension f =
     (if f = ''..'' then None
      else (case position (\<lambda>c. c = CHR ''.'') (rev f) of
              None \<Rightarrow> None
            | Some i \<Rightarrow> if i + 1 = length f then None else Some (drop (length f - i) f)))"

definition content_type_for :: "str \<Rightarrow> str" where
  "content_type_for file_name =
     (case map_option (map to_ascii_lowercase) (extension file_name) of
        None \<Rightarrow> ''application/octet-stream''
      | Some e \<Rightarrow>
          if e = ''html'' \<or> e = ''htm'' then ''text/html; charset=utf-8''
          else if e = ''css'' then ''text/css; charset=utf-8''
          else if e = ''js'' then ''text/javascript; charset=utf-8''
          else if e = ''json'' then ''application/json''
          else if e = ''txt'' then ''text/plain; charset=utf-8''
          else if e = ''png'' then ''image/png''
          else if e = ''jpg'' \<or> e = ''jpeg'' then ''image/jpeg''
          else if e = ''svg'' then ''image/svg+xml''
          else if e = ''ico'' then ''image/x-icon''
          else ''application/octet-stream'')"

text \<open>
  What the kernel shows of a directory: reading it, each of its entries and each file may
  fail. Names are UTF-8; symbolic links are followed, so a tree has none.
\<close>

datatype listing = ReadDirError io_error | Entries "entry list"
  and entry = EntryError io_error | File str "io_error + bytes" | SubDir str listing

fun join_path :: "str list \<Rightarrow> str" where
  "join_path [] = []"
| "join_path [s] = s"
| "join_path (s # ss) = s @ CHR ''/'' # join_path ss"

definition backslash_to_slash :: "str \<Rightarrow> str" where
  "backslash_to_slash s = map (\<lambda>c. if c = CHR 0x5C then CHR ''/'' else c) s"

definition asset_key :: "str list \<Rightarrow> str" where
  "asset_key rel = backslash_to_slash (join_path rel)"

text \<open>\<open>load_into\<close>: \<open>rel\<close> is the path of the directory relative to the root.\<close>

fun load_into :: "str list \<Rightarrow> listing \<Rightarrow> (str, asset) hashmap \<Rightarrow> io_error + (str, asset) hashmap"
  and load_entries :: "str list \<Rightarrow> entry list \<Rightarrow> (str, asset) hashmap \<Rightarrow> io_error + (str, asset) hashmap"
where
  "load_into rel (ReadDirError e) m = Inl e"
| "load_into rel (Entries es) m = load_entries rel es m"
| "load_entries rel [] m = Inr m"
| "load_entries rel (EntryError e # es) m = Inl e"
| "load_entries rel (SubDir name l # es) m =
     (case load_into (rel @ [name]) l m of Inl e \<Rightarrow> Inl e | Inr m' \<Rightarrow> load_entries rel es m')"
| "load_entries rel (File name contents # es) m =
     (case contents of
        Inl e \<Rightarrow> Inl e
      | Inr bs \<Rightarrow>
          load_entries rel es
            (hm_insert (asset_key (rel @ [name]))
               \<lparr>a_bytes = bs, a_content_type = content_type_for name\<rparr> m))"

definition load_dir :: "listing \<Rightarrow> io_error + asset_cache" where
  "load_dir l = (case load_into [] l hm_empty of Inl e \<Rightarrow> Inl e | Inr m \<Rightarrow> Inr \<lparr>assets_map = m\<rparr>)"

section \<open>Metrics\<close>

record metrics =
  connections :: "64 word"
  requests :: "64 word"
  errors :: "64 word"

definition metrics_new :: metrics where
  "metrics_new = \<lparr>connections = 0, requests = 0, errors = 0\<rparr>"

definition inc_connections :: "metrics \<Rightarrow> metrics" where
  "inc_connections m = m\<lparr>connections := connections m + 1\<rparr>"

definition inc_requests :: "metrics \<Rightarrow> metrics" where
  "inc_requests m = m\<lparr>requests := requests m + 1\<rparr>"

definition inc_errors :: "metrics \<Rightarrow> metrics" where
  "inc_errors m = m\<lparr>errors := errors m + 1\<rparr>"

section \<open>The application\<close>

text \<open>
  A handler is a \<open>fn(&Request, &App) -> Response\<close> pointer. Its type variable \<open>'h\<close> stands for
  the code address, and the argument \<open>call\<close> for jumping to it.
\<close>

record 'h app =
  app_router :: "'h router"
  app_assets :: asset_cache
  app_metrics :: metrics

type_synonym 'h call = "'h \<Rightarrow> request \<Rightarrow> 'h app \<Rightarrow> response"

definition app_handle :: "'h call \<Rightarrow> 'h app \<Rightarrow> request \<Rightarrow> response" where
  "app_handle call a r =
     (case rq_method r of
        Unsupported \<Rightarrow> response_text METHOD_NOT_ALLOWED ''405 Method Not Allowed''
      | _ \<Rightarrow>
          (case router_lookup (app_router a) Get (rq_path r) of
             Some h \<Rightarrow> call h r a
           | None \<Rightarrow> response_text NOT_FOUND ''404 Not Found''))"

record 'h app_builder =
  b_router :: "'h router"
  b_assets_dir :: "str option"

definition app_builder :: "'h app_builder" where
  "app_builder = \<lparr>b_router = router_new, b_assets_dir = None\<rparr>"

definition builder_route :: "'h app_builder \<Rightarrow> http_method \<Rightarrow> str \<Rightarrow> 'h \<Rightarrow> 'h app_builder" where
  "builder_route b m path h = b\<lparr>b_router := router_insert (b_router b) m path h\<rparr>"

definition builder_assets_dir :: "'h app_builder \<Rightarrow> str \<Rightarrow> 'h app_builder" where
  "builder_assets_dir b dir = b\<lparr>b_assets_dir := Some dir\<rparr>"

definition builder_build :: "(str \<Rightarrow> listing) \<Rightarrow> 'h app_builder \<Rightarrow> io_error + 'h app" where
  "builder_build fs b =
     (case (case b_assets_dir b of Some dir \<Rightarrow> load_dir (fs dir) | None \<Rightarrow> Inr asset_cache_default) of
        Inl e \<Rightarrow> Inl e
      | Inr assets \<Rightarrow>
          Inr \<lparr>app_router = b_router b, app_assets = assets, app_metrics = metrics_new\<rparr>)"

section \<open>What the cache holds after loading\<close>

text \<open>The readable files of a tree with their relative paths, and the errors met on the way.\<close>

fun files :: "str list \<Rightarrow> listing \<Rightarrow> (str list \<times> bytes) list"
  and entry_files :: "str list \<Rightarrow> entry list \<Rightarrow> (str list \<times> bytes) list"
where
  "files rel (ReadDirError e) = []"
| "files rel (Entries es) = entry_files rel es"
| "entry_files rel [] = []"
| "entry_files rel (EntryError e # es) = entry_files rel es"
| "entry_files rel (SubDir name l # es) = files (rel @ [name]) l @ entry_files rel es"
| "entry_files rel (File name contents # es) =
     (case contents of Inl e \<Rightarrow> [] | Inr bs \<Rightarrow> [(rel @ [name], bs)]) @ entry_files rel es"

fun readable :: "listing \<Rightarrow> bool" and entries_readable :: "entry list \<Rightarrow> bool" where
  "readable (ReadDirError e) = False"
| "readable (Entries es) = entries_readable es"
| "entries_readable [] = True"
| "entries_readable (EntryError e # es) = False"
| "entries_readable (SubDir name l # es) = (readable l \<and> entries_readable es)"
| "entries_readable (File name contents # es) = ((\<exists>bs. contents = Inr bs) \<and> entries_readable es)"

definition file_asset :: "str list \<times> bytes \<Rightarrow> str \<times> asset" where
  "file_asset f = (asset_key (fst f),
     \<lparr>a_bytes = snd f, a_content_type = content_type_for (last (fst f))\<rparr>)"

definition insert_file :: "str list \<times> bytes \<Rightarrow> (str, asset) hashmap \<Rightarrow> (str, asset) hashmap" where
  "insert_file f m = hm_insert (fst (file_asset f)) (snd (file_asset f)) m"

lemma load_into_files:
  "(if readable l then load_into rel l m = Inr (fold insert_file (files rel l) m)
    else \<exists>e. load_into rel l m = Inl e)"
  and load_entries_files:
  "(if entries_readable es then load_entries rel es m = Inr (fold insert_file (entry_files rel es) m)
    else \<exists>e. load_entries rel es m = Inl e)"
proof (induction rel l m and rel es m rule: load_into_load_entries.induct)
  case (5 rel name l es m)
  then show ?case by (cases "readable l") (auto split: if_splits)
next
  case (6 rel name contents es m)
  have ins: "insert_file (rel @ [name], bs) m =
      hm_insert (asset_key (rel @ [name]))
        \<lparr>a_bytes = bs, a_content_type = content_type_for name\<rparr> m" for bs
    by (simp add: insert_file_def file_asset_def)
  show ?case using 6 by (cases contents) (auto simp: ins)
qed auto

lemma invar_fold_insert_file: "hm_invar m \<Longrightarrow> hm_invar (fold insert_file fs m)"
  by (induction fs arbitrary: m) (simp_all add: insert_file_def)

lemma get_fold_insert_file:
  "hm_invar m \<Longrightarrow> hm_get (fold insert_file fs m) k =
     (case map_of (rev (map file_asset fs)) k of None \<Rightarrow> hm_get m k | Some a \<Rightarrow> Some a)"
proof (induction fs arbitrary: m)
  case Nil
  then show ?case by simp
next
  case (Cons f fs)
  have "map_of [file_asset f] k = (if k = fst (file_asset f) then Some (snd (file_asset f)) else None)"
    by (cases "file_asset f") simp
  with Cons.IH [of "insert_file f m"] Cons.prems show ?case
    by (auto simp: insert_file_def hm.get_insert map_add_def split: option.splits)
qed

lemma load_dir_readable:
  "readable l \<Longrightarrow> \<exists>c. load_dir l = Inr c \<and> asset_get c = map_of (rev (map file_asset (files [] l)))"
  using load_into_files [of l "[]" hm_empty]
  by (auto simp: load_dir_def asset_get_def get_fold_insert_file split: option.splits)

lemma load_dir_unreadable: "\<not> readable l \<Longrightarrow> \<exists>e. load_dir l = Inl e"
  using load_into_files [of l "[]" hm_empty] by (auto simp: load_dir_def)

section \<open>Properties\<close>

text \<open>
  C13: the cache is the directory tree: loading succeeds exactly when everything under the
  directory can be read, and then a name is bound exactly when it is the relative path of a
  file, to that file's bytes and the type its extension says.
\<close>

theorem load_dir_exact:
  "case load_dir l of
     Inl e \<Rightarrow> \<not> readable l
   | Inr c \<Rightarrow> readable l \<and> asset_get c = map_of (rev (map file_asset (files [] l)))"
  using load_dir_readable [of l] load_dir_unreadable [of l] by (cases "readable l") auto

lemma builder_routes:
  "b_router (fold (\<lambda>(m, path, h) b. builder_route b m path h) regs b) =
     fold (\<lambda>(m, path, h) r. router_insert r m path h) regs (b_router b)"
  "b_assets_dir (fold (\<lambda>(m, path, h) b. builder_route b m path h) regs b) = b_assets_dir b"
  by (induction regs arbitrary: b) (auto simp: builder_route_def)

text \<open>
  C12: a built application answers every request: an unsupported method with 405 whatever the
  path, a GET or a HEAD with the handler registered last for the path's segments under GET, and
  with 404 when there is none.
\<close>

theorem built_app_handle:
  assumes "builder_build fs (fold (\<lambda>(m, path, h) b. builder_route b m path h) regs app_builder) = Inr a"
  shows "app_handle call a r =
    (if rq_method r = Unsupported then response_text METHOD_NOT_ALLOWED ''405 Method Not Allowed''
     else (case map_of (rev (map (\<lambda>(m, path, h). ((m, segments path), h)) regs)) (Get, segments (rq_path r)) of
             Some h \<Rightarrow> call h r a
           | None \<Rightarrow> response_text NOT_FOUND ''404 Not Found''))"
proof -
  have "app_router a = fold (\<lambda>(m, path, h) r. router_insert r m path h) regs router_new"
    using assms by (auto simp: builder_build_def builder_routes app_builder_def split: sum.splits)
  then show ?thesis
    by (cases "rq_method r")
       (simp_all add: app_handle_def router_lookup_map router_map_inserts router_map_new)
qed

definition demo_regs :: "(http_method \<times> str \<times> str) list" where
  "demo_regs = [(Get, ''/'', ''index''), (Get, ''/a//b'', ''ab'')]"

definition demo_request :: request where
  "demo_request = \<lparr>rq_method = Head, rq_path = ''//a/b/'', rq_version = Http11,
     rq_headers = headers_new, rq_body = []\<rparr>"

theorem built_app_handle_witness:
  "\<exists>a. builder_build (\<lambda>d. Entries [])
     (fold (\<lambda>(m, path, h) b. builder_route b m path h) demo_regs app_builder) = Inr a \<and>
   app_handle (\<lambda>h r a. response_text OK h) a demo_request = response_text OK ''ab''"
proof -
  let ?b = "fold (\<lambda>(m, path, h) b. builder_route b m path h) demo_regs app_builder"
  obtain a where a: "builder_build (\<lambda>d. Entries []) ?b = Inr a"
    by (auto simp: builder_build_def builder_routes app_builder_def)
  have "map_of (rev (map (\<lambda>(m, path, h). ((m, segments path), h)) demo_regs))
      (Get, segments (rq_path demo_request)) = Some ''ab''"
    "rq_method demo_request \<noteq> Unsupported"
    by code_simp+
  with built_app_handle [OF a, of "\<lambda>h r a. response_text OK h" demo_request] a show ?thesis by simp
qed

end
