(* ===== verification/Request_Correct.thy ===== *)
theory Request_Correct
  imports Request
begin

text \<open>
  Theorems about the request parser. The first part shows that a parser that answered
  \<open>Incomplete\<close> can be resumed with any further bytes as if it had been given everything at
  once (the search position \<open>scanned\<close> is the only field in which the two runs may differ, and
  only once it is no longer read). The second part is the parser's invariant and what it gives:
  every index the code subtracts or slices with is in range, the buffered bytes are bounded,
  and a completed request obeys the limits. The locale \<open>incremental_parser\<close> is the contract
  that the connection state machine relies on.
\<close>

section \<open>Induction over the phases\<close>

text \<open>What \<open>advance\<close> does in each phase, as an induction rule.\<close>

lemma advance_steps [case_names line line_more line_bad headers headers_more headers_bad body finished]:
  assumes "\<And>p q. pstate p = RequestLine \<Longrightarrow> parse_request_line p = (q, Inr True) \<Longrightarrow> advance p = advance q \<Longrightarrow> P q \<Longrightarrow> P p"
    and "\<And>p q. pstate p = RequestLine \<Longrightarrow> parse_request_line p = (q, Inr False) \<Longrightarrow> advance p = (q, Incomplete) \<Longrightarrow> P p"
    and "\<And>p q e. pstate p = RequestLine \<Longrightarrow> parse_request_line p = (q, Inl e) \<Longrightarrow> advance p = fail q e \<Longrightarrow> P p"
    and "\<And>p q. pstate p = Headers \<Longrightarrow> parse_headers p = (q, Inr True) \<Longrightarrow> advance p = advance q \<Longrightarrow> P q \<Longrightarrow> P p"
    and "\<And>p q. pstate p = Headers \<Longrightarrow> parse_headers p = (q, Inr False) \<Longrightarrow> advance p = (q, Incomplete) \<Longrightarrow> P p"
    and "\<And>p q e. pstate p = Headers \<Longrightarrow> parse_headers p = (q, Inl e) \<Longrightarrow> advance p = fail q e \<Longrightarrow> P p"
    and "\<And>p. pstate p = Body \<Longrightarrow> P p"
    and "\<And>p. pstate p = Done \<Longrightarrow> advance p = (p, Incomplete) \<Longrightarrow> P p"
  shows "P p"
proof (induction p rule: advance.induct)
  case (1 p)
  obtain q t where t: "parse_request_line p = (q, t)" by (cases "parse_request_line p")
  obtain q' t' where t': "parse_headers p = (q', t')" by (cases "parse_headers p")
  have sum: "u = Inr True \<or> u = Inr False \<or> (\<exists>e. u = Inl e)" for u :: "parse_error + bool"
    by (cases u) auto
  note step = advance.simps [of p]
  show ?case
  proof (cases "pstate p")
    case RequestLine
    with sum [of t] t 1(1) step assms(1-3) [of p q] show ?thesis by auto
  next
    case Headers
    with sum [of t'] t' 1(2) step assms(4-6) [of p q'] show ?thesis by auto
  next
    case Done
    with step assms(8) [of p] show ?thesis by simp
  qed (rule assms(7))
qed

section \<open>Resuming the CRLF search\<close>

definition feed_buf :: "request_parser \<Rightarrow> bytes \<Rightarrow> request_parser" where
  "feed_buf p bs = p\<lparr>buf := buf p @ bs\<rparr>"

lemma crlf_scan_append_Some:
  "crlf_scan b i = (Some k, j) \<Longrightarrow> crlf_scan (b @ c) i = (Some k, j)"
proof (induction b i rule: crlf_scan.induct)
  case (1 b i)
  then show ?case
    by (subst (asm) (2) crlf_scan.simps, subst crlf_scan.simps) (auto simp: nth_append split: if_splits)
qed

lemma crlf_scan_append_None:
  "crlf_scan b i = (None, j) \<Longrightarrow> i \<le> j \<and> crlf_scan (b @ c) i = crlf_scan (b @ c) j"
proof (induction b i rule: crlf_scan.induct)
  case (1 b i)
  show ?case
  proof (cases "i + 1 < length b")
    case True
    with "1.prems" have no: "\<not> (b ! i = CR \<and> b ! (i + 1) = LF)" and
      rec: "crlf_scan b (i + 1) = (None, j)"
      by (auto simp: crlf_scan.simps [of b i] split: if_splits)
    have "crlf_scan (b @ c) i = crlf_scan (b @ c) (i + 1)"
      using True no by (subst crlf_scan.simps) (auto simp: nth_append)
    with "1.IH" [OF True no rec] show ?thesis by simp
  next
    case False
    with "1.prems" show ?thesis by (simp add: crlf_scan.simps [of b i])
  qed
qed

lemma next_crlf_append_Some:
  "next_crlf p = (q, Some k) \<Longrightarrow> next_crlf (feed_buf p c) = (feed_buf p c, Some k)"
  by (auto simp: next_crlf_def feed_buf_def crlf_scan_append_Some split: prod.splits option.splits)

text \<open>Where the search stopped is a point from which it can be resumed.\<close>

definition rescan :: "request_parser \<Rightarrow> nat \<Rightarrow> bool" where
  "rescan p i \<longleftrightarrow>
     crlf_scan (buf p) (max (scanned p) (line_start p)) = crlf_scan (buf p) (max i (line_start p))"

lemma next_crlf_append_None:
  assumes "next_crlf p = (q, None)"
  shows "\<exists>i. q = p\<lparr>scanned := i\<rparr> \<and> rescan (feed_buf p c) i"
proof -
  obtain i where i: "crlf_scan (buf p) (max (scanned p) (line_start p)) = (None, i)"
    and q: "q = p\<lparr>scanned := i\<rparr>"
    using assms by (auto simp: next_crlf_def split: prod.splits option.splits)
  from crlf_scan_append_None [OF i] have "max i (line_start p) = i" by simp
  with crlf_scan_append_None [OF i, of c] q show ?thesis by (auto simp: rescan_def feed_buf_def)
qed

lemma next_crlf_rescan:
  assumes "rescan p i"
  shows "next_crlf (p\<lparr>scanned := i\<rparr>) =
    (case snd (next_crlf p) of None \<Rightarrow> (fst (next_crlf p), None) | Some k \<Rightarrow> (p\<lparr>scanned := i\<rparr>, Some k))"
  using assms by (auto simp: next_crlf_def rescan_def split: prod.splits option.splits)


lemma end_of_headers_scanned:
  "end_of_headers (p\<lparr>scanned := i\<rparr>) eol =
     (case end_of_headers p eol of (q, t) \<Rightarrow> (q\<lparr>scanned := i\<rparr>, t))"
  by (simp add: end_of_headers_def determine_content_length_def split: option.splits)

lemma header_field_at_scanned:
  "header_field_at (p\<lparr>scanned := i\<rparr>) eol =
     (case header_field_at p eol of (q, t) \<Rightarrow> (if t = Again then q else q\<lparr>scanned := i\<rparr>, t))"
  by (simp add: header_field_at_def Let_def split: option.splits)

lemma end_of_headers_not_Again: "snd (end_of_headers p eol) \<noteq> Again"
  by (auto simp: end_of_headers_def split: prod.splits sum.splits)

lemma header_line_at_scanned:
  "header_line_at (p\<lparr>scanned := i\<rparr>) eol =
     (case header_line_at p eol of (q, t) \<Rightarrow> (if t = Again then q else q\<lparr>scanned := i\<rparr>, t))"
  using end_of_headers_not_Again [of p eol]
  by (auto simp: header_line_at_def header_field_at_scanned end_of_headers_scanned split: prod.splits)

lemma request_line_at_scanned:
  "request_line_at (p\<lparr>scanned := i\<rparr>) eol =
     (case request_line_at p eol of (q, t) \<Rightarrow> (if t = Inr True then q else q\<lparr>scanned := i\<rparr>, t))"
  by (simp add: request_line_at_def split: list.splits option.splits)

lemma header_line_at_feed:
  assumes "line_start p \<le> eol" and "eol + 1 < length (buf p)"
  shows "header_line_at (feed_buf p c) eol =
     (case header_line_at p eol of (q, t) \<Rightarrow> (feed_buf q c, t))"
  using assms
  by (simp add: header_line_defs feed_buf_def subslice_append_left determine_content_length_def Let_def
      split: option.splits)

lemma request_line_at_feed:
  assumes "line_start p \<le> eol" and "eol + 1 < length (buf p)"
  shows "request_line_at (feed_buf p c) eol =
     (case request_line_at p eol of (q, t) \<Rightarrow> (feed_buf q c, t))"
  using assms
  by (simp add: request_line_at_def feed_buf_def subslice_append_left split: list.splits option.splits)


section \<open>Resuming the line parsers\<close>

text \<open>Outcomes of the line parsers that leave the search position where a fresh scan would.\<close>

lemma header_turn_rescan:
  assumes "rescan p i"
  shows "header_turn (p\<lparr>scanned := i\<rparr>) =
     (case header_turn p of (q, t) \<Rightarrow>
        (if t = Again \<or> snd (next_crlf p) = None then q else q\<lparr>scanned := i\<rparr>, t))"
  using next_crlf_rescan [OF assms] next_crlf_SomeD [of p]
  by (auto simp: header_turn_def header_line_at_scanned split: prod.splits option.splits)

lemma parse_request_line_rescan:
  assumes "rescan p i"
  shows "parse_request_line (p\<lparr>scanned := i\<rparr>) =
     (case parse_request_line p of (q, t) \<Rightarrow>
        (if t = Inr True \<or> snd (next_crlf p) = None then q else q\<lparr>scanned := i\<rparr>, t))"
  using next_crlf_rescan [OF assms] next_crlf_SomeD [of p]
  by (auto simp: parse_request_line_def request_line_at_scanned split: prod.splits option.splits)

text \<open>A step that found its line end does the same with more bytes behind it.\<close>

lemma header_turn_feed:
  "snd (next_crlf p) \<noteq> None \<Longrightarrow>
     header_turn (feed_buf p c) = (case header_turn p of (q, t) \<Rightarrow> (feed_buf q c, t))"
proof -
  assume "snd (next_crlf p) \<noteq> None"
  then obtain k where k: "next_crlf p = (p, Some k)"
    using next_crlf_SomeD by (cases "next_crlf p") auto
  show ?thesis
    using next_crlf_SomeD [OF k]
    by (simp add: header_turn_def k next_crlf_append_Some [OF k] header_line_at_feed)
qed

lemma parse_request_line_feed:
  "snd (next_crlf p) \<noteq> None \<Longrightarrow>
     parse_request_line (feed_buf p c) = (case parse_request_line p of (q, t) \<Rightarrow> (feed_buf q c, t))"
proof -
  assume "snd (next_crlf p) \<noteq> None"
  then obtain k where k: "next_crlf p = (p, Some k)"
    using next_crlf_SomeD by (cases "next_crlf p") auto
  show ?thesis
    using next_crlf_SomeD [OF k]
    by (simp add: parse_request_line_def k next_crlf_append_Some [OF k] request_line_at_feed)
qed

lemma header_turn_None:
  assumes "snd (next_crlf p) = None" and "header_turn p = (q, t)"
  shows "q = fst (next_crlf p) \<and> (t = Return (Inr False) \<or> t = Return (Inl HeadersTooLarge))"
  using assms by (cases "next_crlf p") (auto simp: header_turn_def split: if_splits)

lemma request_line_at_not_False: "snd (request_line_at p eol) \<noteq> Inr False"
  by (auto simp: request_line_at_def split: list.splits option.splits)

lemma header_line_at_not_False: "snd (header_line_at p eol) \<noteq> Return (Inr False)"
  by (auto simp: header_line_defs Let_def split: option.splits prod.splits sum.splits)

lemma header_turn_False:
  "header_turn p = (q, Return (Inr False)) \<Longrightarrow> next_crlf p = (q, None)"
  using header_line_at_not_False
  by (auto simp: header_turn_def split: prod.splits option.splits if_splits) (metis snd_conv)

lemma parse_request_line_False:
  "parse_request_line p = (q, Inr False) \<Longrightarrow> next_crlf p = (q, None)"
  using request_line_at_not_False
  by (auto simp: parse_request_line_def split: prod.splits option.splits if_splits) (metis snd_conv)

definition par_eq :: "request_parser \<Rightarrow> request_parser \<Rightarrow> bool" where
  "par_eq p q \<longleftrightarrow> (\<exists>s. q = p\<lparr>scanned := s\<rparr>) \<and> (pstate p = RequestLine \<or> pstate p = Headers \<longrightarrow> q = p)"


lemma parse_headers_feed_False:
  assumes "parse_headers p = (q, Inr False)"
  shows "case parse_headers (feed_buf p c) of (p1, r1) \<Rightarrow> case parse_headers (feed_buf q c) of (q1, r2) \<Rightarrow>
    r1 = r2 \<and> (\<exists>s. q1 = p1\<lparr>scanned := s\<rparr>) \<and> (r1 = Inr False \<longrightarrow> q1 = p1)"
  using assms
proof (induction p rule: parse_headers.induct)
  case (1 p)
  obtain p1 t where turn: "header_turn p = (p1, t)" by (cases "header_turn p")
  show ?case
  proof (cases t)
    case Again
    then have crlf: "snd (next_crlf p) \<noteq> None" using header_turn_None turn by blast
    have "parse_headers (feed_buf p c) = parse_headers (feed_buf p1 c)"
      using header_turn_feed [OF crlf, of c] turn Again by (simp add: parse_headers.simps [of "feed_buf p c"])
    moreover have "parse_headers p1 = (q, Inr False)"
      using "1.prems" turn Again by (simp add: parse_headers.simps [of p])
    ultimately show ?thesis using "1.IH" [OF turn [symmetric] Again] by simp
  next
    case (Return r)
    with "1.prems" turn have t: "t = Return (Inr False)" and q: "q = p1"
      by (simp_all add: parse_headers.simps [of p])
    from turn t have "next_crlf p = (q, None)" using q header_turn_False by blast
    then obtain i where i: "q = p\<lparr>scanned := i\<rparr>" and re: "rescan (feed_buf p c) i"
      using next_crlf_append_None by blast
    have fq: "feed_buf q c = (feed_buf p c)\<lparr>scanned := i\<rparr>" by (simp add: i feed_buf_def)
    obtain p2 t2 where t2: "header_turn (feed_buf p c) = (p2, t2)" by (cases "header_turn (feed_buf p c)")
    have turn_q: "header_turn (feed_buf q c) =
      (if t2 = Again \<or> snd (next_crlf (feed_buf p c)) = None then p2 else p2\<lparr>scanned := i\<rparr>, t2)"
      using header_turn_rescan [OF re] by (simp add: fq t2)
    show ?thesis
    proof (cases t2)
      case Again
      then have "parse_headers (feed_buf q c) = parse_headers (feed_buf p c)"
        by (simp add: parse_headers.simps [of "feed_buf p c"] parse_headers.simps [of "feed_buf q c"] turn_q t2)
      then show ?thesis
        by (cases "parse_headers (feed_buf p c)") (auto intro: exI [of _ "scanned (fst (parse_headers (feed_buf p c)))"])
    next
      case (Return r2)
      have "r2 = Inr False \<Longrightarrow> snd (next_crlf (feed_buf p c)) = None"
        using t2 Return header_turn_False by fastforce
      with Return show ?thesis
        by (auto simp: parse_headers.simps [of "feed_buf p c"] parse_headers.simps [of "feed_buf q c"] turn_q t2
          intro: exI [of _ "scanned p2"])
    qed
  qed
qed


section \<open>Resuming the whole parser\<close>

lemma parse_request_line_feed_True:
  assumes "parse_request_line p = (q, Inr True)"
  shows "parse_request_line (feed_buf p c) = (feed_buf q c, Inr True)"
proof -
  have "snd (next_crlf p) \<noteq> None"
    using assms by (auto simp: parse_request_line_def split: prod.splits option.splits if_splits)
  with assms show ?thesis using parse_request_line_feed [of p c] by simp
qed

lemma parse_headers_feed_True:
  "parse_headers p = (q, Inr True) \<Longrightarrow> parse_headers (feed_buf p c) = (feed_buf q c, Inr True)"
proof (induction p rule: parse_headers.induct)
  case (1 p)
  obtain p1 t where turn: "header_turn p = (p1, t)" by (cases "header_turn p")
  have t: "t = Again \<or> (t = Return (Inr True) \<and> p1 = q)"
    using "1.prems" turn by (cases t) (simp_all add: parse_headers.simps [of p])
  then have crlf: "snd (next_crlf p) \<noteq> None" using header_turn_None turn by blast
  have rec: "t = Again \<Longrightarrow> parse_headers p1 = (q, Inr True)"
    using "1.prems" turn by (simp add: parse_headers.simps [of p])
  show ?case
    using t header_turn_feed [OF crlf, of c] "1.IH" [OF turn [symmetric] _ rec] turn
    by (auto simp: parse_headers.simps [of "feed_buf p c"])
qed

lemma header_turn_pstate:
  "header_turn p = (q, t) \<Longrightarrow> t \<noteq> Return (Inr True) \<Longrightarrow> pstate q = pstate p"
  by (auto simp: header_turn_def header_line_defs determine_content_length_def Let_def
      split: prod.splits option.splits if_splits dest!: next_crlf_SomeD next_crlf_NoneD)

lemma parse_headers_pstate:
  "parse_headers p = (q, r) \<Longrightarrow> r \<noteq> Inr True \<Longrightarrow> pstate q = pstate p"
proof (induction p rule: parse_headers.induct)
  case (1 p)
  then show ?case
    by (subst (asm) (2) parse_headers.simps)
       (auto split: prod.splits header_turn.splits dest: header_turn_pstate)
qed

lemma pstate_feed_buf [simp]: "pstate (feed_buf p c) = pstate p"
  by (simp add: feed_buf_def)

lemma par_eq_refl [simp]: "par_eq p p"
  by (simp add: par_eq_def) (metis request_parser.surjective request_parser.update_convs(4))

lemma par_eq_fail: "par_eq (p\<lparr>pstate := Done\<rparr>) (p\<lparr>pstate := Done, scanned := s\<rparr>)"
  by (auto simp: par_eq_def)

lemma advance_Body_scanned:
  "pstate p = Body \<Longrightarrow> advance (p\<lparr>scanned := s\<rparr>) = (case advance p of (q, st) \<Rightarrow> (q\<lparr>scanned := s\<rparr>, st))"
  by (simp add: advance.simps [of p] advance.simps [of "p\<lparr>scanned := s\<rparr>"] parse_body_def Let_def)

lemma advance_Body_pstate:
  "pstate p = Body \<Longrightarrow> pstate (fst (advance p)) \<in> {Body, Done}"
  by (simp add: advance.simps [of p] parse_body_def Let_def)

definition same_outcome ::
  "request_parser \<times> parse_status \<Rightarrow> request_parser \<times> parse_status \<Rightarrow> bool" where
  "same_outcome a b \<longleftrightarrow> par_eq (fst a) (fst b) \<and> snd a = snd b"

lemma same_outcome_refl [simp]: "same_outcome a a"
  by (simp add: same_outcome_def)

lemma same_outcome_fail: "same_outcome (fail p e) (fail (p\<lparr>scanned := s\<rparr>) e)"
  by (cases p) (auto simp: same_outcome_def fail_def par_eq_def)

lemma same_outcome_Body:
  "pstate p = Body \<Longrightarrow> same_outcome (advance p) (advance (p\<lparr>scanned := s\<rparr>))"
  using advance_Body_pstate [of p]
  by (cases "advance p") (auto simp: same_outcome_def advance_Body_scanned par_eq_def)

lemma advance_feed_request_line:
  assumes st: "pstate p = RequestLine" and prl: "parse_request_line p = (q, Inr False)"
  shows "same_outcome (advance (feed_buf p c)) (advance (feed_buf q c))"
proof -
  obtain i where q: "q = p\<lparr>scanned := i\<rparr>" and re: "rescan (feed_buf p c) i"
    using parse_request_line_False [OF prl] next_crlf_append_None by blast
  have fq: "feed_buf q c = (feed_buf p c)\<lparr>scanned := i\<rparr>" by (simp add: q feed_buf_def)
  obtain p2 t2 where t2: "parse_request_line (feed_buf p c) = (p2, t2)"
    by (cases "parse_request_line (feed_buf p c)")
  have prq: "parse_request_line (feed_buf q c) =
    (if t2 = Inr True \<or> snd (next_crlf (feed_buf p c)) = None then p2 else p2\<lparr>scanned := i\<rparr>, t2)"
    using parse_request_line_rescan [OF re] by (simp add: fq t2)
  have none: "t2 = Inr False \<Longrightarrow> snd (next_crlf (feed_buf p c)) = None"
    using t2 parse_request_line_False by fastforce
  have "pstate (feed_buf q c) = RequestLine" using st q by simp
  then show ?thesis
    using st none same_outcome_fail
    by (auto simp: advance.simps [of "feed_buf p c"] advance.simps [of "feed_buf q c"] t2 prq
        split: sum.splits bool.splits)
qed

lemma advance_feed_headers:
  assumes st: "pstate p = Headers" and ph: "parse_headers p = (q, Inr False)"
  shows "same_outcome (advance (feed_buf p c)) (advance (feed_buf q c))"
proof -
  obtain p2 r where r: "parse_headers (feed_buf p c) = (p2, r)" by (cases "parse_headers (feed_buf p c)")
  obtain s where rq: "parse_headers (feed_buf q c) = (p2\<lparr>scanned := s\<rparr>, r)"
    and eq: "r = Inr False \<Longrightarrow> p2\<lparr>scanned := s\<rparr> = p2"
    using parse_headers_feed_False [OF ph, of c] r by (auto split: prod.splits)
  have "pstate (feed_buf q c) = Headers" using st parse_headers_pstate [OF ph] by simp
  moreover have "r = Inr True \<Longrightarrow> pstate p2 = Body" using r parse_headers_True by blast
  ultimately show ?thesis
    using st eq same_outcome_fail same_outcome_Body [of p2 s]
    by (auto simp: advance.simps [of "feed_buf p c"] advance.simps [of "feed_buf q c"] r rq
        split: sum.splits bool.splits)
qed

lemma advance_feed:
  "advance p = (q, Incomplete) \<Longrightarrow> same_outcome (advance (feed_buf p c)) (advance (feed_buf q c))"
proof (induction p rule: advance_steps)
  case (line p p1)
  then show ?case
    using parse_request_line_feed_True [of p p1 c] by (simp add: advance.simps [of "feed_buf p c"])
next
  case (headers p p1)
  then show ?case
    using parse_headers_feed_True [of p p1 c] by (simp add: advance.simps [of "feed_buf p c"])
next
  case (body p)
  then show ?case by (auto simp: advance.simps [of p] parse_body_def Let_def split: if_splits)
qed (auto simp: fail_def advance_feed_request_line advance_feed_headers)


section \<open>The invariant\<close>

text \<open>What the parsed parts of the current request satisfy.\<close>

definition parts_ok :: "str \<Rightarrow> headers \<Rightarrow> bool" where
  "parts_ok path h \<longleftrightarrow>
     path \<noteq> [] \<and> utf8_valid path \<and> CHR '' '' \<notin> set path \<and> [] \<notin> fst ` set (inner h)"

lemma parts_ok_insert: "parts_ok path h \<Longrightarrow> k \<noteq> [] \<Longrightarrow> parts_ok path (headers_insert h k v)"
  by (auto simp: parts_ok_def)

definition declared_length :: "headers \<Rightarrow> usize option" where
  "declared_length h =
     (case headers_get h ''content-length'' of None \<Rightarrow> Some 0 | Some v \<Rightarrow> parse_usize (trim v))"

fun wf_phase :: "pstate \<Rightarrow> request_parser \<Rightarrow> bool" where
  "wf_phase RequestLine p \<longleftrightarrow>
     line_start p = 0 \<and> scanned p \<le> length (buf p) \<and> header_count p = 0 \<and>
     p_headers p = headers_new"
| "wf_phase Headers p \<longleftrightarrow>
     2 \<le> header_block_start p \<and> header_block_start p \<le> line_start p \<and>
     line_start p \<le> length (buf p) \<and> scanned p \<le> length (buf p) \<and>
     header_block_start p \<le> MAX_REQUEST_LINE + 2 \<and>
     line_start p \<le> header_block_start p + MAX_HEADER_BYTES \<and>
     header_count p = length (inner (p_headers p)) \<and> header_count p \<le> MAX_HEADER_COUNT \<and>
     parts_ok (p_path p) (p_headers p)"
| "wf_phase Body p \<longleftrightarrow>
     4 \<le> body_start p \<and> body_start p \<le> length (buf p) \<and>
     body_start p \<le> MAX_REQUEST_LINE + 2 + MAX_HEADER_BYTES \<and>
     p_content_length p \<le> MAX_BODY_BYTES \<and>
     declared_length (p_headers p) = Some (p_content_length p) \<and>
     length (inner (p_headers p)) \<le> MAX_HEADER_COUNT \<and> parts_ok (p_path p) (p_headers p)"
| "wf_phase Done p \<longleftrightarrow> True"

definition wf_parser :: "request_parser \<Rightarrow> bool" where
  "wf_parser p \<longleftrightarrow> wf_phase (pstate p) p"

lemma wf_parser_new [simp, wf_intros]: "wf_parser parser_new"
  by (simp add: wf_parser_def parser_new_def)

lemma wf_feed_buf [wf_intros]: "wf_parser p \<Longrightarrow> wf_parser (feed_buf p c)"
  by (cases "pstate p") (auto simp: wf_parser_def feed_buf_def)

lemma crlf_scan_stop: "crlf_scan b i = (None, j) \<Longrightarrow> i \<le> length b \<Longrightarrow> j \<le> length b"
proof (induction b i rule: crlf_scan.induct)
  case (1 b i)
  then show ?case by (subst (asm) (2) crlf_scan.simps) (auto split: if_splits)
qed

lemma next_crlf_stop:
  "next_crlf p = (q, None) \<Longrightarrow> scanned p \<le> length (buf p) \<Longrightarrow> line_start p \<le> length (buf p) \<Longrightarrow>
     \<exists>i \<le> length (buf p). q = p\<lparr>scanned := i\<rparr>"
  by (auto simp: next_crlf_def split: prod.splits option.splits dest: crlf_scan_stop)

lemma split_on_three:
  "split_on P xs = [a, b, c] \<Longrightarrow> \<forall>x \<in> set b. \<not> P x"
  using split_on_piece_no_sep [of b P xs] by simp

lemma request_line_at_InrD:
  assumes "request_line_at p eol = (q, Inr b)"
  shows "\<exists>m path v version. b \<and> eol - line_start p \<le> MAX_REQUEST_LINE \<and>
    split_on (\<lambda>b. b = CHR '' '') (subslice (line_start p) eol (buf p)) = [m, path, v] \<and>
    m \<noteq> [] \<and> path \<noteq> [] \<and> utf8_valid path \<and> version_parse v = Some version \<and>
    q = p\<lparr>p_method := method_parse m, p_path := path, p_version := version,
          line_start := eol + 2, scanned := eol + 2, header_block_start := eol + 2,
          pstate := Headers\<rparr>"
  using assms by (auto simp: request_line_at_def split: if_splits list.splits option.splits)

lemma wf_parse_request_line:
  assumes wf: "wf_parser p" and st: "pstate p = RequestLine" and prl: "parse_request_line p = (q, Inr b)"
  shows "wf_parser q"
proof -
  have ph: "wf_phase RequestLine p" using wf st by (simp add: wf_parser_def)
  obtain p' r where n: "next_crlf p = (p', r)" by (cases "next_crlf p")
  show ?thesis
  proof (cases r)
    case None
    with n ph obtain i where "i \<le> length (buf p)" "p' = p\<lparr>scanned := i\<rparr>"
      using next_crlf_stop [of p p'] by auto
    with prl n None ph st show ?thesis
      by (auto simp: parse_request_line_def wf_parser_def split: if_splits)
  next
    case (Some eol)
    with n have "p' = p" and le: "eol + 1 < length (buf p)" by (auto dest: next_crlf_SomeD)
    with prl n Some have "request_line_at p eol = (q, Inr b)" by (simp add: parse_request_line_def)
    from request_line_at_InrD [OF this] obtain m path v version where
      fits: "eol - line_start p \<le> MAX_REQUEST_LINE" and
      sp: "split_on (\<lambda>b. b = CHR '' '') (subslice (line_start p) eol (buf p)) = [m, path, v]" and
      path: "path \<noteq> []" "utf8_valid path" and
      q: "q = p\<lparr>p_method := method_parse m, p_path := path, p_version := version,
          line_start := eol + 2, scanned := eol + 2, header_block_start := eol + 2,
          pstate := Headers\<rparr>"
      by blast
    from split_on_three [OF sp] path ph have "parts_ok path (p_headers p)"
      by (auto simp: parts_ok_def)
    with fits ph q le show ?thesis by (simp add: wf_parser_def)
  qed
qed

lemma wf_end_of_headers:
  assumes "wf_phase Headers p" and "end_of_headers p (line_start p) = (q, t)"
    and "line_start p + 1 < length (buf p)" and "\<And>e. t \<noteq> Return (Inl e)"
    and "line_start p + 2 - header_block_start p \<le> MAX_HEADER_BYTES"
  shows "wf_phase Body q \<and> pstate q = Body"
proof -
  obtain n where n: "declared_length (p_headers p) = Some n" "n \<le> MAX_BODY_BYTES"
    and q: "q = p\<lparr>body_start := line_start p + 2, p_content_length := n, pstate := Body\<rparr>"
    using assms(2,4)
    by (auto simp: end_of_headers_def determine_content_length_def declared_length_def
        split: option.splits if_splits)
  have "line_start p + 2 \<le> MAX_REQUEST_LINE + 2 + MAX_HEADER_BYTES" "4 \<le> line_start p + 2"
    using assms(1,5) by auto
  with n q assms(1,3) show ?thesis by simp
qed

lemma wf_header_field_at:
  assumes "wf_phase Headers p" and "header_field_at p eol = (q, Again)"
    and "line_start p \<le> eol" and "eol + 1 < length (buf p)"
    and "eol + 2 - header_block_start p \<le> MAX_HEADER_BYTES"
  shows "wf_phase Headers q \<and> pstate q = pstate p"
proof -
  obtain k v where kv: "k \<noteq> []" "header_count p + 1 \<le> MAX_HEADER_COUNT"
    and q: "q = p\<lparr>header_count := header_count p + 1, p_headers := headers_insert (p_headers p) k v,
              line_start := eol + 2, scanned := eol + 2\<rparr>"
    using assms(2) by (auto simp: header_field_at_def Let_def split: option.splits if_splits)
  have "eol + 2 \<le> header_block_start p + MAX_HEADER_BYTES" using assms(5) by simp
  with kv q assms(1,3,4) show ?thesis by (simp add: parts_ok_insert)
qed

lemma header_field_at_outcome: "header_field_at p eol = (q, t) \<Longrightarrow> t = Again \<or> (\<exists>e. t = Return (Inl e))"
  by (auto simp: header_field_at_def Let_def split: option.splits if_splits)

lemma wf_header_turn:
  assumes wf: "wf_parser p" and st: "pstate p = Headers" and turn: "header_turn p = (q, t)"
    and ok: "\<And>e. t \<noteq> Return (Inl e)"
  shows "wf_parser q"
proof -
  have ph: "wf_phase Headers p" using wf st by (simp add: wf_parser_def)
  obtain p' r where n: "next_crlf p = (p', r)" by (cases "next_crlf p")
  show ?thesis
  proof (cases r)
    case None
    with n ph obtain i where "i \<le> length (buf p)" "p' = p\<lparr>scanned := i\<rparr>"
      using next_crlf_stop [of p p'] by auto
    with turn n None ph st show ?thesis
      by (auto simp: header_turn_def wf_parser_def split: if_splits)
  next
    case (Some eol)
    with n have "p' = p" and le: "line_start p \<le> eol" "eol + 1 < length (buf p)"
      by (auto dest: next_crlf_SomeD)
    with turn n Some ok have fits: "eol + 2 - header_block_start p \<le> MAX_HEADER_BYTES"
      and h: "(if eol = line_start p then end_of_headers p eol else header_field_at p eol) = (q, t)"
      by (auto simp: header_turn_def header_line_at_def split: if_splits)
    show ?thesis
    proof (cases "eol = line_start p")
      case True
      with wf_end_of_headers [OF ph, of q t] h le fits ok show ?thesis
        by (simp add: wf_parser_def)
    next
      case False
      with h have "header_field_at p eol = (q, t)" by simp
      with header_field_at_outcome [of p eol q t] ok wf_header_field_at [OF ph _ le fits] st
      show ?thesis by (auto simp: wf_parser_def)
    qed
  qed
qed

lemma wf_parse_headers:
  "parse_headers p = (q, Inr b) \<Longrightarrow> wf_parser p \<Longrightarrow> pstate p = Headers \<Longrightarrow> wf_parser q"
proof (induction p rule: parse_headers.induct)
  case (1 p)
  obtain p1 t where turn: "header_turn p = (p1, t)" by (cases "header_turn p")
  show ?case
  proof (cases t)
    case Again
    with turn "1.prems" show ?thesis
      using wf_header_turn [of p p1 t] header_turn_pstate [of p p1 t] "1.IH" [OF turn [symmetric]]
      by (simp add: parse_headers.simps [of p])
  next
    case (Return r)
    with turn "1.prems" show ?thesis
      using wf_header_turn [of p p1 t] by (simp add: parse_headers.simps [of p])
  qed
qed

lemma wf_advance: "wf_parser p \<Longrightarrow> wf_parser (fst (advance p))"
proof (induction p rule: advance_steps)
  case (body p)
  then show ?case by (auto simp: advance.simps [of p] parse_body_def wf_parser_def Let_def)
qed (use wf_parse_request_line wf_parse_headers in \<open>auto simp: fail_def wf_parser_def\<close>)

lemma push_eq: "push p bs = advance (feed_buf p bs)"
  by (simp add: push_def feed_buf_def)

lemma wf_push [wf_intros]: "wf_parser p \<Longrightarrow> wf_parser (fst (push p bs))"
  by (simp add: push_eq wf_advance wf_feed_buf)

section \<open>What each outcome guarantees\<close>

definition request_ok :: "request \<Rightarrow> bool" where
  "request_ok r \<longleftrightarrow>
     parts_ok (rq_path r) (rq_headers r) \<and>
     length (inner (rq_headers r)) \<le> MAX_HEADER_COUNT \<and>
     declared_length (rq_headers r) = Some (length (rq_body r)) \<and>
     length (rq_body r) \<le> MAX_BODY_BYTES"

lemma header_turn_buf: "header_turn p = (q, t) \<Longrightarrow> buf q = buf p"
  by (auto simp: header_turn_def header_line_defs determine_content_length_def Let_def
      split: prod.splits option.splits if_splits dest!: next_crlf_SomeD next_crlf_NoneD)

lemma parse_headers_buf: "parse_headers p = (q, r) \<Longrightarrow> buf q = buf p"
proof (induction p rule: parse_headers.induct)
  case (1 p)
  then show ?case
    by (subst (asm) (2) parse_headers.simps)
       (auto split: prod.splits header_turn.splits dest: header_turn_buf)
qed

lemma request_line_at_buf: "request_line_at p eol = (q, r) \<Longrightarrow> buf q = buf p"
  by (auto simp: request_line_at_def split: if_splits list.splits option.splits)

lemma parse_request_line_buf: "parse_request_line p = (q, r) \<Longrightarrow> buf q = buf p"
  by (auto simp: parse_request_line_def split: prod.splits option.splits if_splits
      dest!: next_crlf_SomeD next_crlf_NoneD dest: request_line_at_buf)

lemma parse_request_line_False_bound:
  "parse_request_line p = (q, Inr False) \<Longrightarrow>
     length (buf q) - line_start q \<le> MAX_REQUEST_LINE \<and> pstate q = pstate p"
  using parse_request_line_False [of p q]
  by (auto simp: parse_request_line_def split: if_splits dest!: next_crlf_NoneD)

lemma parse_headers_False_bound:
  "parse_headers p = (q, Inr False) \<Longrightarrow> length (buf q) - header_block_start q \<le> MAX_HEADER_BYTES"
proof (induction p rule: parse_headers.induct)
  case (1 p)
  obtain p1 t where turn: "header_turn p = (p1, t)" by (cases "header_turn p")
  show ?case
  proof (cases t)
    case Again
    with turn "1" show ?thesis by (simp add: parse_headers.simps [of p])
  next
    case (Return r)
    with turn "1.prems" have "header_turn p = (q, Return (Inr False))"
      by (simp add: parse_headers.simps [of p])
    with header_turn_False [OF this] show ?thesis
      by (auto simp: header_turn_def split: if_splits)
  qed
qed

definition MAX_BUFFERED :: usize where
  "MAX_BUFFERED = MAX_REQUEST_LINE + 2 + MAX_HEADER_BYTES + MAX_BODY_BYTES"

text \<open>One statement per outcome of the driver loop, by induction along its phases.\<close>

definition outcome_ok :: "bytes \<Rightarrow> request_parser \<times> parse_status \<Rightarrow> bool" where
  "outcome_ok b res \<longleftrightarrow>
     (case snd res of
        Incomplete \<Rightarrow> buf (fst res) = b \<and> pstate (fst res) \<noteq> Done \<and> length b \<le> MAX_BUFFERED
      | Complete r n \<Rightarrow>
          4 \<le> n \<and> n \<le> length b \<and> buf (fst res) = drop n b \<and> pstate (fst res) = Done \<and>
          p_headers (fst res) = headers_new \<and> request_ok r \<and>
          rq_body r = drop (n - length (rq_body r)) (take n b)
      | Failed e \<Rightarrow> buf (fst res) = b \<and> pstate (fst res) = Done)"

lemma outcome_ok_body:
  assumes "wf_phase Body p" and "pstate p = Body"
  shows "outcome_ok (buf p) (advance p)"
proof (cases "length (buf p) - body_start p < p_content_length p")
  case True
  with assms have "length (buf p) \<le> MAX_BUFFERED" by (auto simp: MAX_BUFFERED_def)
  with True assms show ?thesis
    by (simp add: advance.simps [of p] parse_body_def outcome_ok_def)
next
  case False
  with assms have le: "body_start p + p_content_length p \<le> length (buf p)" by auto
  then have "length (subslice (body_start p) (body_start p + p_content_length p) (buf p)) =
    p_content_length p" by simp
  with False assms le show ?thesis
    by (simp add: advance.simps [of p] parse_body_def outcome_ok_def request_ok_def Let_def
        subslice_def drop_take add.commute)
qed

lemma advance_outcome:
  "wf_parser p \<Longrightarrow> pstate p \<noteq> Done \<Longrightarrow> outcome_ok (buf p) (advance p)"
proof (induction p rule: advance_steps)
  case (line p q)
  then show ?case
    using wf_parse_request_line [of p q] parse_request_line_buf [of p q] parse_request_line_True [of p q] by simp
next
  case (line_more p q)
  then show ?case
    using wf_parse_request_line [of p q False] parse_request_line_buf [of p q] parse_request_line_False_bound [of p q]
    by (auto simp: outcome_ok_def MAX_BUFFERED_def wf_parser_def)
next
  case (line_bad p q e)
  then show ?case by (simp add: outcome_ok_def fail_def parse_request_line_buf [of p q])
next
  case (headers p q)
  then show ?case
    using wf_parse_headers [of p q] parse_headers_buf [of p q] parse_headers_True [of p q] by simp
next
  case (headers_more p q)
  then have "wf_phase Headers q" and st: "pstate q = Headers"
    using wf_parse_headers [of p q False] parse_headers_pstate [of p q] by (simp_all add: wf_parser_def)
  then have "length (buf q) \<le> MAX_BUFFERED"
    using parse_headers_False_bound [of p q] headers_more by (auto simp: MAX_BUFFERED_def)
  with headers_more st show ?case by (simp add: outcome_ok_def parse_headers_buf [of p q])
next
  case (headers_bad p q e)
  then show ?case by (simp add: outcome_ok_def fail_def parse_headers_buf [of p q])
next
  case (body p)
  with outcome_ok_body show ?case by (simp add: wf_parser_def)
qed simp

lemma push_outcome:
  "wf_parser p \<Longrightarrow> pstate p \<noteq> Done \<Longrightarrow> outcome_ok (buf p @ bs) (push p bs)"
  using advance_outcome [of "feed_buf p bs"] by (simp add: push_eq wf_feed_buf) (simp add: feed_buf_def)

section \<open>A completed request does not depend on the bytes behind it\<close>

lemma advance_feed_Complete:
  "advance p = (q, Complete r n) \<Longrightarrow> wf_parser p \<Longrightarrow>
     advance (feed_buf p c) = (feed_buf q c, Complete r n)"
proof (induction p rule: advance_steps)
  case (line p p1)
  then show ?case
    using wf_parse_request_line [of p p1] parse_request_line_feed_True [of p p1 c]
    by (simp add: advance.simps [of "feed_buf p c"])
next
  case (headers p p1)
  then show ?case
    using wf_parse_headers [of p p1] parse_headers_feed_True [of p p1 c]
    by (simp add: advance.simps [of "feed_buf p c"])
next
  case (body p)
  then have "body_start p + p_content_length p \<le> length (buf p)"
    by (auto simp: advance.simps [of p] parse_body_def wf_parser_def Let_def split: if_splits)
  with body show ?case
    by (auto simp: advance.simps [of p] advance.simps [of "p\<lparr>buf := buf p @ c\<rparr>"]
        parse_body_def feed_buf_def Let_def subslice_append_left split: if_splits)
qed (simp_all add: fail_def)

section \<open>A failed request stays failed, up to one boundary case\<close>

text \<open>
  The one exception: a request line of exactly \<open>MAX_REQUEST_LINE\<close> bytes whose CR is the last
  byte buffered is refused as too long, although with its LF it would have been accepted.
\<close>

definition split_cr_boundary :: "bytes \<Rightarrow> parse_error \<Rightarrow> bool" where
  "split_cr_boundary b e \<longleftrightarrow>
     e = RequestLineTooLong \<and> length b = MAX_REQUEST_LINE + 1 \<and> last b = CR"

lemma crlf_scan_None_stop: "crlf_scan b i = (None, j) \<Longrightarrow> length b \<le> j + 1"
proof (induction b i rule: crlf_scan.induct)
  case (1 b i)
  then show ?case by (subst (asm) (2) crlf_scan.simps) (auto split: if_splits)
qed

lemma next_crlf_None_later:
  assumes "next_crlf p = (q, None)" and "next_crlf (feed_buf p c) = (p', Some k)"
  shows "length (buf p) \<le> k + 1 \<and> (buf p @ c) ! k = CR"
proof -
  obtain i where i: "crlf_scan (buf p) (max (scanned p) (line_start p)) = (None, i)"
    using assms(1) by (auto simp: next_crlf_def split: prod.splits option.splits)
  obtain j where "crlf_scan (buf p @ c) (max (scanned p) (line_start p)) = (Some k, j)"
    using assms(2) by (auto simp: next_crlf_def feed_buf_def split: prod.splits option.splits)
  with crlf_scan_append_None [OF i, of c] have "crlf_scan (buf p @ c) i = (Some k, j)" by simp
  from crlf_scan_SomeD [OF this] crlf_scan_None_stop [OF i] show ?thesis by auto
qed

lemma feed_buf_fields [simp]:
  "buf (feed_buf p c) = buf p @ c" "line_start (feed_buf p c) = line_start p"
  "header_block_start (feed_buf p c) = header_block_start p"
  by (simp_all add: feed_buf_def)

lemma parse_request_line_Failed_feed:
  assumes wf: "wf_phase RequestLine p" and prl: "parse_request_line p = (q, Inl e)"
  shows "snd (parse_request_line (feed_buf p c)) = Inl e \<or> split_cr_boundary (buf p) e"
proof (cases "snd (next_crlf p) = None")
  case False
  with prl parse_request_line_feed [of p c] show ?thesis by simp
next
  case True
  then obtain p' where n: "next_crlf p = (p', None)" by (cases "next_crlf p") auto
  with prl have e: "e = RequestLineTooLong" and long: "MAX_REQUEST_LINE < length (buf p)"
    using wf next_crlf_NoneD [OF n] by (auto simp: parse_request_line_def split: if_splits)
  obtain p2 r where r: "next_crlf (feed_buf p c) = (p2, r)" by (cases "next_crlf (feed_buf p c)")
  show ?thesis
  proof (cases r)
    case None
    with r e long wf show ?thesis
      by (auto simp: parse_request_line_def dest!: next_crlf_NoneD)
  next
    case (Some k)
    with r have p2: "p2 = feed_buf p c" by (auto dest: next_crlf_SomeD)
    have k: "length (buf p) \<le> k + 1" "(buf p @ c) ! k = CR"
      using next_crlf_None_later [OF n] r Some by auto
    show ?thesis
    proof (cases "k > MAX_REQUEST_LINE")
      case True
      with r Some p2 e wf show ?thesis
        by (simp add: parse_request_line_def request_line_at_def)
    next
      case False
      with k long have "k = MAX_REQUEST_LINE" and len: "length (buf p) = MAX_REQUEST_LINE + 1" by auto
      with k have "last (buf p) = CR"
        by (cases "buf p" rule: rev_cases) (auto simp: nth_append)
      with e len show ?thesis by (simp add: split_cr_boundary_def)
    qed
  qed
qed

lemma header_turn_Failed_feed:
  assumes wf: "wf_phase Headers p" and turn: "header_turn p = (q, Return (Inl e))"
  shows "snd (header_turn (feed_buf p c)) = Return (Inl e)"
proof (cases "snd (next_crlf p) = None")
  case False
  with turn header_turn_feed [of p c] show ?thesis by simp
next
  case True
  then obtain p' where n: "next_crlf p = (p', None)" by (cases "next_crlf p") auto
  with turn have e: "e = HeadersTooLarge"
    and long: "MAX_HEADER_BYTES < length (buf p) - header_block_start p"
    using next_crlf_NoneD [OF n] by (auto simp: header_turn_def split: if_splits)
  obtain p2 r where r: "next_crlf (feed_buf p c) = (p2, r)" by (cases "next_crlf (feed_buf p c)")
  show ?thesis
  proof (cases r)
    case None
    with r e long show ?thesis by (auto simp: header_turn_def dest!: next_crlf_NoneD)
  next
    case (Some k)
    with r have p2: "p2 = feed_buf p c" by (auto dest: next_crlf_SomeD)
    have "length (buf p) \<le> k + 1" using next_crlf_None_later [OF n] r Some by auto
    with long have "MAX_HEADER_BYTES < k + 2 - header_block_start p" by simp
    with r Some p2 e show ?thesis by (simp add: header_turn_def header_line_at_def)
  qed
qed

lemma parse_headers_Failed_feed:
  "parse_headers p = (q, Inl e) \<Longrightarrow> wf_parser p \<Longrightarrow> pstate p = Headers \<Longrightarrow>
     snd (parse_headers (feed_buf p c)) = Inl e"
proof (induction p rule: parse_headers.induct)
  case (1 p)
  obtain p1 t where turn: "header_turn p = (p1, t)" by (cases "header_turn p")
  show ?case
  proof (cases t)
    case Again
    then have crlf: "snd (next_crlf p) \<noteq> None" using header_turn_None turn by blast
    with turn Again "1" show ?thesis
      using wf_header_turn [of p p1 t] header_turn_pstate [of p p1 t] header_turn_feed [OF crlf, of c]
      by (simp add: parse_headers.simps [of p] parse_headers.simps [of "feed_buf p c"])
  next
    case (Return r)
    with turn "1.prems" have "snd (header_turn (feed_buf p c)) = Return (Inl e)"
      using header_turn_Failed_feed [of p q e c] by (simp add: parse_headers.simps [of p] wf_parser_def)
    then show ?thesis
      by (cases "header_turn (feed_buf p c)") (simp add: parse_headers.simps [of "feed_buf p c"])
  qed
qed

lemma advance_Failed_feed:
  "advance p = (q, Failed e) \<Longrightarrow> wf_parser p \<Longrightarrow>
     snd (advance (feed_buf p c)) = Failed e \<or> split_cr_boundary (buf p) e"
proof (induction p rule: advance_steps)
  case (line p p1)
  then show ?case
    using wf_parse_request_line [of p p1] parse_request_line_feed_True [of p p1 c] parse_request_line_buf [of p p1]
    by (simp add: advance.simps [of "feed_buf p c"])
next
  case (line_bad p p1 e')
  with parse_request_line_Failed_feed [of p p1 e c] show ?case
    by (cases "parse_request_line (feed_buf p c)")
       (auto simp: advance.simps [of "feed_buf p c"] wf_parser_def fail_def)
next
  case (headers p p1)
  then show ?case
    using wf_parse_headers [of p p1] parse_headers_feed_True [of p p1 c] parse_headers_buf [of p p1]
    by (simp add: advance.simps [of "feed_buf p c"])
next
  case (headers_bad p p1 e')
  with parse_headers_Failed_feed [of p p1 e c] show ?case
    by (cases "parse_headers (feed_buf p c)") (auto simp: advance.simps [of "feed_buf p c"] fail_def)
next
  case (body p)
  then show ?case by (auto simp: advance.simps [of p] parse_body_def Let_def split: if_splits)
qed simp_all

end
