(* ===== verification/Parser_Contract.thy ===== *)
theory Parser_Contract
  imports Request_Correct
begin

text \<open>
  The contract between the request parser and the code that feeds it. A parser in the middle
  of a request has absorbed a byte string; what it answers next is what a new parser would
  answer to that string and the new bytes at once. The locale states the laws and proves from
  them that the way a stream is cut into reads does not change the request it yields; the
  interpretation shows the laws for \<open>RequestParser\<close>.
\<close>

text \<open>Feeding a sequence of reads until one of them is answered with something definite.\<close>

fun feed :: "('p \<Rightarrow> bytes \<Rightarrow> 'p \<times> parse_status) \<Rightarrow> 'p \<Rightarrow> bytes list \<Rightarrow> 'p \<times> parse_status" where
  "feed psh p [] = (p, Incomplete)"
| "feed psh p (c # cs) =
     (case psh p c of (q, Incomplete) \<Rightarrow> feed psh q cs | (q, st) \<Rightarrow> (q, st))"

locale incremental_parser =
  fixes new :: 'p
    and psh :: "'p \<Rightarrow> bytes \<Rightarrow> 'p \<times> parse_status"
    and rst :: "'p \<Rightarrow> 'p"
    and holds :: "'p \<Rightarrow> bytes \<Rightarrow> bool"
    and cut :: "bytes \<Rightarrow> parse_error \<Rightarrow> bool"
  assumes holds_new: "holds new []"
    and push_one_shot: "holds p s \<Longrightarrow> snd (psh p b) = snd (psh new (s @ b))"
    and push_Incomplete: "holds p s \<Longrightarrow> psh p b = (q, Incomplete) \<Longrightarrow> holds q (s @ b)"
    and push_Complete: "holds p s \<Longrightarrow> psh p b = (q, Complete r n) \<Longrightarrow>
          0 < n \<and> n \<le> length (s @ b) \<and> holds (rst q) (drop n (s @ b))"
    and Complete_mono: "snd (psh new s) = Complete r n \<Longrightarrow> snd (psh new (s @ t)) = Complete r n"
    and Failed_mono: "snd (psh new s) = Failed e \<Longrightarrow> \<not> cut s e \<Longrightarrow> snd (psh new (s @ t)) = Failed e"
    and empty_Incomplete: "snd (psh new []) = Incomplete"
begin

lemma feed_Incomplete:
  "holds p s \<Longrightarrow> feed psh p cs = (q, Incomplete) \<Longrightarrow> holds q (s @ concat cs)"
proof (induction cs arbitrary: p s)
  case Nil
  then show ?case by simp
next
  case (Cons c cs)
  then obtain p1 where p1: "psh p c = (p1, Incomplete)" and "feed psh p1 cs = (q, Incomplete)"
    by (auto split: prod.splits parse_status.splits)
  with Cons.IH [OF push_Incomplete [OF Cons.prems(1) p1]] show ?case by simp
qed

text \<open>The answer to a chunked stream is the answer to some prefix of it given at once.\<close>

lemma feed_prefix:
  "holds p s \<Longrightarrow> feed psh p cs = (q, st) \<Longrightarrow> st \<noteq> Incomplete \<Longrightarrow>
     \<exists>u v. concat cs = u @ v \<and> snd (psh new (s @ u)) = st"
proof (induction cs arbitrary: p s)
  case Nil
  then show ?case by simp
next
  case (Cons c cs)
  obtain p1 st1 where p1: "psh p c = (p1, st1)" by (cases "psh p c")
  show ?case
  proof (cases "st1 = Incomplete")
    case True
    with p1 Cons.prems have "feed psh p1 cs = (q, st)" by simp
    with Cons.IH [OF push_Incomplete [OF Cons.prems(1)]] p1 True Cons.prems(3)
    obtain u v where "concat cs = u @ v" "snd (psh new ((s @ c) @ u)) = st" by blast
    then have "concat (c # cs) = (c @ u) @ v \<and> snd (psh new (s @ (c @ u))) = st" by simp
    then show ?thesis by blast
  next
    case False
    with p1 Cons.prems have "st1 = st" by (auto split: parse_status.splits)
    with p1 push_one_shot [OF Cons.prems(1), of c] have "snd (psh new (s @ c)) = st" by simp
    then show ?thesis by (intro exI [of _ c] exI [of _ "concat cs"]) simp
  qed
qed

lemma feed_status:
  assumes "feed psh new cs = (q, st)" and ok: "\<And>e s. st = Failed e \<Longrightarrow> \<not> cut s e"
  shows "snd (psh new (concat cs)) = st"
proof (cases st)
  case Incomplete
  with assms feed_Incomplete [OF holds_new] have "holds q (concat cs)" by simp
  have "\<exists>p1. holds p1 s \<and> snd (psh p1 c) = Incomplete"
    if "feed psh p (ds @ [c]) = (q, Incomplete)" "holds p s0" "s = s0 @ concat ds" for p ds c s s0
    using that
  proof (induction ds arbitrary: p s0)
    case Nil
    then show ?case by (auto split: prod.splits parse_status.splits)
  next
    case (Cons d ds)
    then obtain p1 where p1: "psh p d = (p1, Incomplete)" "feed psh p1 (ds @ [c]) = (q, Incomplete)"
      by (auto split: prod.splits parse_status.splits)
    from Cons.IH [OF p1(2) push_Incomplete [OF Cons.prems(2) p1(1)]] Cons.prems(3) show ?case by simp
  qed
  note last = this
  show ?thesis
  proof (cases cs rule: rev_cases)
    case Nil
    with Incomplete empty_Incomplete show ?thesis by simp
  next
    case (snoc ds c)
    then obtain p1 where "holds p1 (concat ds)" "snd (psh p1 c) = Incomplete"
      using last [of new ds c "[]"] assms(1) Incomplete holds_new by auto
    with push_one_shot [of p1 "concat ds" c] snoc Incomplete show ?thesis by simp
  qed
next
  case (Complete r n)
  with feed_prefix [OF holds_new assms(1)] Complete_mono show ?thesis by fastforce
next
  case (Failed e)
  with feed_prefix [OF holds_new assms(1)] Failed_mono ok show ?thesis by fastforce
qed

end

section \<open>The request parser meets the contract\<close>

definition absorbed :: "request_parser \<Rightarrow> bytes \<Rightarrow> bool" where
  "absorbed p s \<longleftrightarrow>
     wf_parser p \<and> pstate p \<noteq> Done \<and> buf p = s \<and>
     (\<forall>b. same_outcome (push parser_new (s @ b)) (push p b))"

lemma par_eq_trans: "par_eq p q \<Longrightarrow> par_eq q r \<Longrightarrow> par_eq p r"
  by (auto simp: par_eq_def)

lemma same_outcome_trans: "same_outcome a b \<Longrightarrow> same_outcome b c \<Longrightarrow> same_outcome a c"
  unfolding same_outcome_def by (auto intro: par_eq_trans)

lemma feed_buf_append: "feed_buf (feed_buf p a) b = feed_buf p (a @ b)"
  by (simp add: feed_buf_def)

lemma push_push:
  "push p a = (q, Incomplete) \<Longrightarrow> same_outcome (push p (a @ b)) (push q b)"
  using advance_feed [of "feed_buf p a" q b] by (simp add: push_eq feed_buf_append)

lemma absorbed_new: "absorbed parser_new []"
  by (simp add: absorbed_def)

lemma absorbed_push_Incomplete:
  assumes "absorbed p s" and "push p b = (q, Incomplete)"
  shows "absorbed q (s @ b)"
proof -
  have ok: "outcome_ok (s @ b) (q, Incomplete)"
    using push_outcome [of p b] assms by (simp add: absorbed_def)
  have "same_outcome (push parser_new ((s @ b) @ c)) (push q c)" for c
    using same_outcome_trans [OF _ push_push [OF assms(2), of c]] assms(1)
    by (simp add: absorbed_def)
  with ok wf_push [of p b] assms show ?thesis by (simp add: absorbed_def outcome_ok_def)
qed

lemma reset_Complete:
  "pstate q = Done \<Longrightarrow> p_headers q = headers_new \<Longrightarrow> reset q = parser_new\<lparr>buf := buf q\<rparr>"
  by (cases q) (simp add: reset_def parser_new_def)

lemma absorbed_fresh: "absorbed (parser_new\<lparr>buf := s\<rparr>) s"
proof -
  have "push (parser_new\<lparr>buf := s\<rparr>) b = push parser_new (s @ b)" for b
    by (simp add: push_def parser_new_def)
  then show ?thesis by (simp add: absorbed_def wf_parser_def)
qed

lemma absorbed_push_Complete:
  assumes "absorbed p s" and "push p b = (q, Complete r n)"
  shows "0 < n \<and> n \<le> length (s @ b) \<and> absorbed (reset q) (drop n (s @ b)) \<and> request_ok r"
proof -
  have ok: "outcome_ok (s @ b) (q, Complete r n)"
    using push_outcome [of p b] assms by (simp add: absorbed_def)
  then have "reset q = parser_new\<lparr>buf := drop n (s @ b)\<rparr>"
    using reset_Complete [of q] by (simp add: outcome_ok_def)
  with ok absorbed_fresh show ?thesis by (simp add: outcome_ok_def)
qed

lemma push_Complete_extend:
  "snd (push parser_new s) = Complete r n \<Longrightarrow> snd (push parser_new (s @ t)) = Complete r n"
  using advance_feed_Complete [of "feed_buf parser_new s" _ r n t]
  by (cases "push parser_new s") (simp add: push_eq wf_feed_buf feed_buf_append)

lemma push_Failed_extend:
  "snd (push parser_new s) = Failed e \<Longrightarrow> \<not> split_cr_boundary s e \<Longrightarrow>
     snd (push parser_new (s @ t)) = Failed e"
  using advance_Failed_feed [of "feed_buf parser_new s" _ e t]
  by (cases "push parser_new s")
     (auto simp: push_eq wf_feed_buf feed_buf_append)

lemma push_new_Nil: "snd (push parser_new []) = Incomplete"
  by code_simp

interpretation rp: incremental_parser parser_new push reset absorbed split_cr_boundary
proof
  show "absorbed parser_new []" by (rule absorbed_new)
  show "absorbed p s \<Longrightarrow> snd (push p b) = snd (push parser_new (s @ b))" for p s b
    by (auto simp: absorbed_def same_outcome_def)
qed (auto intro: absorbed_push_Incomplete push_new_Nil push_Complete_extend push_Failed_extend
     dest: absorbed_push_Complete simp del: length_append)

end
