(* ===== verification/Conn.thy ===== *)
theory Conn
  imports App Parser_Contract
begin

text \<open>
  The per-connection state machine of \<open>core/src/conn.rs\<close>. It performs no I/O: the code that
  owns the socket feeds the bytes it reads to \<open>on_bytes\<close>, writes what \<open>pending_write\<close> holds
  and reports the number of bytes written to \<open>on_written\<close>. Instants and durations are
  natural numbers of nanoseconds; the reading of the clock is an argument \<open>now\<close>. The count
  given to \<open>on_written\<close> is a number of bytes the kernel took, so the sum with the offset is
  below the usize bound and is a sum of natural numbers here.
\<close>

type_synonym instant = nat
type_synonym duration = nat

section \<open>The state machine\<close>

datatype conn_action = WantRead | WantWrite | Close

datatype cstate = Reading | Writing | Closed

record connection =
  parser :: request_parser
  cstate :: cstate
  write_buf :: bytes
  write_pos :: usize
  close_after_write :: bool
  read_timeout :: duration
  deadline :: instant

definition conn_new :: "instant \<Rightarrow> duration \<Rightarrow> connection" where
  "conn_new now timeout = \<lparr>
     parser = parser_new, cstate = Reading, write_buf = [], write_pos = 0,
     close_after_write = False, read_timeout = timeout, deadline = now + timeout\<rparr>"

definition action_for_state :: "connection \<Rightarrow> conn_action" where
  "action_for_state c =
     (case cstate c of Reading \<Rightarrow> WantRead | Writing \<Rightarrow> WantWrite | Closed \<Rightarrow> Close)"

definition start_writing :: "connection \<Rightarrow> response \<Rightarrow> bool \<Rightarrow> bool \<Rightarrow> connection" where
  "start_writing c r keep_alive include_body =
     c\<lparr>write_buf := encode r keep_alive include_body [], write_pos := 0,
       close_after_write := \<not> keep_alive, cstate := Writing\<rparr>"

definition error_body :: "status_code \<Rightarrow> str" where
  "error_body s = decimal (unat (sc_code s)) @ '' '' @ reason s @ [LF]"

definition handle_status ::
  "'h call \<Rightarrow> 'h app \<Rightarrow> connection \<Rightarrow> parse_status \<Rightarrow> connection \<times> conn_action" where
  "handle_status call a c st =
     (case st of
        Incomplete \<Rightarrow> (c\<lparr>cstate := Reading\<rparr>, WantRead)
      | Complete r n \<Rightarrow>
          (start_writing c (app_handle call a r) (wants_keep_alive r) (rq_method r \<noteq> Head), WantWrite)
      | Failed e \<Rightarrow>
          (start_writing c (response_text (status e) (error_body (status e))) False True, WantWrite))"

definition on_bytes ::
  "'h call \<Rightarrow> 'h app \<Rightarrow> connection \<Rightarrow> bytes \<Rightarrow> connection \<times> conn_action" where
  "on_bytes call a c bs =
     (if cstate c \<noteq> Reading then (c, action_for_state c)
      else (case push (parser c) bs of (p, st) \<Rightarrow> handle_status call a (c\<lparr>parser := p\<rparr>) st))"

lemma on_bytes_code [code]:
  "on_bytes call a c bs =
     (if cstate c \<noteq> Reading then (c, action_for_state c)
      else
        let r = push (parser c) bs in handle_status call a (c\<lparr>parser := fst r\<rparr>) (snd r))"
  by (simp add: on_bytes_def Let_def split: prod.splits)

definition pending_write :: "connection \<Rightarrow> bytes" where
  "pending_write c = (case cstate c of Writing \<Rightarrow> drop (write_pos c) (write_buf c) | _ \<Rightarrow> [])"

definition on_written :: "instant \<Rightarrow> connection \<Rightarrow> usize \<Rightarrow> connection \<times> conn_action" where
  "on_written now c n =
     (if cstate c \<noteq> Writing then (c, action_for_state c)
      else
        let c = c\<lparr>write_pos := write_pos c + n\<rparr> in
        if write_pos c < length (write_buf c) then (c, WantWrite)
        else if close_after_write c then (c\<lparr>cstate := Closed\<rparr>, Close)
        else (c\<lparr>parser := reset (parser c), write_buf := [], write_pos := 0, cstate := Reading,
                deadline := now + read_timeout c\<rparr>, WantRead))"

definition is_expired :: "connection \<Rightarrow> instant \<Rightarrow> bool" where
  "is_expired c now \<longleftrightarrow> now \<ge> deadline c"

section \<open>The response stream a byte stream calls for\<close>

text \<open>
  The abstract specification of a connection: the bytes to send for everything received. It
  takes the requests off the front of the stream one at a time, with a new parser each time,
  and answers each; an error or a request that is not kept alive ends it.
\<close>

definition error_response :: "parse_error \<Rightarrow> bytes" where
  "error_response e = encode (response_text (status e) (error_body (status e))) False True []"

definition request_response :: "(request \<Rightarrow> response) \<Rightarrow> request \<Rightarrow> bytes" where
  "request_response h r = encode (h r) (wants_keep_alive r) (rq_method r \<noteq> Head) []"

lemma push_new_Complete:
  "snd (push parser_new s) = Complete r n \<Longrightarrow> 0 < n \<and> n \<le> length s"
  using rp.push_Complete [OF rp.holds_new, of s _ r n] by (cases "push parser_new s") auto

function wire_spec :: "(request \<Rightarrow> response) \<Rightarrow> bytes \<Rightarrow> bytes" where
  "wire_spec h s =
     (case snd (push parser_new s) of
        Incomplete \<Rightarrow> []
      | Failed e \<Rightarrow> error_response e
      | Complete r n \<Rightarrow>
          request_response h r @ (if wants_keep_alive r then wire_spec h (drop n s) else []))"
  by pat_completeness auto
termination
  by (relation "measure (length \<circ> snd)") (auto dest: push_new_Complete)

declare wire_spec.simps [simp del]

section \<open>Runs of a connection\<close>

text \<open>
  What the owner of the socket may do: feed bytes while the connection is reading, and report
  up to as many bytes as are pending while it is writing. A run records the bytes received
  and the bytes sent. The clock is free at every step.
\<close>

inductive conn_run ::
  "'h call \<Rightarrow> 'h app \<Rightarrow> connection \<Rightarrow> bytes \<Rightarrow> bytes \<Rightarrow> bool" for call a where
  run_new: "conn_run call a (conn_new now timeout) [] []"
| run_read: "conn_run call a c rcvd sent \<Longrightarrow> cstate c = Reading \<Longrightarrow>
     conn_run call a (fst (on_bytes call a c bs)) (rcvd @ bs) sent"
| run_write: "conn_run call a c rcvd sent \<Longrightarrow> cstate c = Writing \<Longrightarrow>
     n \<le> length (pending_write c) \<Longrightarrow>
     conn_run call a (fst (on_written now c n)) rcvd (sent @ take n (pending_write c))"

text \<open>
  The simulation relation. While reading, the parser holds a string \<open>s\<close>, the requests in front
  of it are answered by what was sent, and whatever comes next is answered as it would be
  behind \<open>s\<close> alone. While writing, what was sent and what is pending answer the current
  request too, and \<open>s\<close> is what the parser holds once it is reset.
\<close>

definition answered :: "(request \<Rightarrow> response) \<Rightarrow> bytes \<Rightarrow> bytes \<Rightarrow> bytes \<Rightarrow> bool" where
  "answered h rcvd s out \<longleftrightarrow> (\<forall>t. wire_spec h (rcvd @ t) = out @ wire_spec h (s @ t))"

definition conn_sim :: "(request \<Rightarrow> response) \<Rightarrow> connection \<Rightarrow> bytes \<Rightarrow> bytes \<Rightarrow> bool" where
  "conn_sim h c rcvd sent \<longleftrightarrow>
     (case cstate c of
        Reading \<Rightarrow> \<exists>s. absorbed (parser c) s \<and> answered h rcvd s sent
      | Writing \<Rightarrow> write_pos c < length (write_buf c) \<and>
          (if close_after_write c then wire_spec h rcvd = sent @ pending_write c
           else \<exists>s. absorbed (reset (parser c)) s \<and> answered h rcvd s (sent @ pending_write c))
      | Closed \<Rightarrow> wire_spec h rcvd = sent)"

lemma answered_Nil [simp]: "answered h [] [] []"
  by (simp add: answered_def)

lemma answered_more: "answered h rcvd s out \<Longrightarrow> answered h (rcvd @ b) (s @ b) out"
  by (simp add: answered_def)

lemma answered_now: "answered h rcvd s out \<Longrightarrow> wire_spec h rcvd = out @ wire_spec h s"
  by (auto simp: answered_def dest: spec [of _ "[]"])

lemma answered_Complete:
  assumes "answered h rcvd s out" and c: "snd (push parser_new s) = Complete r n"
    and "wants_keep_alive r"
  shows "answered h rcvd (drop n s) (out @ request_response h r)"
proof -
  have "wire_spec h (s @ t) = request_response h r @ wire_spec h (drop n s @ t)" for t
    using push_Complete_extend [OF c, of t] push_new_Complete [OF c] assms(3)
    by (subst wire_spec.simps) simp
  with assms(1) show ?thesis by (simp add: answered_def)
qed

lemma start_writing_fields [simp]:
  "cstate (start_writing c r ka ib) = Writing"
  "parser (start_writing c r ka ib) = parser c"
  "close_after_write (start_writing c r ka ib) = (\<not> ka)"
  "pending_write (start_writing c r ka ib) = encode r ka ib []"
  "write_buf (start_writing c r ka ib) = encode r ka ib []"
  "write_pos (start_writing c r ka ib) = 0"
  by (simp_all add: start_writing_def pending_write_def)

lemma conn_sim_read:
  assumes "conn_sim (app_handle call a) c rcvd sent" and "cstate c = Reading"
  shows "conn_sim (app_handle call a) (fst (on_bytes call a c bs)) (rcvd @ bs) sent"
proof -
  let ?h = "app_handle call a"
  obtain s where s: "absorbed (parser c) s" "answered ?h rcvd s sent"
    using assms by (auto simp: conn_sim_def)
  then have more: "answered ?h (rcvd @ bs) (s @ bs) sent" by (simp add: answered_more)
  obtain p st where p: "push (parser c) bs = (p, st)" by (cases "push (parser c) bs")
  with rp.push_one_shot [OF s(1), of bs] have one: "snd (push parser_new (s @ bs)) = st" by simp
  show ?thesis
  proof (cases st)
    case Incomplete
    with p s(1) have "absorbed p (s @ bs)" by (auto intro: rp.push_Incomplete)
    with more p Incomplete assms(2) show ?thesis
      by (auto simp: conn_sim_def on_bytes_def handle_status_def)
  next
    case (Complete r n)
    with p s(1) have held: "absorbed (reset p) (drop n (s @ bs))"
      using rp.push_Complete [of "parser c" s bs p r n] by simp
    have "answered ?h (rcvd @ bs) (drop n (s @ bs)) (sent @ request_response ?h r)"
      if "wants_keep_alive r"
      using answered_Complete [OF more _ that] one Complete by simp
    moreover have "wire_spec ?h (rcvd @ bs) = sent @ request_response ?h r" if "\<not> wants_keep_alive r"
      using answered_now [OF more] one Complete that by (simp add: wire_spec.simps [of _ "s @ bs"])
    ultimately show ?thesis using held p Complete assms(2)
      by (auto simp: conn_sim_def on_bytes_def handle_status_def request_response_def encode_not_Nil)
  next
    case (Failed e)
    have "wire_spec ?h (rcvd @ bs) = sent @ error_response e"
      using answered_now [OF more] one Failed by (simp add: wire_spec.simps [of _ "s @ bs"])
    with p Failed assms(2) show ?thesis
      by (simp add: conn_sim_def on_bytes_def handle_status_def error_response_def encode_not_Nil)
  qed
qed

lemma conn_sim_write:
  assumes "conn_sim h c rcvd sent" and "cstate c = Writing" and n: "n \<le> length (pending_write c)"
  shows "conn_sim h (fst (on_written now c n)) rcvd (sent @ take n (pending_write c))"
proof (cases "write_pos c + n < length (write_buf c)")
  case True
  then have "take n (pending_write c) @ drop (write_pos c + n) (write_buf c) = pending_write c"
    using assms(2) by (simp add: pending_write_def add.commute flip: drop_drop)
  with True assms(1,2) show ?thesis
    by (auto simp: conn_sim_def on_written_def Let_def pending_write_def [of "c\<lparr>write_pos := x\<rparr>" for x])
next
  case False
  then have "take n (pending_write c) = pending_write c"
    using assms(2) by (simp add: pending_write_def)
  with False assms(1,2) show ?thesis
    by (auto simp: conn_sim_def on_written_def Let_def)
qed

lemma conn_run_sim: "conn_run call a c rcvd sent \<Longrightarrow> conn_sim (app_handle call a) c rcvd sent"
proof (induction rule: conn_run.induct)
  case (run_new now timeout)
  show ?case using rp.holds_new by (auto simp: conn_sim_def conn_new_def intro: exI [of _ "[]"])
qed (simp_all add: conn_sim_read conn_sim_write)

lemma conn_sim_Writing: "conn_sim h c rcvd sent \<Longrightarrow> cstate c = Writing \<Longrightarrow> pending_write c \<noteq> []"
  by (simp add: conn_sim_def pending_write_def)

lemma pending_write_not_Writing: "cstate c \<noteq> Writing \<Longrightarrow> pending_write c = []"
  by (cases "cstate c") (simp_all add: pending_write_def)

lemma conn_sim_prefix:
  assumes "conn_sim h c rcvd sent"
  shows "prefix (sent @ pending_write c) (wire_spec h rcvd)"
  using assms
  by (cases "cstate c")
     (auto simp: conn_sim_def pending_write_not_Writing split: if_splits dest!: answered_now)

lemma conn_sim_done:
  assumes "conn_sim h c rcvd sent"
    and "cstate c = Closed \<or> cstate c = Reading \<and> snd (push parser_new (buf (parser c))) = Incomplete"
  shows "wire_spec h rcvd = sent"
  using assms
  by (auto simp: conn_sim_def absorbed_def wire_spec.simps [of _ "buf (parser c)"] dest!: answered_now)

section \<open>Properties\<close>

text \<open>A request line and headers for the witnesses, and a server with no routes.\<close>

definition get_root :: bytes where
  "get_root = ''GET / HTTP/1.1'' @ CRLF @ CRLF"

definition empty_app :: "unit app" where
  "empty_app = \<lparr>app_router = router_new, app_assets = asset_cache_default, app_metrics = metrics_new\<rparr>"

definition no_call :: "unit call" where
  "no_call h r a = response_new INTERNAL_ERROR"

text \<open>
  C3: a connection refines its specification: at every point of every run, what was sent and
  what is pending is a prefix of the response stream that the bytes received call for, however
  the reads and the writes were cut: the responses come in order, complete, and none twice.
\<close>

theorem conn_run_refines:
  assumes "conn_run call a c rcvd sent"
  shows "prefix (sent @ pending_write c) (wire_spec (app_handle call a) rcvd)"
  by (rule conn_sim_prefix [OF conn_run_sim [OF assms]])

theorem conn_run_refines_witness:
  "prefix (pending_write (fst (on_bytes no_call empty_app (conn_new 0 5) get_root)))
     (wire_spec (app_handle no_call empty_app) get_root)"
  using conn_run_refines [OF run_read [OF run_new [of no_call empty_app 0 5], of get_root]]
  by (simp add: conn_new_def)

text \<open>
  C4: nothing is missing at rest: when the connection is closed, or waits for bytes with no
  complete request in the parser's buffer, everything the received bytes call for was sent.
\<close>

theorem conn_run_complete:
  assumes "conn_run call a c rcvd sent"
    and "cstate c = Closed \<or> cstate c = Reading \<and> snd (push parser_new (buf (parser c))) = Incomplete"
  shows "sent = wire_spec (app_handle call a) rcvd"
  using conn_sim_done [OF conn_run_sim [OF assms(1)] assms(2)] by simp

definition bad_conn :: connection where
  "bad_conn = fst (on_bytes no_call empty_app (conn_new 0 5) (''nonsense'' @ CRLF))"

theorem conn_run_complete_witness:
  "pending_write bad_conn = wire_spec (app_handle no_call empty_app) (''nonsense'' @ CRLF)"
proof -
  have w: "cstate bad_conn = Writing" and z: "pending_write bad_conn = error_response MalformedRequestLine"
    and cl: "cstate (fst (on_written 1 bad_conn (length (pending_write bad_conn)))) = Closed"
    by code_simp+
  have "conn_run no_call empty_app bad_conn (''nonsense'' @ CRLF) []"
    using run_read [OF run_new [of no_call empty_app 0 5], of "''nonsense'' @ CRLF"]
    by (simp add: bad_conn_def conn_new_def)
  from run_write [OF this w, of "length (pending_write bad_conn)" 1]
  show ?thesis using conn_run_complete [of no_call empty_app _ "''nonsense'' @ CRLF"] cl by force
qed

text \<open>
  The direction a socket owner reads off the connection is right: in every run, bytes are
  pending exactly while the connection is writing, and the write offset is inside the buffer.
\<close>

theorem pending_iff_writing:
  assumes "conn_run call a c rcvd sent"
  shows "(pending_write c \<noteq> [] \<longleftrightarrow> cstate c = Writing) \<and>
    (cstate c = Writing \<longrightarrow> write_pos c < length (write_buf c))"
  using conn_run_sim [OF assms] conn_sim_Writing [OF conn_run_sim [OF assms]] pending_write_not_Writing
  by (auto simp: conn_sim_def)

theorem pending_iff_writing_witness:
  "pending_write (conn_new 0 5) \<noteq> [] \<longleftrightarrow> cstate (conn_new 0 5) = Writing"
  using pending_iff_writing [OF run_new [of no_call empty_app 0 5]] by simp



text \<open>
  C15: a slow client cannot extend its read deadline: no sequence of reads moves it, however
  the bytes trickle in. Only a response that is written to its end on a connection that is
  kept alive does, to one read timeout after that moment.
\<close>

theorem deadline_only_moved_by_full_response:
  "deadline (fold (\<lambda>bs c. fst (on_bytes call a c bs)) bss c) = deadline c \<and>
   deadline (fst (on_written now c n)) =
     (if cstate c = Writing \<and> length (write_buf c) \<le> write_pos c + n \<and> \<not> close_after_write c
      then now + read_timeout c else deadline c)"
proof -
  have "deadline (fst (on_bytes call a c bs)) = deadline c" for c bs
    by (auto simp: on_bytes_def handle_status_def start_writing_def split: prod.splits parse_status.splits)
  then have "deadline (fold (\<lambda>bs c. fst (on_bytes call a c bs)) bss c) = deadline c"
    by (induction bss arbitrary: c) simp_all
  then show ?thesis by (simp add: on_written_def Let_def)
qed

end
