(* ===== verification/Sys.thy ===== *)
theory Sys
  imports Conn
begin

unbundle bit_operations_syntax

text \<open>
  The system layer of \<open>server/src/sys\<close>: the conversion of raw results, the time-out of a wait,
  the epoll and poll flag words, the socket helpers, the connection table, the signal handlers
  and the CPU affinity. The kernel and libc are not part of the repository. Their flag values
  are arguments (records), their answers are arguments too, and a stream is a script of what
  the kernel will answer to each read and write: at most the bytes there is room for, a number
  of bytes at most as large as what was offered, or an error; a script that has run out answers
  \<open>WouldBlock\<close>, as an idle socket does. A stream also records what went over it.
\<close>

type_synonym raw_fd = int

section \<open>Streams\<close>

datatype rd = RdData bytes | RdErr io_error
datatype wr = WrOk nat | WrErr io_error

record tcp_stream =
  s_fd :: raw_fd
  s_in :: "rd list"
  s_out :: "wr list"
  s_rcvd :: bytes
  s_sent :: bytes

definition stream_new :: "raw_fd \<Rightarrow> rd list \<Rightarrow> wr list \<Rightarrow> tcp_stream" where
  "stream_new f rs ws = \<lparr>s_fd = f, s_in = rs, s_out = ws, s_rcvd = [], s_sent = []\<rparr>"

definition stream_read :: "usize \<Rightarrow> tcp_stream \<Rightarrow> tcp_stream \<times> (io_error + bytes)" where
  "stream_read cap s =
     (case s_in s of
        [] \<Rightarrow> (s, Inl WouldBlock)
      | RdErr e # rs \<Rightarrow> (s\<lparr>s_in := rs\<rparr>, Inl e)
      | RdData b # rs \<Rightarrow>
          (s\<lparr>s_in := (if length b \<le> cap then rs else RdData (drop cap b) # rs),
             s_rcvd := s_rcvd s @ take cap b\<rparr>, Inr (take cap b)))"

definition stream_write :: "bytes \<Rightarrow> tcp_stream \<Rightarrow> tcp_stream \<times> (io_error + usize)" where
  "stream_write bs s =
     (case s_out s of
        [] \<Rightarrow> (s, Inl WouldBlock)
      | WrErr e # ws \<Rightarrow> (s\<lparr>s_out := ws\<rparr>, Inl e)
      | WrOk k # ws \<Rightarrow>
          (s\<lparr>s_out := ws, s_sent := s_sent s @ take k bs\<rparr>, Inr (min k (length bs))))"

text \<open>What is left of a stream's script; it drops with every call that does not end a loop.\<close>

fun rd_weight :: "rd \<Rightarrow> nat" where
  "rd_weight (RdData b) = Suc (length b)"
| "rd_weight (RdErr e) = 1"

definition stream_weight :: "tcp_stream \<Rightarrow> nat" where
  "stream_weight s = sum_list (map rd_weight (s_in s)) + length (s_out s)"

lemma stream_read_weight:
  "stream_read cap s = (s', Inr bs) \<Longrightarrow> bs \<noteq> [] \<Longrightarrow> stream_weight s' < stream_weight s"
  by (auto simp: stream_read_def stream_weight_def split: list.splits rd.splits if_splits)

lemma stream_write_weight:
  "stream_write bs s = (s', Inr n) \<Longrightarrow> stream_weight s' < stream_weight s"
  by (auto simp: stream_write_def stream_weight_def split: list.splits wr.splits)

lemma stream_read_cases:
  assumes "stream_read cap s = (s', r)"
  shows "s_fd s' = s_fd s \<and> s_sent s' = s_sent s \<and>
    (case r of Inl e \<Rightarrow> s_rcvd s' = s_rcvd s
     | Inr bs \<Rightarrow> s_rcvd s' = s_rcvd s @ bs \<and> length bs \<le> cap)"
  using assms by (auto simp: stream_read_def split: list.splits rd.splits)

lemma stream_write_cases:
  assumes "stream_write bs s = (s', r)"
  shows "s_fd s' = s_fd s \<and> s_rcvd s' = s_rcvd s \<and>
    (case r of Inl e \<Rightarrow> s_sent s' = s_sent s
     | Inr n \<Rightarrow> s_sent s' = s_sent s @ take n bs \<and> n \<le> length bs)"
  using assms
  by (auto simp: stream_write_def split: list.splits wr.splits) (metis min.cobounded1 min_def take_all)

section \<open>Results and time-outs\<close>

text \<open>\<open>cvt\<close>: the second argument is a raw result, the first the error \<open>errno\<close> stands for.\<close>

definition cvt :: "io_error \<Rightarrow> int \<Rightarrow> io_error + int" where
  "cvt last_os_error t = (if t = -1 then Inl last_os_error else Inr t)"

text \<open>A duration is in nanoseconds; the result is a C int.\<close>

definition timeout_to_millis :: "duration option \<Rightarrow> 32 word" where
  "timeout_to_millis timeout =
     (case timeout of
        None \<Rightarrow> - 1
      | Some d \<Rightarrow>
          let ms = d div 1000000 in
          if ms > 2 ^ 31 - 1 then 2 ^ 31 - 1 else word_of_nat ms)"

section \<open>Readiness\<close>

datatype interest = InterestRead | InterestWrite | InterestReadWrite

datatype trigger = Level | Edge

text \<open>The flag bits of the epoll interface.\<close>

record epoll_abi =
  EPOLLIN :: "32 word"
  EPOLLOUT :: "32 word"
  EPOLLHUP :: "32 word"
  EPOLLERR :: "32 word"
  EPOLLET :: "32 word"

definition events_mask :: "epoll_abi \<Rightarrow> interest \<Rightarrow> trigger \<Rightarrow> 32 word" where
  "events_mask abi i t =
     (let mask = (case i of
                    InterestRead \<Rightarrow> EPOLLIN abi
                  | InterestWrite \<Rightarrow> EPOLLOUT abi
                  | InterestReadWrite \<Rightarrow> EPOLLIN abi OR EPOLLOUT abi) in
      if t = Edge then mask OR EPOLLET abi else mask)"

record event =
  ev_fd :: "32 word"
  ev_readable :: bool
  ev_writable :: bool
  ev_hup :: bool
  ev_error :: bool

text \<open>The user data of a registration, and the event decoded from what \<open>epoll_wait\<close> reports.\<close>

definition user_data :: "32 word \<Rightarrow> 64 word" where
  "user_data f = scast f"

definition decode_event :: "epoll_abi \<Rightarrow> 32 word \<times> 64 word \<Rightarrow> event" where
  "decode_event abi raw = \<lparr>
     ev_fd = ucast (snd raw),
     ev_readable = (fst raw AND EPOLLIN abi \<noteq> 0),
     ev_writable = (fst raw AND EPOLLOUT abi \<noteq> 0),
     ev_hup = (fst raw AND EPOLLHUP abi \<noteq> 0),
     ev_error = (fst raw AND EPOLLERR abi \<noteq> 0)\<rparr>"

text \<open>\<open>wait\<close>: the kernel's answer is an error or the events it filled in.\<close>

definition epoll_wait :: "epoll_abi \<Rightarrow> io_error + (32 word \<times> 64 word) list \<Rightarrow> io_error + event list" where
  "epoll_wait abi answer =
     (case answer of Inl e \<Rightarrow> Inl e | Inr raw \<Rightarrow> Inr (map (decode_event abi) raw))"

record poll_abi =
  POLLIN :: "16 word"
  POLLOUT :: "16 word"
  POLLHUP :: "16 word"
  POLLERR :: "16 word"
  POLLNVAL :: "16 word"

record poll_fd =
  pf_fd :: raw_fd
  pf_events :: "16 word"
  pf_revents :: "16 word"

definition poll_fd_new :: "poll_abi \<Rightarrow> raw_fd \<Rightarrow> interest \<Rightarrow> poll_fd" where
  "poll_fd_new abi f i = \<lparr>
     pf_fd = f,
     pf_events = (case i of
                    InterestRead \<Rightarrow> POLLIN abi
                  | InterestWrite \<Rightarrow> POLLOUT abi
                  | InterestReadWrite \<Rightarrow> POLLIN abi OR POLLOUT abi),
     pf_revents = 0\<rparr>"

definition pf_readable :: "poll_abi \<Rightarrow> poll_fd \<Rightarrow> bool" where
  "pf_readable abi p \<longleftrightarrow> pf_revents p AND POLLIN abi \<noteq> 0"

definition pf_writable :: "poll_abi \<Rightarrow> poll_fd \<Rightarrow> bool" where
  "pf_writable abi p \<longleftrightarrow> pf_revents p AND POLLOUT abi \<noteq> 0"

definition pf_hup :: "poll_abi \<Rightarrow> poll_fd \<Rightarrow> bool" where
  "pf_hup abi p \<longleftrightarrow> pf_revents p AND POLLHUP abi \<noteq> 0"

definition pf_error :: "poll_abi \<Rightarrow> poll_fd \<Rightarrow> bool" where
  "pf_error abi p \<longleftrightarrow> pf_revents p AND (POLLERR abi OR POLLNVAL abi) \<noteq> 0"

section \<open>Sockets\<close>

text \<open>
  \<open>set_nonblocking\<close>: the answers to the two \<open>fcntl\<close> calls are arguments; the value is the flag
  word that was set.
\<close>

definition set_nonblocking ::
  "32 word \<Rightarrow> io_error + 32 word \<Rightarrow> (32 word \<Rightarrow> io_error option) \<Rightarrow> io_error + 32 word" where
  "set_nonblocking o_nonblock getfl setfl =
     (case getfl of
        Inl e \<Rightarrow> Inl e
      | Inr flags \<Rightarrow>
          (case setfl (flags OR o_nonblock) of Some e \<Rightarrow> Inl e | None \<Rightarrow> Inr (flags OR o_nonblock)))"

text \<open>\<open>set_accept_timeout\<close>: the seconds and microseconds of the \<open>timeval\<close>.\<close>

definition accept_timeval :: "duration \<Rightarrow> nat \<times> nat" where
  "accept_timeval d = (d div 1000000000, d mod 1000000000 div 1000)"

text \<open>An address as the kernel stores it: numbers in network byte order, as they lie in memory.\<close>

record sockaddr_storage =
  ss_family :: int
  sin_addr :: bytes
  sin_port :: bytes
  sin6_flowinfo :: nat
  sin6_scope_id :: nat

datatype socket_addr =
    V4 bytes nat
  | V6 bytes nat nat nat

definition from_be :: "bytes \<Rightarrow> nat" where
  "from_be bs = foldl (\<lambda>n b. n * 256 + bval b) 0 bs"

definition sockaddr_to_socketaddr ::
  "int \<Rightarrow> int \<Rightarrow> sockaddr_storage \<Rightarrow> io_error + socket_addr" where
  "sockaddr_to_socketaddr af_inet af_inet6 st =
     (if ss_family st = af_inet then Inr (V4 (sin_addr st) (from_be (sin_port st)))
      else if ss_family st = af_inet6
      then Inr (V6 (sin_addr st) (from_be (sin_port st)) (sin6_flowinfo st) (sin6_scope_id st))
      else Inl UnsupportedKind)"

text \<open>\<open>accept_nonblocking\<close>: the kernel's answer to \<open>accept4\<close> is an argument.\<close>

definition accept_nonblocking ::
  "int \<Rightarrow> int \<Rightarrow> io_error + 's \<times> sockaddr_storage \<Rightarrow> io_error + ('s \<times> socket_addr) option" where
  "accept_nonblocking af_inet af_inet6 answer =
     (case answer of
        Inr (s, st) \<Rightarrow>
          (case sockaddr_to_socketaddr af_inet af_inet6 st of
             Inl e \<Rightarrow> Inl e
           | Inr addr \<Rightarrow> Inr (Some (s, addr)))
      | Inl WouldBlock \<Rightarrow> Inr None
      | Inl e \<Rightarrow> Inl e)"

section \<open>The connection table\<close>

record slot =
  slot_stream :: tcp_stream
  slot_conn :: connection

type_synonym conn_table = "(raw_fd, slot) hashmap"

definition table_new :: conn_table where
  "table_new = hm_empty"

definition table_insert :: "tcp_stream \<Rightarrow> connection \<Rightarrow> conn_table \<Rightarrow> conn_table \<times> raw_fd" where
  "table_insert s c t = (hm_insert (s_fd s) \<lparr>slot_stream = s, slot_conn = c\<rparr> t, s_fd s)"

definition table_get :: "conn_table \<Rightarrow> raw_fd \<Rightarrow> slot option" where
  "table_get t f = hm_get t f"

text \<open>What a holder of \<open>get_mut\<close> leaves behind.\<close>

definition table_put :: "raw_fd \<Rightarrow> slot \<Rightarrow> conn_table \<Rightarrow> conn_table" where
  "table_put f s t = hm_insert f s t"

definition table_remove :: "raw_fd \<Rightarrow> conn_table \<Rightarrow> conn_table" where
  "table_remove f t = hm_remove f t"

definition table_len :: "conn_table \<Rightarrow> usize" where
  "table_len t = hm_len t"

definition table_is_empty :: "conn_table \<Rightarrow> bool" where
  "table_is_empty t \<longleftrightarrow> hm_len t = 0"

definition table_iter :: "conn_table \<Rightarrow> (raw_fd \<times> connection) list" where
  "table_iter t = map (\<lambda>(k, s). (s_fd (slot_stream s), slot_conn s)) (hm_entries t)"

text \<open>Every slot is filed under its own descriptor.\<close>

definition wf_table :: "conn_table \<Rightarrow> bool" where
  "wf_table t \<longleftrightarrow> hm_invar t \<and> (\<forall>f s. table_get t f = Some s \<longrightarrow> s_fd (slot_stream s) = f)"

lemmas table_defs = table_new_def table_insert_def table_get_def table_put_def table_remove_def
  table_len_def table_is_empty_def

lemma wf_table_new [simp, wf_intros]: "wf_table table_new"
  by (simp add: wf_table_def table_defs)

lemma wf_table_insert [simp, wf_intros]: "wf_table t \<Longrightarrow> wf_table (fst (table_insert s c t))"
  by (auto simp: wf_table_def table_defs hm.get_insert)

lemma wf_table_put [wf_intros]:
  "wf_table t \<Longrightarrow> s_fd (slot_stream s) = f \<Longrightarrow> wf_table (table_put f s t)"
  by (auto simp: wf_table_def table_defs hm.get_insert)

lemma wf_table_remove [simp, wf_intros]: "wf_table t \<Longrightarrow> wf_table (table_remove f t)"
  by (auto simp: wf_table_def table_defs hm.get_remove split: if_splits)

lemma table_get_insert:
  "wf_table t \<Longrightarrow> table_get (fst (table_insert s c t)) f =
     (if f = s_fd s then Some \<lparr>slot_stream = s, slot_conn = c\<rparr> else table_get t f)"
  by (simp add: wf_table_def table_defs hm.get_insert)

lemma table_get_put:
  "wf_table t \<Longrightarrow> table_get (table_put f s t) g = (if g = f then Some s else table_get t g)"
  by (simp add: wf_table_def table_defs hm.get_insert)

lemma table_get_remove:
  "wf_table t \<Longrightarrow> table_get (table_remove f t) g = (if g = f then None else table_get t g)"
  by (simp add: wf_table_def table_defs hm.get_remove)

lemmas table_get_simps = table_get_insert table_get_put table_get_remove

lemma table_len_insert_le: "wf_table t \<Longrightarrow> table_len (fst (table_insert s c t)) \<le> Suc (table_len t)"
  by (simp add: wf_table_def table_defs hm.len_insert_le)

lemma table_len_put: "wf_table t \<Longrightarrow> table_get t f = Some s' \<Longrightarrow> table_len (table_put f s t) = table_len t"
  by (simp add: wf_table_def table_defs hm.len_insert_old)

lemma table_len_remove_le: "wf_table t \<Longrightarrow> table_len (table_remove f t) \<le> table_len t"
  by (simp add: wf_table_def table_defs hm.len_remove_le)

lemma table_iter_get:
  "wf_table t \<Longrightarrow> (f, c) \<in> set (table_iter t) \<longleftrightarrow> (\<exists>s. table_get t f = Some s \<and> slot_conn s = c)"
  unfolding wf_table_def table_iter_def table_get_def
  by (auto simp: image_iff Bex_def hm.entries_get)

section \<open>Signals\<close>

text \<open>
  The reaper's loop over the answers of \<open>waitpid\<close>, and the handlers. A counter or flag that was
  never installed is \<open>None\<close>.
\<close>

fun reap_loop :: "int list \<Rightarrow> 64 word \<Rightarrow> 64 word" where
  "reap_loop [] counter = counter"
| "reap_loop (pid # pids) counter = (if pid \<le> 0 then counter else reap_loop pids (counter - 1))"

definition sigchld_handler :: "int list \<Rightarrow> 64 word option \<Rightarrow> 64 word option" where
  "sigchld_handler answers counter =
     (case counter of None \<Rightarrow> None | Some c \<Rightarrow> Some (reap_loop answers c))"

definition shutdown_handler :: "bool option \<Rightarrow> bool option" where
  "shutdown_handler flag = (case flag of None \<Rightarrow> None | Some b \<Rightarrow> Some True)"

section \<open>Affinity\<close>

text \<open>\<open>n\<close> is the answer of \<open>sysconf\<close>.\<close>

definition num_cores :: "int \<Rightarrow> usize" where
  "num_cores n = (if n < 1 then 1 else nat n)"

text \<open>
  \<open>pin_to_core\<close>: \<open>res\<close> is the answer of \<open>sched_setaffinity\<close>. The second component is the core
  the thread was pinned to, if any.
\<close>

definition pin_to_core :: "int \<Rightarrow> int \<Rightarrow> io_error \<Rightarrow> usize \<Rightarrow> (io_error + unit) \<times> usize option" where
  "pin_to_core n res last_os_error core_id =
     (if core_id \<ge> num_cores n then (Inr (), None)
      else if res = -1 then (Inl last_os_error, None) else (Inr (), Some core_id))"

section \<open>Properties\<close>

lemma c_int_max: "sint (2 ^ 31 - 1 :: 32 word) = 2 ^ 31 - 1"
  by simp

lemma sint_of_small_nat: "n < 2 ^ 31 \<Longrightarrow> sint (word_of_nat n :: 32 word) = int n"
  by (simp add: signed_of_nat signed_take_bit_int_eq_self)

text \<open>
  The time-out given to \<open>poll\<close> and \<open>epoll_wait\<close> is what the caller asked for, in whole
  milliseconds: no limit is \<open>-1\<close>, and a duration too long for a C int is the largest one rather
  than a negative number, which would mean no limit.
\<close>

theorem timeout_to_millis_saturates:
  "sint (timeout_to_millis t) =
     (case t of None \<Rightarrow> - 1 | Some d \<Rightarrow> int (min (d div 1000000) (2 ^ 31 - 1)))"
  by (cases t)
     (auto simp: timeout_to_millis_def Let_def min_def sint_of_small_nat simp del: of_nat_numeral)

text \<open>The flag bits of the epoll interface are nonzero and pairwise disjoint.\<close>

definition epoll_abi_ok :: "epoll_abi \<Rightarrow> bool" where
  "epoll_abi_ok abi \<longleftrightarrow>
     0 \<notin> set [EPOLLIN abi, EPOLLOUT abi, EPOLLHUP abi, EPOLLERR abi] \<and>
     (let fs = [EPOLLIN abi, EPOLLOUT abi, EPOLLHUP abi, EPOLLERR abi, EPOLLET abi] in
      list_all (\<lambda>i. list_all (\<lambda>j. i = j \<or> fs ! i AND fs ! j = 0) [0..<5]) [0..<5])"

definition flag_if :: "bool \<Rightarrow> 32 word \<Rightarrow> 32 word" where
  "flag_if b w = (if b then w else 0)"

lemma ucast_user_data: "ucast (user_data f) = f"
  unfolding user_data_def
  by (rule bit_word_eqI) (simp add: bit_simps)

lemma flag_if_simps:
  "flag_if b w AND v = flag_if b (w AND v)" "flag_if b 0 = 0" "flag_if b w \<noteq> 0 \<longleftrightarrow> b \<and> w \<noteq> 0"
  by (simp_all add: flag_if_def)

lemma epoll_abi_okD:
  assumes "epoll_abi_ok abi"
  shows "EPOLLIN abi \<noteq> 0" "EPOLLOUT abi \<noteq> 0" "EPOLLHUP abi \<noteq> 0" "EPOLLERR abi \<noteq> 0"
    "EPOLLIN abi AND EPOLLOUT abi = 0" "EPOLLIN abi AND EPOLLHUP abi = 0"
    "EPOLLIN abi AND EPOLLERR abi = 0" "EPOLLOUT abi AND EPOLLIN abi = 0"
    "EPOLLOUT abi AND EPOLLHUP abi = 0" "EPOLLOUT abi AND EPOLLERR abi = 0"
    "EPOLLHUP abi AND EPOLLIN abi = 0" "EPOLLHUP abi AND EPOLLOUT abi = 0"
    "EPOLLHUP abi AND EPOLLERR abi = 0" "EPOLLERR abi AND EPOLLIN abi = 0"
    "EPOLLERR abi AND EPOLLOUT abi = 0" "EPOLLERR abi AND EPOLLHUP abi = 0"
    "EPOLLET abi AND EPOLLIN abi = 0" "EPOLLET abi AND EPOLLOUT abi = 0"
    "EPOLLET abi AND EPOLLHUP abi = 0" "EPOLLET abi AND EPOLLERR abi = 0"
  using assms by (simp_all add: epoll_abi_ok_def Let_def upt_conv_Cons)

text \<open>
  What \<open>wait\<close> reports is what the kernel said of the descriptor that was registered: the
  descriptor survives the trip through the 64-bit user data, and each condition is reported
  exactly when the kernel set its bit, edge triggering or not.
\<close>

theorem decode_event_exact:
  assumes "epoll_abi_ok abi"
  shows "decode_event abi
      (flag_if r (EPOLLIN abi) OR flag_if w (EPOLLOUT abi) OR flag_if h (EPOLLHUP abi) OR
         flag_if e (EPOLLERR abi) OR flag_if t (EPOLLET abi), user_data f) =
    \<lparr>ev_fd = f, ev_readable = r, ev_writable = w, ev_hup = h, ev_error = e\<rparr>"
  by (simp add: decode_event_def ucast_user_data bit.conj_disj_distrib2 flag_if_simps
      epoll_abi_okD [OF assms])

definition linux_epoll :: epoll_abi where
  "linux_epoll = \<lparr>EPOLLIN = 1, EPOLLOUT = 4, EPOLLHUP = 16, EPOLLERR = 8, EPOLLET = 0x80000000\<rparr>"

theorem decode_event_exact_witness:
  "decode_event linux_epoll
     (flag_if True 1 OR flag_if False 4 OR flag_if True 16 OR flag_if False 8 OR
       flag_if False 0x80000000, user_data 7) =
    \<lparr>ev_fd = 7, ev_readable = True, ev_writable = False, ev_hup = True, ev_error = False\<rparr>"
proof -
  have "epoll_abi_ok linux_epoll"
    by (simp add: epoll_abi_ok_def linux_epoll_def Let_def upt_conv_Cons)
  from decode_event_exact [OF this, of True False True False False 7] show ?thesis
    by (simp add: linux_epoll_def)
qed

end
