(* ===== verification/Event_Io.thy ===== *)
theory Event_Io
  imports Sys
begin

text \<open>
  The two loops that carry every connection: \<open>drive_io\<close> of \<open>server/src/models/event_io.rs\<close>, one
  readiness event on a non-blocking socket, level- or edge-triggered, and \<open>serve_connection\<close> of
  \<open>server/src/models/blocking.rs\<close> with its twin \<open>Iterative::handle_conn\<close>, one connection from
  accept to close on a blocking socket. Both are loops over the scripted stream and terminate
  because a turn that goes on uses the script up.

  The contract both meet is the locale \<open>transport\<close>: whatever they do to a slot is a run of its
  connection with the stream's bytes, so the response stream that leaves the socket refines the
  specification of the connection.
\<close>

section \<open>One turn of the loops\<close>

text \<open>What a turn decides: to return an action, or to go round with the next one.\<close>

datatype io_turn = Yield conn_action | Next conn_action

definition count_error :: "'h app \<Rightarrow> 'h app" where
  "count_error a = a\<lparr>app_metrics := inc_errors (app_metrics a)\<rparr>"

definition read_turn ::
  "'h call \<Rightarrow> usize \<Rightarrow> bool \<Rightarrow> 'h app \<Rightarrow> slot \<Rightarrow> 'h app \<times> slot \<times> io_turn" where
  "read_turn call cap drain a s =
     (case stream_read cap (slot_stream s) of
        (st, Inr []) \<Rightarrow> (a, s\<lparr>slot_stream := st\<rparr>, Yield Close)
      | (st, Inr bs) \<Rightarrow>
          (case on_bytes call a (slot_conn s) bs of
             (c, act) \<Rightarrow>
               (a, s\<lparr>slot_stream := st, slot_conn := c\<rparr>, if drain then Next act else Yield act))
      | (st, Inl WouldBlock) \<Rightarrow> (a, s\<lparr>slot_stream := st\<rparr>, Yield WantRead)
      | (st, Inl e) \<Rightarrow> (count_error a, s\<lparr>slot_stream := st\<rparr>, Yield Close))"

definition write_turn ::
  "instant \<Rightarrow> bool \<Rightarrow> 'h app \<Rightarrow> slot \<Rightarrow> 'h app \<times> slot \<times> io_turn" where
  "write_turn now drain a s =
     (if pending_write (slot_conn s) = [] then (a, s, Yield WantRead)
      else
        (case stream_write (pending_write (slot_conn s)) (slot_stream s) of
           (st, Inr n) \<Rightarrow>
             if n = 0 then (a, s\<lparr>slot_stream := st\<rparr>, Yield Close)
             else
               (case on_written now (slot_conn s) n of
                  (c, act) \<Rightarrow>
                    (a, s\<lparr>slot_stream := st, slot_conn := c\<rparr>,
                     if act = WantWrite \<or> \<not> drain then Yield act else Next act))
         | (st, Inl WouldBlock) \<Rightarrow> (a, s\<lparr>slot_stream := st\<rparr>, Yield WantWrite)
         | (st, Inl e) \<Rightarrow> (count_error a, s\<lparr>slot_stream := st\<rparr>, Yield Close)))"

text \<open>The same with projections, for evaluation.\<close>

lemma read_turn_code [code]:
  "read_turn call cap drain a s =
     (let r = stream_read cap (slot_stream s); s1 = s\<lparr>slot_stream := fst r\<rparr> in
      case snd r of
        Inr bs \<Rightarrow>
          (case bs of
             [] \<Rightarrow> (a, s1, Yield Close)
           | _ # _ \<Rightarrow>
               (let c = on_bytes call a (slot_conn s) bs in
                (a, s1\<lparr>slot_conn := fst c\<rparr>, if drain then Next (snd c) else Yield (snd c))))
      | Inl e \<Rightarrow> (case e of WouldBlock \<Rightarrow> (a, s1, Yield WantRead) | _ \<Rightarrow> (count_error a, s1, Yield Close)))"
  by (auto simp: read_turn_def Let_def split: prod.splits sum.splits list.splits io_error.splits)

lemma write_turn_code [code]:
  "write_turn now drain a s =
     (let p = pending_write (slot_conn s) in
      case p of
        [] \<Rightarrow> (a, s, Yield WantRead)
      | _ # _ \<Rightarrow>
          (let r = stream_write p (slot_stream s); s1 = s\<lparr>slot_stream := fst r\<rparr> in
           case snd r of
             Inr n \<Rightarrow>
               if n = 0 then (a, s1, Yield Close)
               else
                 (let c = on_written now (slot_conn s) n in
                  (a, s1\<lparr>slot_conn := fst c\<rparr>,
                   if snd c = WantWrite \<or> \<not> drain then Yield (snd c) else Next (snd c)))
           | Inl e \<Rightarrow> (case e of WouldBlock \<Rightarrow> (a, s1, Yield WantWrite) | _ \<Rightarrow> (count_error a, s1, Yield Close))))"
  by (auto simp: write_turn_def Let_def split: prod.splits sum.splits list.splits io_error.splits)

definition io_turn ::
  "'h call \<Rightarrow> instant \<Rightarrow> usize \<Rightarrow> bool \<Rightarrow> 'h app \<Rightarrow> slot \<Rightarrow> conn_action \<Rightarrow> 'h app \<times> slot \<times> io_turn" where
  "io_turn call now cap drain a s act =
     (case act of
        WantRead \<Rightarrow> read_turn call cap drain a s
      | WantWrite \<Rightarrow> write_turn now drain a s
      | Close \<Rightarrow> (a, s, Yield Close))"

lemma io_turn_weight:
  "io_turn call now cap drain a s act = (a', s', Next act') \<Longrightarrow>
     stream_weight (slot_stream s') < stream_weight (slot_stream s)"
  by (auto simp: io_turn_def read_turn_def write_turn_def
      split: conn_action.splits prod.splits sum.splits list.splits io_error.splits if_splits
      dest: stream_read_weight stream_write_weight)

text \<open>\<open>drive_io\<close>'s loop from a given action on; a call reads the clock once.\<close>

function drive_loop ::
  "'h call \<Rightarrow> instant \<Rightarrow> usize \<Rightarrow> bool \<Rightarrow> 'h app \<Rightarrow> slot \<Rightarrow> conn_action \<Rightarrow> 'h app \<times> slot \<times> conn_action" where
  "drive_loop call now cap drain a s act =
     (case io_turn call now cap drain a s act of
        (a', s', Yield act') \<Rightarrow> (a', s', act')
      | (a', s', Next act') \<Rightarrow> drive_loop call now cap drain a' s' act')"
  by pat_completeness auto
termination
  by (relation "measure (\<lambda>(call, now, cap, drain, a, s, act). stream_weight (slot_stream s))")
     (auto dest: io_turn_weight [OF sym])

declare drive_loop.simps [simp del]

lemma drive_loop_code [code]:
  "drive_loop call now cap drain a s act =
     (let t = io_turn call now cap drain a s act in
      case snd (snd t) of
        Yield act' \<Rightarrow> (fst t, fst (snd t), act')
      | Next act' \<Rightarrow> drive_loop call now cap drain (fst t) (fst (snd t)) act')"
  by (subst drive_loop.simps) (simp add: Let_def split: prod.splits io_turn.splits)

definition drive_io ::
  "'h call \<Rightarrow> instant \<Rightarrow> usize \<Rightarrow> bool \<Rightarrow> 'h app \<Rightarrow> slot \<Rightarrow> 'h app \<times> slot \<times> conn_action" where
  "drive_io call now cap drain a s =
     drive_loop call now cap drain a s
       (if pending_write (slot_conn s) = [] then WantRead else WantWrite)"

section \<open>The blocking loop\<close>

text \<open>
  The loop of \<open>serve_connection\<close>: any error of a read or write is returned (\<open>Inl\<close>), the end of
  the stream and \<open>Close\<close> end it.
\<close>

function serve_loop ::
  "'h call \<Rightarrow> instant \<Rightarrow> 'h app \<Rightarrow> slot \<Rightarrow> conn_action \<Rightarrow> slot \<times> (io_error + unit)" where
  "serve_loop call now a s act =
     (case act of
        WantRead \<Rightarrow>
          (case stream_read READ_CHUNK (slot_stream s) of
             (st, Inl e) \<Rightarrow> (s\<lparr>slot_stream := st\<rparr>, Inl e)
           | (st, Inr bs) \<Rightarrow>
               if bs = [] then (s\<lparr>slot_stream := st\<rparr>, Inr ())
               else (case on_bytes call a (slot_conn s) bs of
                  (c, act') \<Rightarrow> serve_loop call now a (s\<lparr>slot_stream := st, slot_conn := c\<rparr>) act'))
      | WantWrite \<Rightarrow>
          (case stream_write (pending_write (slot_conn s)) (slot_stream s) of
             (st, Inl e) \<Rightarrow> (s\<lparr>slot_stream := st\<rparr>, Inl e)
           | (st, Inr n) \<Rightarrow>
               (case on_written now (slot_conn s) n of
                  (c, act') \<Rightarrow> serve_loop call now a (s\<lparr>slot_stream := st, slot_conn := c\<rparr>) act'))
      | Close \<Rightarrow> (s, Inr ()))"
  by pat_completeness auto
termination
  by (relation "measure (\<lambda>(call, now, a, s, act). stream_weight (slot_stream s))")
     (auto dest!: stream_read_weight [OF sym] stream_write_weight [OF sym] simp del: One_nat_def)

declare serve_loop.simps [simp del]

text \<open>
  \<open>serve_connection\<close>: the answers to the two \<open>setsockopt\<close> calls for the time-outs are arguments.
  \<open>now\<close> is the clock when the connection starts.
\<close>

definition serve_connection ::
  "'h call \<Rightarrow> io_error option \<Rightarrow> io_error option \<Rightarrow> instant \<Rightarrow> duration \<Rightarrow> 'h app \<Rightarrow> tcp_stream \<Rightarrow>
     slot \<times> (io_error + unit)" where
  "serve_connection call set_read set_write now timeout a st =
     (let s = \<lparr>slot_stream = st, slot_conn = conn_new now timeout\<rparr> in
      case set_read of
        Some e \<Rightarrow> (s, Inl e)
      | None \<Rightarrow> (case set_write of Some e \<Rightarrow> (s, Inl e) | None \<Rightarrow> serve_loop call now a s WantRead))"

text \<open>\<open>Iterative::handle_conn\<close> repeats the body of \<open>serve_connection\<close>.\<close>

definition handle_conn ::
  "'h call \<Rightarrow> io_error option \<Rightarrow> io_error option \<Rightarrow> instant \<Rightarrow> duration \<Rightarrow> 'h app \<Rightarrow> tcp_stream \<Rightarrow>
     slot \<times> (io_error + unit)" where
  "handle_conn call set_read set_write now timeout a st =
     (let s = \<lparr>slot_stream = st, slot_conn = conn_new now timeout\<rparr> in
      case set_read of
        Some e \<Rightarrow> (s, Inl e)
      | None \<Rightarrow> (case set_write of Some e \<Rightarrow> (s, Inl e) | None \<Rightarrow> serve_loop call now a s WantRead))"

section \<open>The contract of a transport\<close>

text \<open>A slot whose stream and connection tell the same story.\<close>

definition linked :: "'h call \<Rightarrow> 'h app \<Rightarrow> slot \<Rightarrow> bool" where
  "linked call a s \<longleftrightarrow>
     conn_run call a (slot_conn s) (s_rcvd (slot_stream s)) (s_sent (slot_stream s))"

lemma linked_new: "s_rcvd st = [] \<Longrightarrow> s_sent st = [] \<Longrightarrow>
    linked call a \<lparr>slot_stream = st, slot_conn = conn_new now timeout\<rparr>"
  by (simp add: linked_def run_new)

lemma linked_sim:
  "linked call a s \<Longrightarrow>
     conn_sim (app_handle call a) (slot_conn s) (s_rcvd (slot_stream s)) (s_sent (slot_stream s))"
  by (simp add: linked_def conn_run_sim)

lemmas linked_prefix = conn_sim_prefix [OF linked_sim]
lemmas linked_done = conn_sim_done [OF linked_sim]
lemmas linked_Writing = conn_sim_Writing [OF linked_sim]

text \<open>Between two events the kernel has more to deliver and to take.\<close>

definition refill :: "rd list \<times> wr list \<Rightarrow> slot \<Rightarrow> slot" where
  "refill k s = s\<lparr>slot_stream := slot_stream s\<lparr>s_in := s_in (slot_stream s) @ fst k,
     s_out := s_out (slot_stream s) @ snd k\<rparr>\<rparr>"

lemma refill_simps [simp]:
  "slot_conn (refill k s) = slot_conn s" "linked call a (refill k s) = linked call a s"
  by (simp_all add: refill_def linked_def)

text \<open>A connection over any number of events, until the transport says to close it.\<close>

fun rounds :: "(slot \<Rightarrow> slot \<times> conn_action) \<Rightarrow> (rd list \<times> wr list) list \<Rightarrow> slot \<Rightarrow> slot \<times> conn_action" where
  "rounds step [] s = (s, action_for_state (slot_conn s))"
| "rounds step (k # ks) s =
     (case step (refill k s) of
        (s', Close) \<Rightarrow> (s', Close)
      | (s', act) \<Rightarrow> rounds step ks s')"

lemma rounds_code [code]:
  "rounds step [] s = (s, action_for_state (slot_conn s))"
  "rounds step (k # ks) s =
     (let r = step (refill k s) in
      if snd r = Close then r else rounds step ks (fst r))"
  by (auto simp: Let_def split: prod.splits conn_action.splits)

locale transport =
  fixes call :: "'h call" and a :: "'h app" and step :: "slot \<Rightarrow> slot \<times> conn_action"
  assumes step_linked: "linked call a s \<Longrightarrow> cstate (slot_conn s) \<noteq> Closed \<Longrightarrow> step s = (s', act) \<Longrightarrow>
      linked call a s' \<and> (act \<noteq> Close \<longrightarrow> act = action_for_state (slot_conn s'))"
begin

lemma step_open:
  "linked call a s \<Longrightarrow> cstate (slot_conn s) \<noteq> Closed \<Longrightarrow> step s = (s', act) \<Longrightarrow> act \<noteq> Close \<Longrightarrow>
     cstate (slot_conn s') \<noteq> Closed"
  using step_linked [of s s' act] by (auto simp: action_for_state_def)

lemma rounds_linked:
  "linked call a s \<Longrightarrow> cstate (slot_conn s) \<noteq> Closed \<Longrightarrow> rounds step ks s = (s', act) \<Longrightarrow>
     linked call a s' \<and> (act \<noteq> Close \<longrightarrow> act = action_for_state (slot_conn s'))"
proof (induction ks arbitrary: s)
  case Nil
  then show ?case by auto
next
  case (Cons k ks)
  obtain s1 act1 where s1: "step (refill k s) = (s1, act1)" by (cases "step (refill k s)")
  have l1: "linked call a s1 \<and> (act1 \<noteq> Close \<longrightarrow> act1 = action_for_state (slot_conn s1))"
    and o1: "act1 \<noteq> Close \<Longrightarrow> cstate (slot_conn s1) \<noteq> Closed"
    using step_linked [OF _ _ s1] step_open [OF _ _ s1] Cons.prems(1,2) by auto
  show ?case
  proof (cases "act1 = Close")
    case True
    with Cons.prems(3) s1 l1 show ?thesis by auto
  next
    case False
    with Cons.prems(3) s1 have "rounds step ks s1 = (s', act)" by (cases act1) auto
    with Cons.IH l1 o1 False show ?thesis by blast
  qed
qed

text \<open>The stream of a connection, over any number of events, refines its specification.\<close>

lemma rounds_refine:
  assumes "linked call a s" and "cstate (slot_conn s) \<noteq> Closed" and "rounds step ks s = (s', act)"
  shows "prefix (s_sent (slot_stream s') @ pending_write (slot_conn s'))
      (wire_spec (app_handle call a) (s_rcvd (slot_stream s')))"
  using rounds_linked [OF assms] by (simp add: linked_prefix)

lemma rounds_complete:
  assumes "linked call a s" and "cstate (slot_conn s) \<noteq> Closed" and "rounds step ks s = (s', act)"
    and "cstate (slot_conn s') = Closed \<or>
      act = WantRead \<and> snd (push parser_new (buf (parser (slot_conn s')))) = Incomplete"
  shows "wire_spec (app_handle call a) (s_rcvd (slot_stream s')) = s_sent (slot_stream s')"
proof -
  have l: "linked call a s'" and act: "act \<noteq> Close \<Longrightarrow> act = action_for_state (slot_conn s')"
    using rounds_linked [OF assms(1-3)] by auto
  have "cstate (slot_conn s') = Reading" if "act = WantRead"
    using act that by (simp add: action_for_state_def split: cstate.splits)
  with assms(4) show ?thesis using linked_done [OF l] by blast
qed

end

section \<open>The loops meet the contract\<close>

lemma on_bytes_action:
  "on_bytes call a c bs = (c', act) \<Longrightarrow> act = action_for_state c'"
  by (auto simp: on_bytes_def handle_status_def action_for_state_def
      split: prod.splits parse_status.splits if_splits)

lemma on_written_action:
  "on_written now c n = (c', act) \<Longrightarrow> act = action_for_state c'"
  by (auto simp: on_written_def Let_def action_for_state_def split: if_splits)

lemma linked_read:
  assumes "linked call a s" and "cstate (slot_conn s) = Reading"
    and "stream_read cap (slot_stream s) = (st, Inr bs)" and "on_bytes call a (slot_conn s) bs = (c, act)"
  shows "linked call a (s\<lparr>slot_stream := st, slot_conn := c\<rparr>)"
  using run_read [of call a "slot_conn s" _ _ bs] assms stream_read_cases [OF assms(3)]
  by (auto simp: linked_def)

lemma linked_write:
  assumes "linked call a s" and "cstate (slot_conn s) = Writing"
    and "stream_write (pending_write (slot_conn s)) (slot_stream s) = (st, Inr n)"
    and "on_written now (slot_conn s) n = (c, act)"
  shows "linked call a (s\<lparr>slot_stream := st, slot_conn := c\<rparr>)"
  using run_write [of call a "slot_conn s" _ _ n now] assms stream_write_cases [OF assms(3)]
  by (auto simp: linked_def)

lemma linked_stop:
  assumes "linked call a s"
  shows "stream_read cap (slot_stream s) = (st, Inl e) \<Longrightarrow> linked call a (s\<lparr>slot_stream := st\<rparr>)"
    and "stream_read cap (slot_stream s) = (st, Inr []) \<Longrightarrow> linked call a (s\<lparr>slot_stream := st\<rparr>)"
    and "stream_write bs (slot_stream s) = (st, Inl e) \<Longrightarrow> linked call a (s\<lparr>slot_stream := st\<rparr>)"
    and "stream_write bs (slot_stream s) = (st, Inr 0) \<Longrightarrow> linked call a (s\<lparr>slot_stream := st\<rparr>)"
  using assms by (auto simp: linked_def dest!: stream_read_cases stream_write_cases)

definition app_same :: "'h app \<Rightarrow> 'h app \<Rightarrow> bool" where
  "app_same a b \<longleftrightarrow> app_router a = app_router b \<and> app_assets a = app_assets b"

lemma app_same_simps [simp]: "app_same a a" "app_same a (count_error a)"
  by (simp_all add: app_same_def count_error_def)

lemma read_turn_linked:
  assumes "linked call a s" and "cstate (slot_conn s) = Reading"
    and "read_turn call cap drain a s = (a', s', t)"
  shows "linked call a s' \<and> app_same a a' \<and> s_fd (slot_stream s') = s_fd (slot_stream s) \<and>
    (\<forall>act. t = Next act \<or> t = Yield act \<and> act \<noteq> Close \<longrightarrow> act = action_for_state (slot_conn s')) \<and>
    (\<forall>act. t = Next act \<longrightarrow> a' = a)"
proof -
  obtain st r where r: "stream_read cap (slot_stream s) = (st, r)"
    by (cases "stream_read cap (slot_stream s)")
  have f: "s_fd st = s_fd (slot_stream s)" using stream_read_cases [OF r] by simp
  show ?thesis
  proof (cases r)
    case (Inl e)
    then show ?thesis
      using assms r f linked_stop(1) [OF assms(1), of cap st e]
      by (cases e) (auto simp: read_turn_def action_for_state_def)
  next
    case (Inr bs)
    show ?thesis
    proof (cases bs)
      case Nil
      then show ?thesis using assms r f Inr linked_stop(2) [OF assms(1), of cap st] by (auto simp: read_turn_def)
    next
      case (Cons b bs')
      obtain c act where c: "on_bytes call a (slot_conn s) bs = (c, act)"
        by (cases "on_bytes call a (slot_conn s) bs")
      with assms r f Inr Cons linked_read [OF assms(1,2) r [unfolded Inr] c] on_bytes_action [OF c]
      show ?thesis by (auto simp: read_turn_def split: if_splits)
    qed
  qed
qed

lemma write_turn_linked:
  assumes "linked call a s" and "cstate (slot_conn s) = Writing"
    and "write_turn now drain a s = (a', s', t)"
  shows "linked call a s' \<and> app_same a a' \<and> s_fd (slot_stream s') = s_fd (slot_stream s) \<and>
    (\<forall>act. t = Next act \<or> t = Yield act \<and> act \<noteq> Close \<longrightarrow> act = action_for_state (slot_conn s')) \<and>
    (\<forall>act. t = Next act \<longrightarrow> a' = a)"
proof -
  let ?p = "pending_write (slot_conn s)"
  have ne: "?p \<noteq> []" using linked_Writing [OF assms(1,2)] .
  obtain st r where r: "stream_write ?p (slot_stream s) = (st, r)"
    by (cases "stream_write ?p (slot_stream s)")
  have f: "s_fd st = s_fd (slot_stream s)" using stream_write_cases [OF r] by simp
  show ?thesis
  proof (cases r)
    case (Inl e)
    then show ?thesis
      using assms r f ne linked_stop(3) [OF assms(1), of ?p st e]
      by (cases e) (auto simp: write_turn_def action_for_state_def)
  next
    case (Inr n)
    obtain c act where c: "on_written now (slot_conn s) n = (c, act)"
      by (cases "on_written now (slot_conn s) n")
    from linked_write [OF assms(1,2) r [unfolded Inr] c] linked_stop(4) [OF assms(1), of ?p st]
      on_written_action [OF c] c assms r f ne Inr
    show ?thesis by (auto simp: write_turn_def split: if_splits)
  qed
qed

lemma io_turn_linked:
  assumes "linked call a s" and "act = action_for_state (slot_conn s)"
    and "io_turn call now cap drain a s act = (a', s', t)"
  shows "linked call a s' \<and> app_same a a' \<and> s_fd (slot_stream s') = s_fd (slot_stream s) \<and>
    (\<forall>act. t = Next act \<or> t = Yield act \<and> act \<noteq> Close \<longrightarrow> act = action_for_state (slot_conn s')) \<and>
    (\<forall>act. t = Next act \<longrightarrow> a' = a)"
  using assms read_turn_linked [OF assms(1)] write_turn_linked [OF assms(1)]
  by (cases "cstate (slot_conn s)") (auto simp: io_turn_def action_for_state_def)

lemma drive_loop_linked:
  assumes "linked call a s" and "act = action_for_state (slot_conn s)"
    and "drive_loop call now cap drain a s act = (a', s', act')"
  shows "linked call a s' \<and> app_same a a' \<and> s_fd (slot_stream s') = s_fd (slot_stream s) \<and>
    (act' \<noteq> Close \<longrightarrow> act' = action_for_state (slot_conn s'))"
  using assms
proof (induction call now cap drain a s act rule: drive_loop.induct)
  case (1 call now cap drain a s act)
  obtain a1 s1 t where t: "io_turn call now cap drain a s act = (a1, s1, t)"
    by (cases "io_turn call now cap drain a s act")
  note l = io_turn_linked [OF "1.prems"(1,2) t]
  show ?case
  proof (cases t)
    case (Yield act1)
    with "1.prems"(3) t have "a' = a1" "s' = s1" "act' = act1"
      by (simp_all add: drive_loop.simps [of call now cap drain a s act])
    with l Yield show ?thesis by auto
  next
    case (Next act1)
    then have n: "a1 = a" "act1 = action_for_state (slot_conn s1)" using l by auto
    from "1.prems"(3) t Next n(1) have d: "drive_loop call now cap drain a s1 act1 = (a', s', act')"
      by (simp add: drive_loop.simps [of call now cap drain a s act])
    from "1.IH" [OF t [symmetric] refl Next] d n l show ?thesis by auto
  qed
qed

lemma drive_io_linked:
  assumes "linked call a s" and "cstate (slot_conn s) \<noteq> Closed"
    and "drive_io call now cap drain a s = (a', s', act)"
  shows "linked call a s' \<and> app_same a a' \<and> s_fd (slot_stream s') = s_fd (slot_stream s) \<and>
    (act \<noteq> Close \<longrightarrow> act = action_for_state (slot_conn s'))"
proof -
  have "(if pending_write (slot_conn s) = [] then WantRead else WantWrite) = action_for_state (slot_conn s)"
    using assms(1,2) linked_Writing [OF assms(1)] pending_write_not_Writing [of "slot_conn s"]
    by (cases "cstate (slot_conn s)") (auto simp: action_for_state_def)
  with drive_loop_linked [OF assms(1) _ assms(3) [unfolded drive_io_def]] show ?thesis by simp
qed

text \<open>The two trigger disciplines, and the blocking loop from a fresh connection on.\<close>

interpretation lt: transport call a "\<lambda>s. snd (drive_io call now cap False a s)" for call a now cap
proof
  show "linked call a s' \<and> (act \<noteq> Close \<longrightarrow> act = action_for_state (slot_conn s'))"
    if "linked call a s" "cstate (slot_conn s) \<noteq> Closed" "snd (drive_io call now cap False a s) = (s', act)"
    for s s' act
    using drive_io_linked [OF that(1,2), of now cap False "fst (drive_io call now cap False a s)" s' act] that(3)
    by (metis prod.collapse)
qed

interpretation et: transport call a "\<lambda>s. snd (drive_io call now cap True a s)" for call a now cap
proof
  show "linked call a s' \<and> (act \<noteq> Close \<longrightarrow> act = action_for_state (slot_conn s'))"
    if "linked call a s" "cstate (slot_conn s) \<noteq> Closed" "snd (drive_io call now cap True a s) = (s', act)"
    for s s' act
    using drive_io_linked [OF that(1,2), of now cap True "fst (drive_io call now cap True a s)" s' act] that(3)
    by (metis prod.collapse)
qed

lemma serve_loop_linked:
  assumes "linked call a s" and "act = action_for_state (slot_conn s)"
    and "serve_loop call now a s act = (s', r)"
  shows "linked call a s'"
  using assms
proof (induction call now a s act rule: serve_loop.induct)
  case (1 call now a s act)
  show ?case
  proof (cases act)
    case WantRead
    then have st: "cstate (slot_conn s) = Reading"
      using "1.prems"(2) by (simp add: action_for_state_def split: cstate.splits)
    obtain st1 x where x: "stream_read READ_CHUNK (slot_stream s) = (st1, x)"
      by (cases "stream_read READ_CHUNK (slot_stream s)")
    show ?thesis
    proof (cases "\<exists>bs. x = Inr bs \<and> bs \<noteq> []")
      case True
      then obtain bs where bs: "x = Inr bs" "bs \<noteq> []" by blast
      obtain c act1 where c: "on_bytes call a (slot_conn s) bs = (c, act1)"
        by (cases "on_bytes call a (slot_conn s) bs")
      have "serve_loop call now a (s\<lparr>slot_stream := st1, slot_conn := c\<rparr>) act1 = (s', r)"
        using "1.prems"(3) WantRead x bs c by (simp add: serve_loop.simps [of call now a s WantRead])
      with "1.IH"(1) [OF WantRead x [symmetric] bs(1) bs(2) c [symmetric]]
      show ?thesis using linked_read [OF "1.prems"(1) st x [unfolded bs(1)] c] on_bytes_action [OF c] by simp
    next
      case False
      with "1.prems"(3) WantRead x have "s' = s\<lparr>slot_stream := st1\<rparr>"
        by (auto simp: serve_loop.simps [of call now a s WantRead] split: sum.splits)
      with False x linked_stop(1,2) [OF "1.prems"(1)] show ?thesis by (cases x) auto
    qed
  next
    case WantWrite
    then have st: "cstate (slot_conn s) = Writing"
      using "1.prems"(2) by (simp add: action_for_state_def split: cstate.splits)
    obtain st1 x where x: "stream_write (pending_write (slot_conn s)) (slot_stream s) = (st1, x)"
      by (cases "stream_write (pending_write (slot_conn s)) (slot_stream s)")
    show ?thesis
    proof (cases x)
      case (Inr n)
      obtain c act1 where c: "on_written now (slot_conn s) n = (c, act1)"
        by (cases "on_written now (slot_conn s) n")
      have "serve_loop call now a (s\<lparr>slot_stream := st1, slot_conn := c\<rparr>) act1 = (s', r)"
        using "1.prems"(3) WantWrite x Inr c by (simp add: serve_loop.simps [of call now a s WantWrite])
      with "1.IH"(2) [OF WantWrite x [symmetric] Inr c [symmetric]]
      show ?thesis using linked_write [OF "1.prems"(1) st x [unfolded Inr] c] on_written_action [OF c] by simp
    next
      case (Inl e)
      with "1.prems"(3) WantWrite x have "s' = s\<lparr>slot_stream := st1\<rparr>"
        by (simp add: serve_loop.simps [of call now a s WantWrite])
      with Inl x linked_stop(3) [OF "1.prems"(1)] show ?thesis by auto
    qed
  next
    case Close
    with "1.prems" show ?thesis by (simp add: serve_loop.simps [of call now a s Close])
  qed
qed

section \<open>Draining\<close>

lemma io_turn_WantRead_drained:
  assumes "linked call a s" and "act = action_for_state (slot_conn s)"
    and "io_turn call now cap True a s act = (a', s', Yield WantRead)"
    and "RdErr WouldBlock \<notin> set (s_in (slot_stream s))"
  shows "s_in (slot_stream s') = []"
  using assms linked_Writing [OF assms(1)]
  by (auto simp: io_turn_def read_turn_def write_turn_def stream_read_def action_for_state_def
      split: cstate.splits conn_action.splits prod.splits list.splits rd.splits if_splits
        sum.splits io_error.splits)

lemma stream_read_script:
  "stream_read cap s = (s', r) \<Longrightarrow> RdErr e \<in> set (s_in s') \<Longrightarrow> RdErr e \<in> set (s_in s)"
  by (auto simp: stream_read_def split: list.splits rd.splits if_splits)

lemma stream_write_script: "stream_write bs s = (s', r) \<Longrightarrow> s_in s' = s_in s"
  by (auto simp: stream_write_def split: list.splits wr.splits)

lemma io_turn_script:
  "io_turn call now cap drain a s act = (a', s', t) \<Longrightarrow>
     RdErr e \<in> set (s_in (slot_stream s')) \<Longrightarrow> RdErr e \<in> set (s_in (slot_stream s))"
  by (auto simp: io_turn_def read_turn_def write_turn_def
      split: conn_action.splits prod.splits list.splits if_splits sum.splits io_error.splits
      dest: stream_read_script stream_write_script)

lemma drive_loop_drained:
  assumes "linked call a s" and "act = action_for_state (slot_conn s)"
    and "drive_loop call now cap True a s act = (a', s', WantRead)"
    and "RdErr WouldBlock \<notin> set (s_in (slot_stream s))"
  shows "s_in (slot_stream s') = []"
  using assms
proof (induction call now cap True a s act rule: drive_loop.induct)
  case (1 call now cap a s act)
  obtain a1 s1 t where t: "io_turn call now cap True a s act = (a1, s1, t)"
    by (cases "io_turn call now cap True a s act")
  note l = io_turn_linked [OF "1.prems"(1,2) t]
  show ?case
  proof (cases t)
    case (Yield act1)
    with "1.prems"(3) t have "s' = s1" and y: "t = Yield WantRead"
      by (simp_all add: drive_loop.simps [of call now cap True a s act])
    with io_turn_WantRead_drained [OF "1.prems"(1,2) t [unfolded y] "1.prems"(4)] show ?thesis
      by simp
  next
    case (Next act1)
    then have n: "a1 = a" "act1 = action_for_state (slot_conn s1)" using l by auto
    from "1.prems"(3) t Next n(1) have d: "drive_loop call now cap True a s1 act1 = (a', s', WantRead)"
      by (simp add: drive_loop.simps [of call now cap True a s act])
    from "1.hyps" [OF t [symmetric] refl Next] d n l io_turn_script [OF t] "1.prems"(4)
    show ?thesis by auto
  qed
qed

section \<open>Properties\<close>

definition fresh_slot :: "tcp_stream \<Rightarrow> instant \<Rightarrow> duration \<Rightarrow> slot" where
  "fresh_slot st now timeout = \<lparr>slot_stream = st, slot_conn = conn_new now timeout\<rparr>"

lemma fresh_slot_simps [simp]:
  "cstate (slot_conn (fresh_slot st now timeout)) = Reading"
  "s_rcvd st = [] \<Longrightarrow> s_sent st = [] \<Longrightarrow> linked call a (fresh_slot st now timeout)"
  by (simp add: fresh_slot_def conn_new_def) (simp add: fresh_slot_def linked_new)

text \<open>
  C17: the event-loop models send the right bytes. Over any number of readiness events on a new
  connection, level- or edge-triggered, with the kernel cutting the reads and the writes as it
  likes and failing when it likes, what went out and what is pending is a prefix of the response
  stream that the bytes received call for.
\<close>

theorem drive_io_refines:
  assumes "s_rcvd st = []" and "s_sent st = []"
    and "rounds (\<lambda>s. snd (drive_io call now cap drain a s)) ks (fresh_slot st t0 timeout) = (s', act)"
  shows "prefix (s_sent (slot_stream s') @ pending_write (slot_conn s'))
      (wire_spec (app_handle call a) (s_rcvd (slot_stream s')))"
  using lt.rounds_refine [of call a "fresh_slot st t0 timeout" now cap ks s' act]
    et.rounds_refine [of call a "fresh_slot st t0 timeout" now cap ks s' act] assms
  by (cases drain) auto

definition demo_rounds :: "(rd list \<times> wr list) list" where
  "demo_rounds = [([RdData ''GET / HTTP/1.1''], []), ([RdData (CRLF @ CRLF)], []), ([], [WrOk 9])]"

theorem drive_io_refines_witness:
  "prefix (s_sent (slot_stream (fst (rounds (\<lambda>s. snd (drive_io no_call 0 READ_CHUNK True empty_app s))
        demo_rounds (fresh_slot (stream_new 5 [] []) 0 5)))))
     (wire_spec (app_handle no_call empty_app) get_root)"
proof -
  let ?r = "rounds (\<lambda>s. snd (drive_io no_call 0 READ_CHUNK True empty_app s)) demo_rounds
    (fresh_slot (stream_new 5 [] []) 0 5)"
  have "s_rcvd (slot_stream (fst ?r)) = get_root" by code_simp
  with drive_io_refines [of "stream_new 5 [] []" no_call 0 READ_CHUNK True empty_app demo_rounds 0 5
      "fst ?r" "snd ?r"]
  show ?thesis by (auto simp: stream_new_def dest: append_prefixD)
qed

text \<open>
  Nothing is held back: when the event loop parks a connection for reading and the parser
  holds no complete request, every byte that the received requests call for was sent.
\<close>

theorem drive_io_complete:
  assumes "s_rcvd st = []" and "s_sent st = []"
    and "rounds (\<lambda>s. snd (drive_io call now cap drain a s)) ks (fresh_slot st t0 timeout) = (s', WantRead)"
    and "snd (push parser_new (buf (parser (slot_conn s')))) = Incomplete"
  shows "s_sent (slot_stream s') = wire_spec (app_handle call a) (s_rcvd (slot_stream s'))"
  using lt.rounds_complete [of call a "fresh_slot st t0 timeout" now cap ks s' WantRead]
    et.rounds_complete [of call a "fresh_slot st t0 timeout" now cap ks s' WantRead] assms
  by (cases drain) auto

theorem drive_io_complete_witness:
  "s_sent (slot_stream (fst (rounds (\<lambda>s. snd (drive_io no_call 0 READ_CHUNK False empty_app s))
       [([RdData get_root], []), ([], [WrOk 9]), ([], [WrOk 1000])]
       (fresh_slot (stream_new 5 [] []) 0 5)))) =
     wire_spec (app_handle no_call empty_app) get_root"
proof -
  let ?r = "rounds (\<lambda>s. snd (drive_io no_call 0 READ_CHUNK False empty_app s))
    [([RdData get_root], []), ([], [WrOk 9]), ([], [WrOk 1000])]
    (fresh_slot (stream_new 5 [] []) 0 5)"
  have "snd ?r = WantRead" "s_rcvd (slot_stream (fst ?r)) = get_root"
    "snd (push parser_new (buf (parser (slot_conn (fst ?r))))) = Incomplete"
    by code_simp+
  with drive_io_complete [of "stream_new 5 [] []" no_call 0 READ_CHUNK False empty_app
      "[([RdData get_root], []), ([], [WrOk 9]), ([], [WrOk 1000])]" 0 5 "fst ?r"]
  show ?thesis by (simp add: stream_new_def prod_eq_iff)
qed

text \<open>
  The edge-triggered discipline loses no event: when a draining call parks the connection
  for reading, it has read the socket empty, so the next byte that arrives raises a new edge.
\<close>

theorem edge_triggered_drains:
  assumes "linked call a s" and "cstate (slot_conn s) \<noteq> Closed"
    and "RdErr WouldBlock \<notin> set (s_in (slot_stream s))"
    and "drive_io call now cap True a s = (a', s', WantRead)"
  shows "s_in (slot_stream s') = []"
proof -
  have "(if pending_write (slot_conn s) = [] then WantRead else WantWrite) = action_for_state (slot_conn s)"
    using assms(1,2) linked_Writing [OF assms(1)] pending_write_not_Writing [of "slot_conn s"]
    by (cases "cstate (slot_conn s)") (auto simp: action_for_state_def)
  with drive_loop_drained [OF assms(1) _ assms(4) [unfolded drive_io_def] assms(3)] show ?thesis by simp
qed

theorem edge_triggered_drains_witness:
  "s_in (slot_stream (fst (snd (drive_io no_call 0 4 True empty_app
     (fresh_slot (stream_new 5 [RdData ''GET /index'', RdData ''.html''] []) 0 5))))) = []"
proof -
  let ?s = "fresh_slot (stream_new 5 [RdData ''GET /index'', RdData ''.html''] []) 0 5"
  have "snd (snd (drive_io no_call 0 4 True empty_app ?s)) = WantRead" by code_simp
  with edge_triggered_drains [of no_call empty_app ?s 0 4] show ?thesis
    by (simp add: stream_new_def fresh_slot_def [of "stream_new _ _ _"] prod_eq_iff)
       (simp add: fresh_slot_def stream_new_def conn_new_def linked_new)
qed

lemma serve_connection_linked:
  assumes "s_rcvd st = []" and "s_sent st = []"
    and "serve_connection call e1 e2 now timeout a st = (s, r)"
  shows "linked call a s"
proof -
  have "linked call a (fresh_slot st now timeout)" using assms(1,2) by simp
  with assms(3) serve_loop_linked [of call a "fresh_slot st now timeout" WantRead now s r]
  show ?thesis
    by (auto simp: serve_connection_def fresh_slot_def action_for_state_def conn_new_def Let_def
        split: option.splits)
qed

text \<open>
  The blocking models send the right bytes too: \<open>serve_connection\<close> ends on every stream, and
  however it ends - the peer closed, an error or a time-out, the last response written - what it
  sent is a prefix of the response stream for the bytes received, and all of it when the
  connection was closed by the server.
\<close>

theorem serve_connection_refines:
  assumes "s_rcvd st = []" and "s_sent st = []"
    and "serve_connection call e1 e2 now timeout a st = (s, r)"
  shows "prefix (s_sent (slot_stream s)) (wire_spec (app_handle call a) (s_rcvd (slot_stream s))) \<and>
    (cstate (slot_conn s) = Closed \<longrightarrow>
       s_sent (slot_stream s) = wire_spec (app_handle call a) (s_rcvd (slot_stream s)))"
  using linked_prefix [OF serve_connection_linked [OF assms]]
    linked_done [OF serve_connection_linked [OF assms]]
  by (auto dest: append_prefixD)

theorem serve_connection_refines_witness:
  "prefix (s_sent (slot_stream (fst (serve_connection no_call None None 0 5 empty_app
       (stream_new 5 [RdData ''GET / HTTP/1.1''] [])))))
     (wire_spec (app_handle no_call empty_app) (s_rcvd (slot_stream (fst (serve_connection no_call
       None None 0 5 empty_app (stream_new 5 [RdData ''GET / HTTP/1.1''] []))))))"
  using serve_connection_refines [of "stream_new 5 [RdData ''GET / HTTP/1.1''] []" no_call None None 0 5
      empty_app _ "snd (serve_connection no_call None None 0 5 empty_app
        (stream_new 5 [RdData ''GET / HTTP/1.1''] []))"]
  by (simp add: stream_new_def)


end
