(* ===== verification/Config.thy ===== *)
theory Config
  imports Conn
begin

text \<open>
  The server configuration and the listener binder of \<open>core/src/server.rs\<close>, and
  \<open>shared_config\<close> of \<open>server/src/models/mod.rs\<close>. The \<open>socket2\<close> crate is not part of the
  repository: the answer to each of its calls is an argument, and the binder's value is the
  sequence of calls it made with the result.
\<close>

section \<open>Configuration\<close>

record config =
  cfg_addr :: "bytes \<times> 16 word"
  cfg_workers :: usize
  cfg_read_timeout :: duration
  cfg_write_timeout :: duration
  cfg_max_connections :: usize
  cfg_assets_dir :: str

definition secs :: "nat \<Rightarrow> duration" where
  "secs n = n * 1000000000"

text \<open>\<open>parallelism\<close> is the answer of \<open>available_parallelism\<close>.\<close>

definition config_default :: "usize option \<Rightarrow> config" where
  "config_default parallelism = \<lparr>
     cfg_addr = (map char_of [127 :: nat, 0, 0, 1], 8080),
     cfg_workers = (case parallelism of Some n \<Rightarrow> n | None \<Rightarrow> 1),
     cfg_read_timeout = secs 30,
     cfg_write_timeout = secs 30,
     cfg_max_connections = 1024,
     cfg_assets_dir = ''server/assets''\<rparr>"

definition shared_config :: "config \<Rightarrow> config" where
  "shared_config cfg = \<lparr>
     cfg_addr = cfg_addr cfg, cfg_workers = cfg_workers cfg,
     cfg_read_timeout = cfg_read_timeout cfg, cfg_write_timeout = cfg_write_timeout cfg,
     cfg_max_connections = cfg_max_connections cfg, cfg_assets_dir = cfg_assets_dir cfg\<rparr>"

section \<open>Binding a listener\<close>

definition LISTEN_BACKLOG :: int where
  "LISTEN_BACKLOG = 1024"

datatype sock_call = SocketNew | SetReuseAddress | SetReusePort | Bind | Listen int

text \<open>Calls in order, each followed by \<open>?\<close>: the first error ends the sequence.\<close>

fun call_all :: "(sock_call \<Rightarrow> io_error option) \<Rightarrow> sock_call list \<Rightarrow> sock_call list \<times> (io_error + unit)" where
  "call_all answer [] = ([], Inr ())"
| "call_all answer (c # cs) =
     (case answer c of
        Some e \<Rightarrow> ([c], Inl e)
      | None \<Rightarrow> (case call_all answer cs of (made, r) \<Rightarrow> (c # made, r)))"

definition bind_listener :: "(sock_call \<Rightarrow> io_error option) \<Rightarrow> bool \<Rightarrow> sock_call list \<times> (io_error + unit)" where
  "bind_listener answer reuse_port =
     call_all answer
       ([SocketNew] @ (if reuse_port then [SetReuseAddress, SetReusePort] else []) @
        [Bind, Listen LISTEN_BACKLOG])"

lemma shared_config_id: "shared_config cfg = cfg"
  by (cases cfg) (simp add: shared_config_def)

lemma call_all_prefix: "call_all answer cs = (made, r) \<Longrightarrow> prefix made cs \<and> (r = Inr () \<longrightarrow> made = cs)"
  by (induction cs arbitrary: made r) (auto split: option.splits prod.splits)

text \<open>
  A listener shares its address only when it was asked to: the port option is set exactly
  for a listener bound with \<open>reuse_port\<close>, before the address is bound; the listener is in the
  listening state only after it was bound, and any failing step ends the binding.
\<close>

theorem bind_listener_order:
  assumes "bind_listener answer reuse_port = (made, r)"
  shows "prefix made ([SocketNew] @ (if reuse_port then [SetReuseAddress, SetReusePort] else []) @
      [Bind, Listen LISTEN_BACKLOG]) \<and>
    (r = Inr () \<longrightarrow> Listen LISTEN_BACKLOG \<in> set made \<and> (SetReusePort \<in> set made \<longleftrightarrow> reuse_port))"
  using call_all_prefix [OF assms [unfolded bind_listener_def]] by auto

theorem bind_listener_order_witness:
  "prefix (fst (bind_listener (\<lambda>c. if c = Bind then Some TimedOut else None) True))
     [SocketNew, SetReuseAddress, SetReusePort, Bind, Listen LISTEN_BACKLOG]"
  using bind_listener_order [of "\<lambda>c. if c = Bind then Some TimedOut else None" True]
  by (metis append_Cons append_Nil prod.collapse)

end
