(* ===== verification/Event_Loop.thy ===== *)
theory Event_Loop
  imports Event_Io Config
begin

text \<open>
  What the three readiness loops share: \<open>poll\<close>, \<open>epoll-lt\<close>/\<open>epoll-et\<close> and the \<open>Reactor\<close>. Each keeps
  a table of live connections and a map from descriptor to the interest the descriptor is
  registered for, and the model adds the list of the streams that were closed. The invariant \<open>loop_ok\<close> ties the two together and both to the connections'
  state machines; the locale \<open>event_loop\<close> states what a loop's drop and drive operations do to the
  two maps, and proves from that what the loops need: the invariant is kept by every event and
  by the sweep, and after a sweep no expired connection is left.
\<close>

section \<open>Kernel answers\<close>

text \<open>
  The answers the kernel has ready for the next calls: to \<open>accept_nonblocking\<close> (an empty script is
  a drained backlog), to \<open>set_nonblocking\<close> and to \<open>epoll_ctl\<close> (an empty script is success).
\<close>

record kern =
  k_accepts :: "(io_error + (tcp_stream \<times> socket_addr) option) list"
  k_fcntl :: "io_error option list"
  k_ctl :: "io_error option list"

definition pop_answer :: "'a \<Rightarrow> 'a list \<Rightarrow> 'a \<times> 'a list" where
  "pop_answer d xs = (case xs of [] \<Rightarrow> (d, []) | x # xs' \<Rightarrow> (x, xs'))"

lemma pop_answer_simps [simp]:
  "pop_answer d [] = (d, [])" "pop_answer d (x # xs) = (x, xs)"
  by (simp_all add: pop_answer_def)

text \<open>
  \<open>accept4\<close> returns a descriptor that is not open. The script may propose any number; the kernel
  takes the first one from there on that the loop does not hold open.
\<close>

fun fresh_fd :: "raw_fd list \<Rightarrow> nat \<Rightarrow> raw_fd \<Rightarrow> raw_fd" where
  "fresh_fd used 0 f = f"
| "fresh_fd used (Suc n) f = (if f \<in> set used then fresh_fd used n (f + 1) else f)"

definition kernel_accept ::
  "raw_fd list \<Rightarrow> kern \<Rightarrow> (io_error + (tcp_stream \<times> socket_addr) option) \<times> kern" where
  "kernel_accept used k =
     (let r = pop_answer (Inr None) (k_accepts k); k1 = k\<lparr>k_accepts := snd r\<rparr> in
      case fst r of
        Inr (Some (st, peer)) \<Rightarrow>
          (Inr (Some (st\<lparr>s_fd := fresh_fd used (length used) (s_fd st)\<rparr>, peer)), k1)
      | answer \<Rightarrow> (answer, k1))"

text \<open>What the kernel hands out on accept is a new stream.\<close>

definition new_streams :: "kern \<Rightarrow> bool" where
  "new_streams k \<longleftrightarrow>
     (\<forall>st p. Inr (Some (st, p)) \<in> set (k_accepts k) \<longrightarrow> s_rcvd st = [] \<and> s_sent st = [])"

lemma fresh_fd_not_used: "fresh_fd used (length used) f \<notin> set used"
proof
  have run: "set [f..f + int n - 1] \<subseteq> set used \<and> fresh_fd used n f = f + int n \<or>
      fresh_fd used n f \<notin> set used" for n f
  proof (induction n arbitrary: f)
    case (Suc n)
    have "set [f..f + int (Suc n) - 1] = insert f (set [f + 1..f + 1 + int n - 1])" by auto
    with Suc [of "f + 1"] show ?case by auto
  qed auto
  assume used: "fresh_fd used (length used) f \<in> set used"
  with run [where n = "length used" and f = f]
  have "set [f..f + int (length used)] \<subseteq> set used"
    by (auto simp: subset_iff) (metis add.commute diff_add_cancel int_ops(4) le_less zle_diff1_eq)
  then have "card (set [f..f + int (length used)]) \<le> card (set used)" by (intro card_mono) auto
  also have "\<dots> \<le> length used" by (rule card_length)
  finally show False by simp
qed

lemma new_streams_update [simp]:
  "new_streams (k\<lparr>k_fcntl := x\<rparr>) = new_streams k" "new_streams (k\<lparr>k_ctl := y\<rparr>) = new_streams k"
  by (simp_all add: new_streams_def)

lemma new_streamsD:
  "new_streams k \<Longrightarrow> Inr (Some (st, p)) \<in> set (k_accepts k) \<Longrightarrow> s_rcvd st = [] \<and> s_sent st = []"
  unfolding new_streams_def by blast

lemma new_streams_subset:
  "new_streams k \<Longrightarrow> set (k_accepts k') \<subseteq> set (k_accepts k) \<Longrightarrow> new_streams k'"
  unfolding new_streams_def by blast

lemma kernel_accept_cases:
  assumes "kernel_accept used k = (r, k')"
  shows "k_fcntl k' = k_fcntl k \<and> k_ctl k' = k_ctl k \<and> (new_streams k \<longrightarrow> new_streams k') \<and>
    (case r of
       Inr (Some (st, peer)) \<Rightarrow>
         s_fd st \<notin> set used \<and> (new_streams k \<longrightarrow> s_rcvd st = [] \<and> s_sent st = []) \<and>
         length (k_accepts k') < length (k_accepts k)
     | _ \<Rightarrow> True)"
proof (cases "k_accepts k")
  case Nil
  then have "k' = k\<lparr>k_accepts := []\<rparr>" "r = Inr None"
    using assms by (simp_all add: kernel_accept_def Let_def)
  then show ?thesis by (simp add: new_streams_def)
next
  case (Cons x xs)
  then have k': "k' = k\<lparr>k_accepts := xs\<rparr>"
    using assms by (auto simp: kernel_accept_def Let_def split: sum.splits option.splits)
  have mono: "new_streams k \<Longrightarrow> new_streams k'" by (erule new_streams_subset) (auto simp: k' Cons)
  consider e where "x = Inl e" | "x = Inr None" | st0 peer where "x = Inr (Some (st0, peer))"
    by (metis option.exhaust sum.exhaust surj_pair)
  then show ?thesis
  proof cases
    case 3
    have r: "r = Inr (Some (st0\<lparr>s_fd := fresh_fd used (length used) (s_fd st0)\<rparr>, peer))"
      using assms Cons 3 by (simp add: kernel_accept_def Let_def)
    have "new_streams k \<Longrightarrow> s_rcvd st0 = [] \<and> s_sent st0 = []"
      using new_streamsD [of k st0 peer] Cons 3 by simp
    then show ?thesis using mono k' r Cons by (simp add: fresh_fd_not_used)
  qed (use assms Cons mono k' in \<open>auto simp: kernel_accept_def Let_def\<close>)
qed

section \<open>Handlers do not read the counters\<close>

definition count_connection :: "'h app \<Rightarrow> 'h app" where
  "count_connection a = a\<lparr>app_metrics := inc_connections (app_metrics a)\<rparr>"

lemma app_same_count_connection [simp]: "app_same a (count_connection b) = app_same a b"
  by (simp add: app_same_def count_connection_def)

definition counters_unread :: "'h call \<Rightarrow> bool" where
  "counters_unread call \<longleftrightarrow> (\<forall>h r a b. app_same a b \<longrightarrow> call h r a = call h r b)"

lemma app_same_sym: "app_same a b \<Longrightarrow> app_same b a"
  by (simp add: app_same_def)

lemma app_same_trans: "app_same a b \<Longrightarrow> app_same b c \<Longrightarrow> app_same a c"
  by (simp add: app_same_def)

lemma app_handle_same:
  "counters_unread call \<Longrightarrow> app_same a b \<Longrightarrow> app_handle call a r = app_handle call b r"
proof -
  assume "counters_unread call" "app_same a b"
  then have "call h r a = call h r b" "app_router a = app_router b" for h
    unfolding counters_unread_def by (blast, simp add: app_same_def)
  then show ?thesis by (simp add: app_handle_def split: http_method.split option.split)
qed

lemma on_bytes_cong:
  "(\<And>r. app_handle call a r = app_handle call b r) \<Longrightarrow> on_bytes call a c bs = on_bytes call b c bs"
  by (simp add: on_bytes_def handle_status_def split: prod.splits parse_status.splits)

lemma conn_run_cong:
  assumes "\<And>r. app_handle call a r = app_handle call b r" and "conn_run call a c rcvd sent"
  shows "conn_run call b c rcvd sent"
  using assms(2)
proof (induction rule: conn_run.induct)
  case (run_read c rcvd sent bs)
  then show ?case using conn_run.run_read [of call b c rcvd sent bs] on_bytes_cong [OF assms(1)] by simp
qed (auto intro: run_new run_write)

lemma linked_same:
  assumes "counters_unread call" and "app_same a b"
  shows "linked call a s = linked call b s"
  using conn_run_cong [of call a b] conn_run_cong [of call b a] app_handle_same [OF assms(1)] assms(2)
    app_same_sym [OF assms(2)]
  unfolding linked_def by metis

section \<open>The invariant\<close>

definition interest_of :: "conn_action \<Rightarrow> interest" where
  "interest_of act = (if act = WantWrite then InterestWrite else InterestRead)"

type_synonym wants = "(raw_fd, interest) hashmap"

text \<open>
  Every live connection is registered, for exactly what its state machine waits for, and
  nothing else is; its stream agrees with its state machine; and there are at most as many as
  the cap allows.
\<close>

definition slot_ok :: "'h call \<Rightarrow> 'h app \<Rightarrow> wants \<Rightarrow> raw_fd \<Rightarrow> slot \<Rightarrow> bool" where
  "slot_ok call a w f s \<longleftrightarrow>
     linked call a s \<and> cstate (slot_conn s) \<noteq> Closed \<and>
     hm_get w f = Some (interest_of (action_for_state (slot_conn s)))"

definition loop_ok :: "'h call \<Rightarrow> 'h app \<Rightarrow> usize \<Rightarrow> conn_table \<Rightarrow> wants \<Rightarrow> bool" where
  "loop_ok call a cap t w \<longleftrightarrow>
     wf_table t \<and> hm_invar w \<and> dom (hm_get w) = dom (table_get t) \<and> table_len t \<le> cap \<and>
     (\<forall>f s. table_get t f = Some s \<longrightarrow> slot_ok call a w f s)"

lemma loop_ok_new: "loop_ok call a cap table_new hm_empty"
proof -
  have "table_get table_new = Map.empty" "hm_get hm_empty = (Map.empty :: raw_fd \<Rightarrow> interest option)"
    by (auto simp: table_defs)
  then show ?thesis by (simp add: loop_ok_def) (simp add: table_defs hm_len_def hm_empty_def)
qed

lemma loop_ok_drop:
  assumes "loop_ok call a cap t w"
  shows "loop_ok call a cap (table_remove f t) (hm_remove f w)"
proof -
  have "table_len (table_remove f t) \<le> cap"
    using assms table_len_remove_le [of t f] by (simp add: loop_ok_def)
  with assms show ?thesis
    by (auto simp: loop_ok_def slot_ok_def table_get_remove hm.get_remove dom_def split: if_splits)
qed

lemma loop_ok_store:
  assumes "loop_ok call a cap t w" and "table_get t f = Some s"
    and "linked call a s'" and "s_fd (slot_stream s') = f" and "cstate (slot_conn s') \<noteq> Closed"
    and "hm_invar w'" and "hm_get w' = (hm_get w)(f \<mapsto> interest_of (action_for_state (slot_conn s')))"
  shows "loop_ok call a cap (table_put f s' t) w'"
proof -
  have "wf_table t" "table_len t \<le> cap" "dom (hm_get w) = dom (table_get t)"
    using assms(1) by (auto simp: loop_ok_def)
  moreover have "dom (hm_get w') = dom (hm_get w)" using assms(2,7) \<open>dom (hm_get w) = _\<close> by auto
  ultimately show ?thesis using assms
    by (auto simp: loop_ok_def slot_ok_def table_get_put table_len_put wf_table_put)
qed

lemma loop_ok_drop_stored:
  assumes "loop_ok call a cap t w" and "table_get t f = Some s" and "s_fd (slot_stream s') = f"
  shows "loop_ok call a cap (table_remove f (table_put f s' t)) (hm_remove f w)"
proof -
  have wf: "wf_table t" "wf_table (table_put f s' t)" "table_len t \<le> cap" "hm_invar w"
    using assms by (auto simp: loop_ok_def wf_table_put)
  have "table_len (table_remove f (table_put f s' t)) \<le> cap"
    using table_len_remove_le [OF wf(2), of f] table_len_put [OF wf(1) assms(2), of s'] wf(3) by simp
  with assms(1) wf show ?thesis
    by (auto simp: loop_ok_def slot_ok_def table_get_remove table_get_put hm.get_remove dom_def
        split: if_splits)
qed

lemma loop_ok_insert:
  assumes "loop_ok call a cap t w" and "table_len t < cap" and "s_rcvd st = []" and "s_sent st = []"
  shows "loop_ok call a cap (fst (table_insert st (conn_new now timeout) t))
    (hm_insert (s_fd st) InterestRead w)"
proof -
  have wf: "wf_table t" "hm_invar w" "dom (hm_get w) = dom (table_get t)" using assms(1) by (auto simp: loop_ok_def)
  have "table_len (fst (table_insert st (conn_new now timeout) t)) \<le> cap"
    using table_len_insert_le [OF wf(1)] assms(2) by (metis Suc_leI le_trans)
  moreover have "cstate (conn_new now timeout) = Reading" by (simp add: conn_new_def)
  moreover have "dom (hm_get (hm_insert (s_fd st) InterestRead w)) =
      dom (table_get (fst (table_insert st (conn_new now timeout) t)))"
    using wf by (auto simp: hm.get_insert table_get_insert dom_def)
  ultimately show ?thesis using assms(1) linked_new [OF assms(3,4)] wf
    by (auto simp: loop_ok_def slot_ok_def hm.get_insert table_get_insert action_for_state_def interest_of_def)
qed

lemma loop_ok_insert_undo:
  assumes "loop_ok call a cap t w" and "table_len t < cap" and "table_get t (s_fd st) = None"
  shows "loop_ok call a cap (table_remove (s_fd st) (fst (table_insert st c t))) w"
proof -
  have wf: "wf_table t" "wf_table (fst (table_insert st c t))" using assms(1) by (auto simp: loop_ok_def)
  have "table_len (table_remove (s_fd st) (fst (table_insert st c t))) \<le> cap"
    using table_len_remove_le [OF wf(2), of "s_fd st"] table_len_insert_le [OF wf(1), of st c] assms(2)
    by simp
  moreover have "table_get (table_remove (s_fd st) (fst (table_insert st c t))) = table_get t"
    using wf assms(3) by (auto simp: fun_eq_iff table_get_simps)
  ultimately show ?thesis using assms(1) wf by (simp add: loop_ok_def)
qed

text \<open>Bytes and room that arrive for the live connections between two iterations.\<close>

definition deliver :: "(raw_fd \<Rightarrow> rd list \<times> wr list) \<Rightarrow> conn_table \<Rightarrow> conn_table" where
  "deliver d t = map (\<lambda>(f, s). (f, refill (d f) s)) t"

lemma table_get_deliver: "table_get (deliver d t) f = map_option (refill (d f)) (table_get t f)"
  by (induction t) (auto simp: deliver_def table_get_def hm_get_def)

lemma wf_table_deliver: "wf_table t \<Longrightarrow> wf_table (deliver d t)"
proof -
  have "map fst (deliver d t) = map fst t" by (induction t) (auto simp: deliver_def)
  then show "wf_table t \<Longrightarrow> wf_table (deliver d t)"
    by (auto simp: wf_table_def table_get_deliver hm_invar_def) (simp add: refill_def)
qed

lemma loop_ok_deliver: "loop_ok call a cap t w \<Longrightarrow> loop_ok call a cap (deliver d t) w"
  by (auto simp: loop_ok_def slot_ok_def wf_table_deliver table_get_deliver table_len_def hm_len_def dom_def)
     (simp_all add: deliver_def)

text \<open>
  What a served stream has to satisfy, whichever way serving it ended: it was sent nothing but its
  responses, and all of them once its connection owes none: it was closed after its last response,
  or it waits for the rest of a request.
\<close>

definition owes_nothing :: "connection \<Rightarrow> bool" where
  "owes_nothing c \<longleftrightarrow>
     cstate c = Closed \<or> cstate c = Reading \<and> snd (push parser_new (buf (parser c))) = Incomplete"

definition answers :: "'h call \<Rightarrow> 'h app \<Rightarrow> slot \<Rightarrow> bool" where
  "answers call a s \<longleftrightarrow>
     prefix (s_sent (slot_stream s)) (wire_spec (app_handle call a) (s_rcvd (slot_stream s))) \<and>
     (owes_nothing (slot_conn s) \<longrightarrow>
        s_sent (slot_stream s) = wire_spec (app_handle call a) (s_rcvd (slot_stream s)))"

lemma linked_answers: "linked call a s \<Longrightarrow> answers call a s"
  using linked_prefix [of call a s] linked_done [of call a s]
  by (auto simp: answers_def owes_nothing_def dest: append_prefixD)

text \<open>The slot that is taken out of the table when a descriptor is closed.\<close>

definition closed_slot :: "raw_fd \<Rightarrow> conn_table \<Rightarrow> slot list" where
  "closed_slot f t = (case table_get t f of None \<Rightarrow> [] | Some s \<Rightarrow> [s])"

lemma loop_ok_answers:
  assumes "loop_ok call a cap t w"
  shows "list_all (answers call a) (closed_slot f t)"
  using assms
  by (auto simp: closed_slot_def loop_ok_def slot_ok_def intro: linked_answers split: option.split)

lemma answers_new:
  assumes "wf_table t" and "s_rcvd st = []" and "s_sent st = []"
  shows "list_all (answers call a) (closed_slot (s_fd st) (fst (table_insert st (conn_new now timeout) t)))"
  using linked_answers [OF linked_new [OF assms(2,3)]] assms(1) by (simp add: closed_slot_def table_get_insert)

section \<open>Expiry\<close>

definition expired :: "instant \<Rightarrow> conn_table \<Rightarrow> raw_fd list" where
  "expired now t = map fst (filter (\<lambda>(f, c). is_expired c now) (table_iter t))"

lemma set_expired:
  "wf_table t \<Longrightarrow> set (expired now t) = {f. \<exists>s. table_get t f = Some s \<and> is_expired (slot_conn s) now}"
  by (auto simp: expired_def table_iter_get image_iff)

section \<open>The contract of a readiness loop\<close>

text \<open>
  \<open>tbl\<close>, \<open>wnt\<close>, \<open>ap\<close> and \<open>cls\<close> are the table, the interest map, the application and the closed
  streams of a loop's state;
  \<open>drop_c\<close> closes a connection and \<open>drv\<close> handles a readable or writable event. An operation may
  close the connection it drives even when the state machine does not ask for it.
\<close>

locale event_loop =
  fixes call :: "'h call"
    and tbl :: "'s \<Rightarrow> conn_table"
    and wnt :: "'s \<Rightarrow> wants"
    and ap :: "'s \<Rightarrow> 'h app"
    and cls :: "'s \<Rightarrow> slot list"
    and drop_c :: "raw_fd \<Rightarrow> 's \<Rightarrow> 's"
    and drv :: "instant \<Rightarrow> raw_fd \<Rightarrow> 's \<Rightarrow> 's"
    and drain :: bool
  assumes drop_law: "tbl (drop_c f s) = table_remove f (tbl s)"
      "wnt (drop_c f s) = hm_remove f (wnt s)" "ap (drop_c f s) = ap s"
      "cls (drop_c f s) = cls s @ closed_slot f (tbl s)"
    and drv_missing: "table_get (tbl s) f = None \<Longrightarrow> drv now f s = s"
    and drv_law: "table_get (tbl s) f = Some sl \<Longrightarrow>
      drive_io call now READ_CHUNK drain (ap s) sl = (a', sl', act) \<Longrightarrow> hm_invar (wnt s) \<Longrightarrow>
      ap (drv now f s) = a' \<and>
      (tbl (drv now f s) = table_remove f (table_put f sl' (tbl s)) \<and> wnt (drv now f s) = hm_remove f (wnt s) \<and>
         cls (drv now f s) = cls s @ closed_slot f (table_put f sl' (tbl s)) \<or>
       act \<noteq> Close \<and> tbl (drv now f s) = table_put f sl' (tbl s) \<and> hm_invar (wnt (drv now f s)) \<and>
       hm_get (wnt (drv now f s)) = (hm_get (wnt s))(f \<mapsto> interest_of act) \<and> cls (drv now f s) = cls s)"
begin

abbreviation inv :: "'h app \<Rightarrow> usize \<Rightarrow> 's \<Rightarrow> bool" where
  "inv a cap s \<equiv>
     loop_ok call a cap (tbl s) (wnt s) \<and> app_same a (ap s) \<and> list_all (answers call a) (cls s)"

lemma inv_drop: "inv a cap s \<Longrightarrow> inv a cap (drop_c f s)"
  using loop_ok_answers by (auto simp: drop_law loop_ok_drop)

lemma inv_drops: "inv a cap s \<Longrightarrow> inv a cap (fold drop_c fs s)"
proof (induction fs arbitrary: s)
  case (Cons f fs)
  from Cons.IH [OF inv_drop [OF Cons.prems]] show ?case by simp
qed simp

lemma inv_drv:
  assumes "counters_unread call" and "inv a cap s"
  shows "inv a cap (drv now f s)"
proof (cases "table_get (tbl s) f")
  case None
  with assms drv_missing show ?thesis by simp
next
  case (Some sl)
  obtain a' sl' act where d: "drive_io call now READ_CHUNK drain (ap s) sl = (a', sl', act)"
    by (cases "drive_io call now READ_CHUNK drain (ap s) sl")
  have ok: "slot_ok call a (wnt s) f sl" and wf: "wf_table (tbl s)" "hm_invar (wnt s)"
    using assms(2) Some by (auto simp: loop_ok_def)
  have fd: "s_fd (slot_stream sl) = f" using wf(1) Some by (simp add: wf_table_def)
  have "linked call (ap s) sl" and op: "cstate (slot_conn sl) \<noteq> Closed"
    using ok linked_same [OF assms(1), of a "ap s"] assms(2) by (auto simp: slot_ok_def)
  from drive_io_linked [OF this d] have l: "linked call a sl'" "app_same a a'"
      "s_fd (slot_stream sl') = f" "act \<noteq> Close \<Longrightarrow> act = action_for_state (slot_conn sl')"
    using linked_same [OF assms(1), of a "ap s"] assms(2) fd by (auto intro: app_same_trans)
  have "cstate (slot_conn sl') \<noteq> Closed" if "act \<noteq> Close"
    using l(4) that by (auto simp: action_for_state_def)
  then have store: "loop_ok call a cap (table_put f sl' (tbl s)) w"
    if "act \<noteq> Close" "hm_invar w" "hm_get w = (hm_get (wnt s))(f \<mapsto> interest_of act)" for w
    using loop_ok_store [of call a cap "tbl s" "wnt s" f sl sl' w] assms(2) Some l that by auto
  have "loop_ok call a cap (table_remove f (table_put f sl' (tbl s))) (hm_remove f (wnt s))"
    using loop_ok_drop_stored [OF _ Some l(3)] assms(2) by blast
  moreover have "list_all (answers call a) (closed_slot f (table_put f sl' (tbl s)))"
    using linked_answers [OF l(1)] wf(1) by (auto simp: closed_slot_def table_get_put split: option.split)
  ultimately show ?thesis using drv_law [OF Some d wf(2)] store l(2) assms(2) by auto
qed

text \<open>The sweep: what it leaves is what was not expired.\<close>

lemma tbl_drops:
  "wf_table (tbl s) \<Longrightarrow>
     table_get (tbl (fold drop_c fs s)) f = (if f \<in> set fs then None else table_get (tbl s) f)"
  by (induction fs arbitrary: s) (auto simp: drop_law table_get_remove)

lemma sweep_exact:
  "wf_table (tbl s) \<Longrightarrow>
     table_get (tbl (fold drop_c (expired now (tbl s)) s)) f =
     (case table_get (tbl s) f of
        Some sl \<Rightarrow> if is_expired (slot_conn sl) now then None else Some sl
      | None \<Rightarrow> None)"
  by (auto simp: tbl_drops set_expired split: option.splits)

end

lemma loop_ok_refines:
  assumes "loop_ok call a cap t w" and "table_get t f = Some s"
  shows "prefix (s_sent (slot_stream s)) (wire_spec (app_handle call a) (s_rcvd (slot_stream s)))"
proof -
  have "linked call a s" using assms by (simp add: loop_ok_def slot_ok_def)
  from append_prefixD [OF linked_prefix [OF this]] show ?thesis .
qed

lemma loop_ok_interest:
  assumes "loop_ok call a cap t w" and "table_get t f = Some s"
  shows "hm_get w f = Some (if pending_write (slot_conn s) = [] then InterestRead else InterestWrite)"
proof -
  have ok: "slot_ok call a w f s" using assms by (simp add: loop_ok_def)
  then have "pending_write (slot_conn s) = [] \<longleftrightarrow> cstate (slot_conn s) \<noteq> Writing"
    using linked_Writing [of call a s] pending_write_not_Writing by (auto simp: slot_ok_def)
  with ok show ?thesis
    by (auto simp: slot_ok_def interest_of_def action_for_state_def split: cstate.splits)
qed

lemma no_call_unread: "counters_unread no_call"
  by (simp add: counters_unread_def no_call_def)

definition idle_kern :: kern where
  "idle_kern = \<lparr>k_accepts = [], k_fcntl = [], k_ctl = []\<rparr>"

definition demo_config :: config where
  "demo_config = (config_default None)\<lparr>cfg_max_connections := 2\<rparr>"

definition demo_accepts :: "raw_fd list \<Rightarrow> kern" where
  "demo_accepts fs = idle_kern\<lparr>k_accepts := map (\<lambda>f. Inr (Some (stream_new f [] [], V4 [] 0))) fs\<rparr>"

lemma new_streams_demo: "new_streams (demo_accepts fs)"
  by (auto simp: new_streams_def demo_accepts_def stream_new_def)

end
