(* ===== verification/Server_Main.thy ===== *)
theory Server_Main
  imports Event_Loop
begin

text \<open>
  The server binary, \<open>server/src/main.rs\<close>: its command line, its handlers and routes, the choice
  of a model and the configuration it is started with. An early exit of the process is a value
  with the exit code. The running of a model is an argument of the whole program, since each
  model has its own theory; the file system is the function from a path to a directory listing.
\<close>

section \<open>The command line\<close>

record cli =
  cli_model :: str
  cli_port :: "16 word"
  cli_assets_dir :: str
  cli_verbose :: bool
  cli_workers :: "usize option"
  cli_max_connections :: "usize option"

definition cli_default :: cli where
  "cli_default = \<lparr>cli_model = ''iterative'', cli_port = 8080, cli_assets_dir = ''server/assets'',
     cli_verbose = False, cli_workers = None, cli_max_connections = None\<rparr>"

text \<open>\<open>expect_value\<close>: the value and what remains, or the exit code.\<close>

definition expect_value :: "str list \<Rightarrow> nat + (str \<times> str list)" where
  "expect_value args = (case args of [] \<Rightarrow> Inl 2 | v # rest \<Rightarrow> Inr (v, rest))"

text \<open>
  The value of an option as an unsigned number up to a maximum; a value that does not parse ends
  the process.
\<close>

definition number_value :: "nat \<Rightarrow> str list \<Rightarrow> nat + (nat \<times> str list)" where
  "number_value mx args =
     (case expect_value args of
        Inl code \<Rightarrow> Inl code
      | Inr (raw, rest) \<Rightarrow> (case parse_uint mx raw of None \<Rightarrow> Inl 2 | Some n \<Rightarrow> Inr (n, rest)))"

lemma expect_value_shorter: "expect_value args = Inr (v, rest) \<Longrightarrow> length rest < length args"
  by (auto simp: expect_value_def split: list.splits)

lemma number_value_shorter: "number_value mx args = Inr (n, rest) \<Longrightarrow> length rest < length args"
  by (auto simp: number_value_def expect_value_def split: list.splits option.splits)

function parse_args_loop :: "str list \<Rightarrow> cli \<Rightarrow> nat + cli" where
  "parse_args_loop [] c = Inr c"
| "parse_args_loop (arg # args) c =
     (if arg = ''--model'' then
        (case expect_value args of
           Inl code \<Rightarrow> Inl code | Inr (v, rest) \<Rightarrow> parse_args_loop rest (c\<lparr>cli_model := v\<rparr>))
      else if arg = ''--assets-dir'' then
        (case expect_value args of
           Inl code \<Rightarrow> Inl code | Inr (v, rest) \<Rightarrow> parse_args_loop rest (c\<lparr>cli_assets_dir := v\<rparr>))
      else if arg = ''--port'' then
        (case number_value 65535 args of
           Inl code \<Rightarrow> Inl code | Inr (n, rest) \<Rightarrow> parse_args_loop rest (c\<lparr>cli_port := word_of_nat n\<rparr>))
      else if arg = ''--workers'' then
        (case number_value USIZE_MAX args of
           Inl code \<Rightarrow> Inl code | Inr (n, rest) \<Rightarrow> parse_args_loop rest (c\<lparr>cli_workers := Some n\<rparr>))
      else if arg = ''--max-connections'' then
        (case number_value USIZE_MAX args of
           Inl code \<Rightarrow> Inl code | Inr (n, rest) \<Rightarrow> parse_args_loop rest (c\<lparr>cli_max_connections := Some n\<rparr>))
      else if arg = ''--verbose'' then parse_args_loop args (c\<lparr>cli_verbose := True\<rparr>)
      else if arg = ''-h'' \<or> arg = ''--help'' then Inl 0
      else Inl 2)"
  by pat_completeness auto
termination
  by (relation "measure (\<lambda>(args, c). length args)")
     (auto dest!: sym [of "Inr _"] expect_value_shorter number_value_shorter)

definition parse_args :: "str list \<Rightarrow> nat + cli" where
  "parse_args args = parse_args_loop args cli_default"

section \<open>The site\<close>

datatype handler = ServeIndex | ServeStyle

definition serve_asset :: "handler app \<Rightarrow> str \<Rightarrow> response" where
  "serve_asset a name =
     (case asset_get (app_assets a) name of
        Some x \<Rightarrow> response_ok (a_content_type x) (a_bytes x)
      | None \<Rightarrow> response_text INTERNAL_ERROR ''asset not found in cache'')"

definition serve_index :: "request \<Rightarrow> handler app \<Rightarrow> response" where
  "serve_index req a = serve_asset a ''index.html''"

definition serve_style :: "request \<Rightarrow> handler app \<Rightarrow> response" where
  "serve_style req a = serve_asset a ''static/style.css''"

fun server_call :: "handler call" where
  "server_call ServeIndex = serve_index"
| "server_call ServeStyle = serve_style"

definition build_app :: "(str \<Rightarrow> listing) \<Rightarrow> cli \<Rightarrow> io_error + handler app" where
  "build_app fs c =
     builder_build fs
       (builder_route
         (builder_route (builder_assets_dir app_builder (cli_assets_dir c)) Get ''/'' ServeIndex)
         Get ''/static/style.css'' ServeStyle)"

section \<open>Choosing and starting a model\<close>

datatype model =
  Iterative | Forking | Preforked | ThreadPerConn | ThreadPool | Poll | EpollLt | EpollEt | EventLoop
| Multireactor | IoUring

definition select_model :: "str \<Rightarrow> model option" where
  "select_model name =
     (if name = ''iterative'' then Some Iterative
      else if name = ''forking'' then Some Forking
      else if name = ''preforked'' then Some Preforked
      else if name = ''thread-per-conn'' then Some ThreadPerConn
      else if name = ''thread-pool'' then Some ThreadPool
      else if name = ''poll'' then Some Poll
      else if name = ''epoll-lt'' then Some EpollLt
      else if name = ''epoll-et'' then Some EpollEt
      else if name = ''event-loop'' then Some EventLoop
      else if name = ''multireactor'' then Some Multireactor
      else if name = ''io-uring'' then Some IoUring
      else None)"

definition cli_config :: "usize option \<Rightarrow> cli \<Rightarrow> config" where
  "cli_config parallelism c =
     (let cfg = (config_default parallelism)\<lparr>cfg_addr := (map char_of [0 :: nat, 0, 0, 0], cli_port c),
                  cfg_assets_dir := cli_assets_dir c\<rparr>;
          cfg = (case cli_workers c of Some w \<Rightarrow> cfg\<lparr>cfg_workers := max w 1\<rparr> | None \<Rightarrow> cfg) in
      case cli_max_connections c of Some m \<Rightarrow> cfg\<lparr>cfg_max_connections := max m 1\<rparr> | None \<Rightarrow> cfg)"

text \<open>
  The program up to its exit code; \<open>serve\<close> runs a model: it is serving, has returned or has panicked. There
  is no code while the model serves; a panic that unwinds out of \<open>main\<close> is code 101.
\<close>

datatype serve_end = Serving | Returned "io_error + unit" | Panicked

definition server_main ::
  "(model \<Rightarrow> bool \<Rightarrow> config \<Rightarrow> handler app \<Rightarrow> serve_end) \<Rightarrow> (str \<Rightarrow> listing) \<Rightarrow> usize option \<Rightarrow>
     str list \<Rightarrow> nat option" where
  "server_main serve fs parallelism args =
     (case parse_args args of
        Inl code \<Rightarrow> Some code
      | Inr c \<Rightarrow>
          (case build_app fs c of
             Inl e \<Rightarrow> Some 1
           | Inr a \<Rightarrow>
               (case select_model (cli_model c) of
                  None \<Rightarrow> Some 2
                | Some m \<Rightarrow>
                    (case serve m (cli_verbose c) (cli_config parallelism c) a of
                       Serving \<Rightarrow> None
                     | Returned (Inl e) \<Rightarrow> Some 1
                     | Returned (Inr u) \<Rightarrow> Some 0
                     | Panicked \<Rightarrow> Some 101))))"

section \<open>Properties\<close>

text \<open>Arguments that set every field of a value.\<close>

definition render_cli :: "cli \<Rightarrow> str list" where
  "render_cli c =
     [''--model'', cli_model c, ''--port'', decimal (unat (cli_port c)), ''--assets-dir'', cli_assets_dir c] @
     (if cli_verbose c then [''--verbose''] else []) @
     (case cli_workers c of None \<Rightarrow> [] | Some n \<Rightarrow> [''--workers'', decimal n]) @
     (case cli_max_connections c of None \<Rightarrow> [] | Some n \<Rightarrow> [''--max-connections'', decimal n])"

lemma number_value_decimal: "n \<le> mx \<Longrightarrow> number_value mx (decimal n # rest) = Inr (n, rest)"
  by (simp add: number_value_def expect_value_def parse_uint_decimal)

text \<open>
  C35: the command line round trip: every configuration of the command line can be written as
  arguments, and parsing them gives it back, whatever the model name and the path are.
\<close>

theorem parse_args_roundtrip:
  assumes "\<forall>n. cli_workers c = Some n \<longrightarrow> n \<le> USIZE_MAX" and "\<forall>n. cli_max_connections c = Some n \<longrightarrow> n \<le> USIZE_MAX"
  shows "parse_args (render_cli c) = Inr c"
proof -
  have port: "unat (cli_port c) \<le> 65535" using unsigned_less [of "cli_port c"] by (simp add: less_Suc_eq_le [symmetric])
  show ?thesis
    using assms port
    by (cases "cli_workers c"; cases "cli_max_connections c"; cases "cli_verbose c")
       (simp_all add: parse_args_def render_cli_def cli_default_def expect_value_def number_value_decimal)
qed

theorem parse_args_roundtrip_witness:
  "parse_args (render_cli (cli_default\<lparr>cli_model := ''--port'', cli_workers := Some 4\<rparr>)) =
     Inr (cli_default\<lparr>cli_model := ''--port'', cli_workers := Some 4\<rparr>)"
  by (rule parse_args_roundtrip) (simp_all add: cli_default_def USIZE_MAX_def)

text \<open>What a tree of files says about a name.\<close>

definition file_response :: "listing \<Rightarrow> str \<Rightarrow> response" where
  "file_response l name =
     (case map_of (rev (map file_asset (files [] l))) name of
        Some x \<Rightarrow> response_ok (a_content_type x) (a_bytes x)
      | None \<Rightarrow> response_text INTERNAL_ERROR ''asset not found in cache'')"

lemma server_call_unread: "counters_unread server_call"
proof -
  have "server_call h r a = server_call h r b" if "app_same a b" for h r a b
    using that by (cases h) (simp_all add: serve_index_def serve_style_def serve_asset_def app_same_def)
  then show ?thesis by (simp add: counters_unread_def)
qed

lemma build_app_parts:
  assumes "build_app fs c = Inr a"
  shows "readable (fs (cli_assets_dir c))"
    and "asset_get (app_assets a) = map_of (rev (map file_asset (files [] (fs (cli_assets_dir c)))))"
    and "router_map (app_router a) = [(Get, []) \<mapsto> ServeIndex, (Get, [''static'', ''style.css'']) \<mapsto> ServeStyle]"
proof -
  obtain assets where l: "load_dir (fs (cli_assets_dir c)) = Inr assets" and
    a: "a = \<lparr>app_router = router_insert (router_insert router_new Get ''/'' ServeIndex) Get ''/static/style.css'' ServeStyle,
      app_assets = assets, app_metrics = metrics_new\<rparr>"
    using assms by (auto simp: build_app_def builder_build_def builder_assets_dir_def builder_route_def
        app_builder_def split: sum.splits)
  show r: "readable (fs (cli_assets_dir c))" using l load_dir_unreadable by fastforce
  show "asset_get (app_assets a) = map_of (rev (map file_asset (files [] (fs (cli_assets_dir c)))))"
    using load_dir_readable [OF r] l a by auto
  have "segments ''/'' = []" "segments ''/static/style.css'' = [''static'', ''style.css'']" by code_simp+
  then show "router_map (app_router a) = [(Get, []) \<mapsto> ServeIndex, (Get, [''static'', ''style.css'']) \<mapsto> ServeStyle]"
    by (simp add: a router_map_insert router_map_new)
qed

lemma site_response:
  assumes "build_app fs c = Inr a" and "app_same a b"
  shows "app_handle server_call b r =
      (if rq_method r = Unsupported then response_text METHOD_NOT_ALLOWED ''405 Method Not Allowed''
       else if segments (rq_path r) = [] then file_response (fs (cli_assets_dir c)) ''index.html''
       else if segments (rq_path r) = [''static'', ''style.css'']
         then file_response (fs (cli_assets_dir c)) ''static/style.css''
       else response_text NOT_FOUND ''404 Not Found'')"
  unfolding app_handle_same [OF server_call_unread assms(2), symmetric]
  using build_app_parts(2,3) [OF assms(1)]
  by (cases "rq_method r")
     (simp_all add: app_handle_def router_lookup_map serve_index_def serve_style_def serve_asset_def
       file_response_def)

text \<open>
  The site the server serves: it starts only when the whole assets directory could be read,
  and then, at every point of its life, answers GET and HEAD of the root with the index page and
  of the style sheet with that file, byte for byte and with their types, or 500 when the
  directory has no such file; every other path gets 404 and every other method 405.
\<close>

theorem site_responses:
  assumes "build_app fs c = Inr a" and "app_same a b"
  shows "readable (fs (cli_assets_dir c)) \<and>
    app_handle server_call b r =
      (if rq_method r = Unsupported then response_text METHOD_NOT_ALLOWED ''405 Method Not Allowed''
       else if segments (rq_path r) = [] then file_response (fs (cli_assets_dir c)) ''index.html''
       else if segments (rq_path r) = [''static'', ''style.css'']
         then file_response (fs (cli_assets_dir c)) ''static/style.css''
       else response_text NOT_FOUND ''404 Not Found'')"
  using site_response [OF assms, of r] build_app_parts(1) [OF assms(1)] by simp

definition demo_site :: listing where
  "demo_site = Entries [File ''index.html'' (Inr ''hello''), SubDir ''static'' (Entries [])]"

lemma demo_site_builds: "\<exists>a. build_app (\<lambda>d. demo_site) cli_default = Inr a"
proof -
  have "build_app (\<lambda>d. demo_site) cli_default \<noteq> Inl e" for e
    by (simp add: build_app_def builder_build_def builder_assets_dir_def builder_route_def app_builder_def
        load_dir_def demo_site_def)
  then show ?thesis by (metis sum.exhaust)
qed

theorem site_responses_witness:
  "\<exists>a. build_app (\<lambda>d. demo_site) cli_default = Inr a \<and>
     app_handle server_call a \<lparr>rq_method = Get, rq_path = ''/'', rq_version = Http11, rq_headers = headers_new, rq_body = []\<rparr> =
       response_ok ''text/html; charset=utf-8'' ''hello''"
proof -
  obtain a where a: "build_app (\<lambda>d. demo_site) cli_default = Inr a" using demo_site_builds by blast
  have "file_response demo_site ''index.html'' = response_ok ''text/html; charset=utf-8'' ''hello''"
    "segments ''/'' = []" by code_simp+
  with site_responses [OF a app_same_simps(1)] a show ?thesis by simp
qed

lemma encode_head_body: "encode r ka True [] = encode r ka False [] @ body_bytes (rs_body r)"
  by (simp add: encode_def Let_def)

text \<open>
  A HEAD request gets exactly the bytes of the GET request for the same path without the
  body, so its Content-Length is the one of the GET response.
\<close>

theorem head_is_get_without_body:
  "request_response (app_handle server_call a) (r\<lparr>rq_method := Get\<rparr>) =
     request_response (app_handle server_call a) (r\<lparr>rq_method := Head\<rparr>) @
     body_bytes (rs_body (app_handle server_call a (r\<lparr>rq_method := Get\<rparr>)))"
proof -
  have "server_call h (r\<lparr>rq_method := m\<rparr>) a = server_call h (r\<lparr>rq_method := Get\<rparr>) a" for h m
    by (cases h) (simp_all add: serve_index_def serve_style_def)
  then have "app_handle server_call a (r\<lparr>rq_method := Head\<rparr>) = app_handle server_call a (r\<lparr>rq_method := Get\<rparr>)"
    by (simp add: app_handle_def split: option.split)
  moreover have "wants_keep_alive (r\<lparr>rq_method := m\<rparr>) = wants_keep_alive r" for m
    by (simp add: wants_keep_alive_def connection_has_def split: version.split)
  ultimately show ?thesis by (simp add: request_response_def encode_head_body)
qed

end
