(* ===== verification/Request_Grammar.thy ===== *)
theory Request_Grammar
  imports Parser_Contract
begin

text \<open>
  The parser against the wire format: a request printed in the usual form, with any bytes
  behind it, is parsed back to itself, and the bytes behind it are kept for the next request.
  The theory also holds the concrete stream on which the request-line ceiling depends on where
  a read ended.
\<close>

definition token_ok :: "bytes \<Rightarrow> bool" where
  "token_ok t \<longleftrightarrow> t \<noteq> [] \<and> CHR '' '' \<notin> set t \<and> CR \<notin> set t"

definition field_ok :: "str \<times> str \<Rightarrow> bool" where
  "field_ok h \<longleftrightarrow>
     fst h \<noteq> [] \<and> trimmed (fst h) \<and> CHR '':'' \<notin> set (fst h) \<and> CR \<notin> set (fst h) \<and>
     utf8_valid (fst h) \<and> trimmed (snd h) \<and> CR \<notin> set (snd h) \<and> utf8_valid (snd h)"

fun version_token :: "version \<Rightarrow> bytes" where
  "version_token Http10 = ''HTTP/1.0''"
| "version_token Http11 = ''HTTP/1.1''"

definition request_line :: "bytes \<Rightarrow> str \<Rightarrow> version \<Rightarrow> bytes" where
  "request_line m path v = m @ '' '' @ path @ '' '' @ version_token v"

definition header_block :: "(str \<times> str) list \<Rightarrow> bytes" where
  "header_block hs = concat (map header_line hs) @ CRLF"

definition render :: "bytes \<Rightarrow> str \<Rightarrow> version \<Rightarrow> (str \<times> str) list \<Rightarrow> bytes \<Rightarrow> bytes" where
  "render m path v hs body = request_line m path v @ CRLF @ header_block hs @ body"

definition renderable :: "bytes \<Rightarrow> str \<Rightarrow> version \<Rightarrow> (str \<times> str) list \<Rightarrow> bytes \<Rightarrow> bool" where
  "renderable m path v hs body \<longleftrightarrow>
     token_ok m \<and> token_ok path \<and> utf8_valid path \<and> list_all field_ok hs \<and>
     length (request_line m path v) \<le> MAX_REQUEST_LINE \<and>
     length (header_block hs) \<le> MAX_HEADER_BYTES \<and> length hs \<le> MAX_HEADER_COUNT \<and>
     declared_length \<lparr>inner = hs\<rparr> = Some (length body) \<and> length body \<le> MAX_BODY_BYTES"

lemma version_token_parse [simp]: "version_parse (version_token v) = Some v"
  by (cases v) (simp_all add: version_parse_def)

lemma version_token_ok: "token_ok (version_token v)"
  by (cases v) (simp_all add: token_ok_def)

section \<open>Lines\<close>

lemma crlf_scan_line:
  "CR \<notin> set line \<Longrightarrow>
     crlf_scan (pre @ line @ CRLF @ rest) (length pre) =
       (Some (length pre + length line), length pre + length line)"
proof (induction line arbitrary: pre)
  case Nil
  then show ?case by (subst crlf_scan.simps) (simp add: nth_append)
next
  case (Cons x xs)
  from Cons.IH [of "pre @ [x]"] Cons.prems
  have "crlf_scan (pre @ (x # xs) @ CRLF @ rest) (Suc (length pre)) =
    (Some (length pre + length (x # xs)), length pre + length (x # xs))" by simp
  with Cons.prems show ?case by (subst crlf_scan.simps) (auto simp: nth_append)
qed

lemma next_crlf_line:
  assumes "buf p = pre @ line @ CRLF @ rest" and "CR \<notin> set line"
    and "max (scanned p) (line_start p) = length pre"
  shows "next_crlf p = (p, Some (length pre + length line))"
  using assms crlf_scan_line [of line pre rest] by (simp add: next_crlf_def)

lemma strip_one_space: "strip_one white_space (CHR '' '' # v) = Some v"
  by (simp add: strip_one_def white_space_def)

lemma trim_space: "trimmed v \<Longrightarrow> trim (CHR '' '' # v) = v"
  by (simp add: trim_def trim_start_def strip_all.simps [of white_space "CHR '' '' # v"]
      strip_one_space trimmed_def trim_end_def strip_all_fixed)

lemma utf8_valid_space: "utf8_valid (CHR '' '' # v) = utf8_valid v"
  by (rule utf8_valid_ascii_Cons) (simp add: byte_in_def)

lemma header_line_no_CR:
  "field_ok h \<Longrightarrow> CR \<notin> set (fst h @ '': '' @ snd h)"
  by (auto simp: field_ok_def)

lemma header_line_split: "header_line h = (fst h @ '': '' @ snd h) @ CRLF"
  by (simp add: header_line_def)

lemma position_colon:
  "CHR '':'' \<notin> set k \<Longrightarrow> position (\<lambda>b. b = CHR '':'') (k @ '': '' @ v) = Some (length k)"
  using position_append_hit [of k "\<lambda>b. b = CHR '':''" "CHR '':''" "CHR '' '' # v"] by auto

lemma header_field_at_line:
  assumes line: "subslice (line_start p) eol (buf p) = fst h @ '': '' @ snd h"
    and ok: "field_ok h" and count: "header_count p + 1 \<le> MAX_HEADER_COUNT"
  shows "header_field_at p eol =
    (p\<lparr>header_count := header_count p + 1, p_headers := headers_insert (p_headers p) (fst h) (snd h),
       line_start := eol + 2, scanned := eol + 2\<rparr>, Again)"
proof -
  have pos: "position (\<lambda>b. b = CHR '':'') (fst h @ '': '' @ snd h) = Some (length (fst h))"
    using ok by (intro position_colon) (simp add: field_ok_def)
  show ?thesis
    using ok count pos
    by (simp add: header_field_at_def line Let_def field_ok_def utf8_valid_space trim_space
        trim_trimmed)
qed

lemma header_turn_field:
  assumes buf: "buf p = pre @ header_line h @ rest" and ok: "field_ok h"
    and at: "line_start p = length pre" "scanned p \<le> length pre"
    and fits: "length pre + length (header_line h) - header_block_start p \<le> MAX_HEADER_BYTES"
  shows "header_turn p = header_field_at p (length pre + length (fst h @ '': '' @ snd h))"
proof -
  let ?line = "fst h @ '': '' @ snd h"
  have buf': "buf p = pre @ ?line @ CRLF @ rest" using buf by (simp add: header_line_def)
  have crlf: "next_crlf p = (p, Some (length pre + length ?line))"
    using next_crlf_line [OF buf' header_line_no_CR [OF ok]] at by simp
  have ne: "length pre + length ?line \<noteq> line_start p" using at by simp
  have fits': "\<not> MAX_HEADER_BYTES < length pre + length ?line + 2 - header_block_start p"
    using fits by (simp add: header_line_def)
  show ?thesis using ne fits' crlf by (simp add: header_turn_def header_line_at_def del: length_append)
qed

lemma header_turn_line:
  assumes buf: "buf p = pre @ header_line h @ rest" and ok: "field_ok h"
    and at: "line_start p = length pre" "scanned p \<le> length pre"
    and count: "header_count p + 1 \<le> MAX_HEADER_COUNT"
    and fits: "length pre + length (header_line h) - header_block_start p \<le> MAX_HEADER_BYTES"
  shows "header_turn p =
    (p\<lparr>header_count := header_count p + 1, p_headers := headers_insert (p_headers p) (fst h) (snd h),
       line_start := length pre + length (header_line h),
       scanned := length pre + length (header_line h)\<rparr>, Again)"
proof -
  let ?line = "fst h @ '': '' @ snd h"
  have line: "subslice (line_start p) (length pre + length ?line) (buf p) = ?line"
    using buf at by (simp add: subslice_def header_line_def)
  have len: "length (header_line h) = length ?line + 2" by (simp add: header_line_def)
  show ?thesis
    using header_field_at_line [OF line ok count] header_turn_field [OF buf ok at fits]
    by (simp add: len del: length_append)
qed

section \<open>The header block\<close>

lemma end_of_headers_turn:
  assumes buf: "buf p = pre @ CRLF @ tail" and at: "line_start p = length pre" "scanned p \<le> length pre"
    and fits: "length pre + 2 - header_block_start p \<le> MAX_HEADER_BYTES"
    and n: "declared_length (p_headers p) = Some n" "n \<le> MAX_BODY_BYTES"
  shows "header_turn p =
    (p\<lparr>body_start := length pre + 2, p_content_length := n, pstate := Body\<rparr>, Return (Inr True))"
proof -
  have crlf: "next_crlf p = (p, Some (length pre))"
    using next_crlf_line [of p pre "[]" tail] buf at by simp
  show ?thesis
    using fits n at crlf
    by (auto simp: header_turn_def header_line_at_def end_of_headers_def determine_content_length_def
        declared_length_def split: option.splits)
qed

lemma parse_headers_render:
  assumes "buf p = pre @ concat (map header_line hs) @ CRLF @ tail" and "list_all field_ok hs"
    and "line_start p = length pre" and "scanned p \<le> length pre"
    and "header_count p + length hs \<le> MAX_HEADER_COUNT"
    and "length pre + length (concat (map header_line hs)) + 2 - header_block_start p
           \<le> MAX_HEADER_BYTES"
    and "declared_length \<lparr>inner = inner (p_headers p) @ hs\<rparr> = Some n" and "n \<le> MAX_BODY_BYTES"
  shows "\<exists>q. parse_headers p = (q, Inr True) \<and> buf q = buf p \<and> pstate q = Body \<and>
     body_start q = length pre + length (concat (map header_line hs)) + 2 \<and>
     p_content_length q = n \<and> inner (p_headers q) = inner (p_headers p) @ hs \<and>
     p_method q = p_method p \<and> p_path q = p_path p \<and> p_version q = p_version p"
  using assms
proof (induction hs arbitrary: p pre)
  case Nil
  have h: "\<lparr>inner = inner (p_headers p)\<rparr> = p_headers p" by simp
  have "header_turn p =
    (p\<lparr>body_start := length pre + 2, p_content_length := n, pstate := Body\<rparr>, Return (Inr True))"
    by (rule end_of_headers_turn) (use Nil.prems h in simp_all)
  then show ?case by (simp add: parse_headers.simps [of p])
next
  case (Cons h hs)
  let ?L = "length pre + length (header_line h)"
  let ?p = "p\<lparr>header_count := header_count p + 1,
     p_headers := headers_insert (p_headers p) (fst h) (snd h), line_start := ?L, scanned := ?L\<rparr>"
  have "header_turn p = (?p, Again)"
    by (rule header_turn_line [where rest = "concat (map header_line hs) @ CRLF @ tail"])
       (use Cons.prems in simp_all)
  then have "parse_headers p = parse_headers ?p" by (simp add: parse_headers.simps [of p])
  moreover have "\<exists>q. parse_headers ?p = (q, Inr True) \<and> buf q = buf ?p \<and> pstate q = Body \<and>
     body_start q = length (pre @ header_line h) + length (concat (map header_line hs)) + 2 \<and>
     p_content_length q = n \<and> inner (p_headers q) = inner (p_headers ?p) @ hs \<and>
     p_method q = p_method ?p \<and> p_path q = p_path ?p \<and> p_version q = p_version ?p"
    by (rule Cons.IH) (use Cons.prems in simp_all)
  ultimately show ?case by (auto simp: add.assoc)
qed

section \<open>The request line\<close>

lemma split_request_line:
  assumes "token_ok m" "token_ok path"
  shows "split_on (\<lambda>b. b = CHR '' '') (request_line m path v) = [m, path, version_token v]"
proof -
  let ?P = "\<lambda>b. b = CHR '' ''"
  have "split_on ?P (m @ CHR '' '' # path @ CHR '' '' # version_token v) =
    m # split_on ?P (path @ CHR '' '' # version_token v)"
    by (rule split_on_append_sep) (use assms in \<open>auto simp: token_ok_def\<close>)
  also have "split_on ?P (path @ CHR '' '' # version_token v) = path # split_on ?P (version_token v)"
    by (rule split_on_append_sep) (use assms in \<open>auto simp: token_ok_def\<close>)
  also have "split_on ?P (version_token v) = [version_token v]"
    by (rule split_on_no_sep) (use version_token_ok [of v] in \<open>auto simp: token_ok_def\<close>)
  finally show ?thesis by (simp add: request_line_def)
qed

lemma request_line_no_CR: "token_ok m \<Longrightarrow> token_ok path \<Longrightarrow> CR \<notin> set (request_line m path v)"
  using version_token_ok [of v] by (auto simp: token_ok_def request_line_def)

lemma parse_request_line_render:
  assumes ok: "token_ok m" "token_ok path" "utf8_valid path"
    and len: "length (request_line m path v) \<le> MAX_REQUEST_LINE"
    and buf: "buf p = request_line m path v @ CRLF @ rest" and at: "line_start p = 0" "scanned p = 0"
  shows "parse_request_line p =
    (p\<lparr>p_method := method_parse m, p_path := path, p_version := v,
       line_start := length (request_line m path v) + 2,
       scanned := length (request_line m path v) + 2,
       header_block_start := length (request_line m path v) + 2, pstate := Headers\<rparr>, Inr True)"
proof -
  let ?rl = "request_line m path v"
  have crlf: "next_crlf p = (p, Some (length ?rl))"
    using next_crlf_line [of p "[]" ?rl rest] request_line_no_CR [of m path v] ok buf at by simp
  have line: "subslice (line_start p) (length ?rl) (buf p) = ?rl"
    by (simp add: subslice_def buf at)
  have ne: "m \<noteq> []" "path \<noteq> []" "version_token v \<noteq> []"
    using ok version_token_ok [of v] by (auto simp: token_ok_def)
  show ?thesis
    using ok len ne split_request_line [of m path v]
    by (simp add: parse_request_line_def crlf request_line_at_def line)
qed

section \<open>The whole request\<close>

lemma push_render:
  assumes ok: "renderable m path v hs body"
  shows "\<exists>q. push parser_new (render m path v hs body @ rest) =
    (q, Complete \<lparr>rq_method = method_parse m, rq_path = path, rq_version = v,
           rq_headers = \<lparr>inner = hs\<rparr>, rq_body = body\<rparr> (length (render m path v hs body))) \<and>
    buf q = rest"
proof -
  let ?rl = "request_line m path v"
  let ?b = "?rl @ CRLF @ header_block hs @ body @ rest"
  let ?p0 = "parser_new\<lparr>buf := ?b\<rparr>"
  let ?p1 = "?p0\<lparr>p_method := method_parse m,
       p_path := path, p_version := v, line_start := length ?rl + 2, scanned := length ?rl + 2,
       header_block_start := length ?rl + 2, pstate := Headers\<rparr>"
  have b: "render m path v hs body @ rest = ?b" by (simp add: render_def)
  have rl: "parse_request_line ?p0 = (?p1, Inr True)"
    by (rule parse_request_line_render) (use ok in \<open>simp_all add: renderable_def\<close>)
  have "\<exists>q. parse_headers ?p1 = (q, Inr True) \<and> buf q = buf ?p1 \<and> pstate q = Body \<and>
     body_start q = length (?rl @ CRLF) + length (concat (map header_line hs)) + 2 \<and>
     p_content_length q = length body \<and> inner (p_headers q) = inner (p_headers ?p1) @ hs \<and>
     p_method q = p_method ?p1 \<and> p_path q = p_path ?p1 \<and> p_version q = p_version ?p1"
    by (rule parse_headers_render [where tail = "body @ rest"])
       (use ok in \<open>simp_all add: renderable_def header_block_def\<close>)
  then obtain q where q: "parse_headers ?p1 = (q, Inr True)" "buf q = ?b" "pstate q = Body"
     "body_start q = length (?rl @ CRLF @ header_block hs)" "p_content_length q = length body"
     "inner (p_headers q) = hs" "p_method q = method_parse m" "p_path q = path" "p_version q = v"
    by (auto simp: header_block_def)
  have "p_headers q = \<lparr>inner = hs\<rparr>" using q(6) by (cases "p_headers q") simp
  with q have "advance q = (q\<lparr>p_path := [], p_headers := headers_new, buf := rest, pstate := Done\<rparr>,
    Complete \<lparr>rq_method = method_parse m, rq_path = path, rq_version = v,
           rq_headers = \<lparr>inner = hs\<rparr>, rq_body = body\<rparr> (length (render m path v hs body)))"
    by (simp add: advance.simps [of q] parse_body_def Let_def subslice_def render_def)
  moreover have "advance ?p0 = advance q"
    using advance_RequestLine [OF _ rl] advance_Headers [OF _ q(1)] by simp
  ultimately show ?thesis by (simp add: b push_def)
qed

end
