(* ===== verification/Parser_Properties.thy ===== *)
theory Parser_Properties
  imports Parser_Contract Request_Grammar
begin

text \<open>
  The properties of the request parser, over the states its owner can bring it to: a new
  parser, fed any bytes any number of times, and reset once it has completed a request.
\<close>

inductive parser_reach :: "request_parser \<Rightarrow> bool" where
  reach_new: "parser_reach parser_new"
| reach_push: "parser_reach p \<Longrightarrow> parser_reach (fst (push p bs))"
| reach_reset: "parser_reach p \<Longrightarrow> pstate p \<noteq> Done \<Longrightarrow> push p bs = (q, Complete r n) \<Longrightarrow>
     parser_reach (reset q)"

text \<open>Every slice index the parser uses in its current phase.\<close>

definition indices_ok :: "request_parser \<Rightarrow> bool" where
  "indices_ok p \<longleftrightarrow>
     (case pstate p of
        RequestLine \<Rightarrow> line_start p \<le> length (buf p) \<and> scanned p \<le> length (buf p)
      | Headers \<Rightarrow> header_block_start p \<le> line_start p \<and> line_start p \<le> length (buf p) \<and>
          scanned p \<le> length (buf p)
      | Body \<Rightarrow> body_start p \<le> length (buf p) \<and> p_content_length p \<le> MAX_BODY_BYTES
      | Done \<Rightarrow> True)"

lemma push_Complete_reset:
  assumes "wf_parser p" and "pstate p \<noteq> Done" and "push p bs = (q, Complete r n)"
  shows "reset q = parser_new\<lparr>buf := drop n (buf p @ bs)\<rparr>"
  using push_outcome [OF assms(1,2), of bs] assms(3) reset_Complete [of q]
  by (simp add: outcome_ok_def)

lemma parser_reach_wf: "parser_reach p \<Longrightarrow> wf_parser p"
proof (induction rule: parser_reach.induct)
  case (reach_reset p bs q r n)
  then show ?case by (simp add: push_Complete_reset wf_parser_def)
qed (auto intro: wf_intros)

lemma wf_indices_ok: "wf_parser p \<Longrightarrow> indices_ok p"
  by (cases "pstate p") (auto simp: wf_parser_def indices_ok_def)

text \<open>
  C5: a parser that is pushed the reads of a stream one after the other ends with the status
  that one push of the whole stream to a new parser has, whatever the reads are: an incomplete
  request, the same request with the same number of bytes consumed, or the same error. The
  error for a request line that is too long is excluded; it is the one answer that depends on
  where a read ends.
\<close>

theorem push_chunks:
  assumes "feed push parser_new cs = (q, st)" and "st \<noteq> Failed RequestLineTooLong"
  shows "snd (push parser_new (concat cs)) = st"
  by (rule rp.feed_status [OF assms(1)]) (use assms(2) in \<open>auto simp: split_cr_boundary_def\<close>)

theorem push_chunks_witness:
  "snd (push parser_new (concat [''GET /a'', '' HTTP/1.1'' @ [CR], [LF] @ CRLF @ ''x''])) =
     snd (feed push parser_new [''GET /a'', '' HTTP/1.1'' @ [CR], [LF] @ CRLF @ ''x''])"
  by (rule push_chunks [of _ "fst (feed push parser_new
        [''GET /a'', '' HTTP/1.1'' @ [CR], [LF] @ CRLF @ ''x''])"]) (simp, code_simp)

text \<open>
  A push that is answered with \<open>Incomplete\<close> can be resumed from any reachable state: the
  next push has the status that one push of both byte strings would have had, and leaves the
  parser in the same state up to the cached scan position, with the same bytes buffered.
\<close>

theorem push_resume:
  assumes "push p a = (q, Incomplete)"
  shows "snd (push q b) = snd (push p (a @ b)) \<and> buf (fst (push q b)) = buf (fst (push p (a @ b))) \<and>
    pstate (fst (push q b)) = pstate (fst (push p (a @ b)))"
  using push_push [OF assms, of b] by (auto simp: same_outcome_def par_eq_def)

theorem push_resume_witness:
  "snd (push (fst (push parser_new ''GET /'')) ('' HTTP/1.1'' @ CRLF @ CRLF)) =
     snd (push parser_new (''GET /'' @ '' HTTP/1.1'' @ CRLF @ CRLF))"
  by (rule push_resume [of parser_new "''GET /''", THEN conjunct1]) code_simp

text \<open>
  C8: whatever bytes arrive, in whatever pieces, every index the parser slices its buffer with
  is inside the buffer, so no byte sequence makes it panic.
\<close>

theorem parser_indices_in_range:
  assumes "parser_reach p"
  shows "indices_ok p"
  by (rule wf_indices_ok [OF parser_reach_wf [OF assms]])

theorem parser_indices_in_range_witness:
  "indices_ok (fst (push (fst (push parser_new (''GET / HTTP/1.1'' @ CRLF))) ''Host''))"
  by (rule parser_indices_in_range) (intro reach_push reach_new)

text \<open>
  C9: the memory a connection can make the parser hold is bounded: a parser that asks for more
  bytes has at most one request line, one header block and one body buffered, whatever was sent.
\<close>

theorem incomplete_bounded:
  assumes "parser_reach p" and "pstate p \<noteq> Done" and "push p bs = (q, Incomplete)"
  shows "length (buf q) \<le> MAX_REQUEST_LINE + 2 + MAX_HEADER_BYTES + MAX_BODY_BYTES"
  using push_outcome [OF parser_reach_wf [OF assms(1)] assms(2), of bs] assms(3)
  by (simp add: outcome_ok_def MAX_BUFFERED_def)

theorem incomplete_bounded_witness:
  "length (buf (fst (push parser_new ''POST /form''))) \<le>
     MAX_REQUEST_LINE + 2 + MAX_HEADER_BYTES + MAX_BODY_BYTES"
proof -
  have "snd (push parser_new ''POST /form'') = Incomplete" by code_simp
  then have "push parser_new ''POST /form'' = (fst (push parser_new ''POST /form''), Incomplete)"
    by (metis prod.collapse)
  from incomplete_bounded [OF reach_new _ this] show ?thesis by simp
qed



text \<open>
  A pipelined request is not lost: after a completed request, a reset parser answers any
  further bytes as a new parser answers the bytes left over followed by them.
\<close>

theorem reset_keeps_pipelined:
  assumes "parser_reach p" and "pstate p \<noteq> Done" and "push p bs = (q, Complete r n)"
  shows "push (reset q) b = push parser_new (drop n (buf p @ bs) @ b)"
  using push_Complete_reset [OF parser_reach_wf [OF assms(1)] assms(2,3)]
  by (simp add: push_def parser_new_def)

theorem reset_keeps_pipelined_witness:
  "push (reset (fst (push parser_new (''GET / HTTP/1.1'' @ CRLF @ CRLF @ ''GET /b'')))) ''c'' =
     push parser_new (''GET /bc'')"
proof -
  let ?s = "''GET / HTTP/1.1'' @ CRLF @ CRLF @ ''GET /b''"
  have "(case snd (push parser_new ?s) of Complete r n \<Rightarrow> n = 18 | _ \<Rightarrow> False)" by code_simp
  then obtain r where "snd (push parser_new ?s) = Complete r 18"
    by (auto split: parse_status.splits)
  then have "push parser_new ?s = (fst (push parser_new ?s), Complete r 18)"
    by (metis prod.collapse)
  from reset_keeps_pipelined [OF reach_new _ this, of "''c''"] show ?thesis
    by simp
qed

text \<open>
  C6: every well-formed request within the limits is parsed back to its parts: method, path,
  version, header fields in order and body, with exactly its own bytes consumed and whatever
  follows it left in the buffer.
\<close>

theorem render_roundtrip:
  assumes "renderable m path v hs body"
  shows "\<exists>q. push parser_new (render m path v hs body @ rest) =
    (q, Complete \<lparr>rq_method = method_parse m, rq_path = path, rq_version = v,
           rq_headers = \<lparr>inner = hs\<rparr>, rq_body = body\<rparr> (length (render m path v hs body))) \<and>
    buf q = rest"
  by (rule push_render [OF assms])

theorem render_roundtrip_witness:
  "\<exists>q. push parser_new
      (render ''POST'' ''/form'' Http11 [(''Host'', ''a b''), (''Content-Length'', ''3'')] ''xyz'' @ ''G'') =
    (q, Complete \<lparr>rq_method = method_parse ''POST'', rq_path = ''/form'', rq_version = Http11,
           rq_headers = \<lparr>inner = [(''Host'', ''a b''), (''Content-Length'', ''3'')]\<rparr>, rq_body = ''xyz''\<rparr>
        (length (render ''POST'' ''/form'' Http11 [(''Host'', ''a b''), (''Content-Length'', ''3'')] ''xyz''))) \<and>
    buf q = ''G''"
  by (rule render_roundtrip) code_simp

section \<open>A request line that ends at the limit\<close>

lemma crlf_scan_trailing_CR:
  "CR \<notin> set l \<Longrightarrow> i \<le> length l \<Longrightarrow> crlf_scan (l @ [CR]) i = (None, length l)"
proof (induction "length l - i" arbitrary: i)
  case 0
  then show ?case by (subst crlf_scan.simps) simp
next
  case (Suc k)
  then have "i < length l" by simp
  then have "(l @ [CR]) ! i \<noteq> CR" using Suc.prems(1) by (auto simp: nth_append in_set_conv_nth)
  with Suc \<open>i < length l\<close> show ?case by (subst crlf_scan.simps) simp
qed

definition longest_line :: bytes where
  "longest_line = request_line ''GET'' (''/'' @ replicate 8178 (CHR ''a'')) Http11"

lemma longest_line_facts:
  "length longest_line = MAX_REQUEST_LINE" "CR \<notin> set longest_line"
  "longest_line @ CRLF @ CRLF = render ''GET'' (''/'' @ replicate 8178 (CHR ''a'')) Http11 [] []"
  "length (render ''GET'' (''/'' @ replicate 8178 (CHR ''a'')) Http11 [] []) = MAX_REQUEST_LINE + 4"
  by (simp_all add: longest_line_def request_line_def MAX_REQUEST_LINE_def render_def header_block_def)

lemma longest_line_renderable:
  "renderable ''GET'' (''/'' @ replicate 8178 (CHR ''a'')) Http11 [] []"
proof -
  have "utf8_valid (''/'' @ replicate 8178 (CHR ''a''))"
    by (rule utf8_valid_ascii) (auto simp: byte_in_def)
  then show ?thesis
    by (simp add: renderable_def token_ok_def request_line_def header_block_def declared_length_def
        limit_defs headers_get_def)
qed

lemma push_longest_line_CR:
  "snd (push parser_new (longest_line @ [CR])) = Failed RequestLineTooLong"
  using crlf_scan_trailing_CR [OF longest_line_facts(2), of 0]
  by (simp add: push_def advance.simps [of "parser_new\<lparr>buf := longest_line @ [CR]\<rparr>"]
      parse_request_line_def next_crlf_def fail_def longest_line_facts(1))

text \<open>
  C16: the limit on the request line depends on where a read ends. A line of exactly
  \<open>MAX_REQUEST_LINE\<close> bytes is accepted when the read that brings its end holds both bytes of
  the CRLF, and refused as too long when the read ends between them, since the check on an
  unfinished line counts the CR as a byte of the line.
\<close>

theorem request_line_limit_depends_on_reads:
  "\<exists>line. length line = MAX_REQUEST_LINE \<and>
     (\<exists>r. snd (push parser_new (line @ CRLF @ CRLF)) = Complete r (MAX_REQUEST_LINE + 4)) \<and>
     snd (feed push parser_new [line @ [CR], [LF] @ CRLF]) = Failed RequestLineTooLong"
proof (intro exI conjI)
  show "length longest_line = MAX_REQUEST_LINE" by (rule longest_line_facts)
  show "snd (push parser_new (longest_line @ CRLF @ CRLF)) = Complete
     \<lparr>rq_method = method_parse ''GET'', rq_path = ''/'' @ replicate 8178 (CHR ''a''),
        rq_version = Http11, rq_headers = \<lparr>inner = []\<rparr>, rq_body = []\<rparr> (MAX_REQUEST_LINE + 4)"
    using push_render [OF longest_line_renderable, of "[]"]
    unfolding longest_line_facts(3,4) by auto
  show "snd (feed push parser_new [longest_line @ [CR], [LF] @ CRLF]) = Failed RequestLineTooLong"
    using push_longest_line_CR by (auto split: prod.splits)
qed

end
