(* ===== verification/Loadgen_Client.thy ===== *)
theory Loadgen_Client
  imports Server_Main Parser_Properties
begin

text \<open>
  The client side of the load generator, \<open>loadgen/src/main.rs\<close>: the request it sends, and
  \<open>send_and_read\<close> with \<open>header_value\<close>, which consume one response. A reader is the bytes that will
  arrive and how the stream goes on behind them: it ends, or reading fails with an error.
\<close>

section \<open>Reading\<close>

type_synonym reader = "bytes \<times> io_error option"

text \<open>
  \<open>BufRead::read_line\<close>: the bytes up to and with the next line feed, or what is left at the end of
  the stream; they have to be UTF-8.
\<close>

definition read_line :: "reader \<Rightarrow> reader \<times> (io_error + str)" where
  "read_line r =
     (case position (\<lambda>c. c = LF) (fst r) of
        Some i \<Rightarrow>
          let l = take (i + 1) (fst r) in
          ((drop (i + 1) (fst r), snd r), if utf8_valid l then Inr l else Inl InvalidData)
      | None \<Rightarrow>
          (([], snd r),
           case snd r of Some e \<Rightarrow> Inl e | None \<Rightarrow> if utf8_valid (fst r) then Inr (fst r) else Inl InvalidData))"

text \<open>\<open>Read::read_exact\<close>.\<close>

definition read_exact :: "usize \<Rightarrow> reader \<Rightarrow> reader \<times> (io_error + bytes)" where
  "read_exact n r =
     (if n \<le> length (fst r) then ((drop n (fst r), snd r), Inr (take n (fst r)))
      else (([], snd r), case snd r of Some e \<Rightarrow> Inl e | None \<Rightarrow> Inl UnexpectedEof))"

definition header_value :: "str \<Rightarrow> str \<Rightarrow> str option" where
  "header_value line name =
     (case splitn2 (CHR '':'') line of
        (raw_name, Some raw_value) \<Rightarrow> if eq_ignore_ascii_case (trim raw_name) name then Some raw_value else None
      | (raw_name, None) \<Rightarrow> None)"

lemma read_line_shorter:
  "read_line r = (r', Inr line) \<Longrightarrow> line \<noteq> [] \<Longrightarrow> length (fst r') < length (fst r)"
  by (auto simp: read_line_def Let_def split: option.splits if_splits dest: position_SomeD)

text \<open>The loop over the status line and the header fields; its value is the length of the body.\<close>

function read_head :: "reader \<Rightarrow> usize \<Rightarrow> reader \<times> (io_error + usize)" where
  "read_head r len =
     (case read_line r of
        (r', Inl e) \<Rightarrow> (r', Inl e)
      | (r', Inr line) \<Rightarrow>
          if line = [] then (r', Inl UnexpectedEof)
          else if line = CRLF \<or> line = [LF] then (r', Inr len)
          else (case header_value line ''content-length'' of
              Some value \<Rightarrow>
                (case parse_usize (trim value) of
                   None \<Rightarrow> (r', Inl InvalidData)
                 | Some n \<Rightarrow> read_head r' n)
            | None \<Rightarrow> read_head r' len))"
  by pat_completeness auto
termination
  by (relation "measure (\<lambda>(r, n). length (fst r))") (auto dest!: read_line_shorter [OF sym])

declare read_head.simps [simp del]

text \<open>\<open>send_and_read\<close>: \<open>sent\<close> is the error of writing and flushing the request, if any.\<close>

definition send_and_read :: "io_error option \<Rightarrow> reader \<Rightarrow> reader \<times> (io_error + unit)" where
  "send_and_read sent r =
     (case sent of
        Some e \<Rightarrow> (r, Inl e)
      | None \<Rightarrow>
          (case read_head r 0 of
             (r', Inl e) \<Rightarrow> (r', Inl e)
           | (r', Inr n) \<Rightarrow>
               if n > 0 then (case read_exact n r' of (r'', Inl e) \<Rightarrow> (r'', Inl e) | (r'', Inr body) \<Rightarrow> (r'', Inr ()))
               else (r', Inr ())))"

definition lg_request :: "str \<Rightarrow> bytes" where
  "lg_request target =
     ''GET / HTTP/1.1'' @ CRLF @ ''Host: '' @ target @ CRLF @ ''Connection: keep-alive'' @ CRLF @ CRLF"

section \<open>Lines of a response\<close>

lemma utf8_head_append: "utf8_head s = Some n \<Longrightarrow> utf8_head (s @ t) = Some n"
  by (cases s; cases "tl s"; cases "tl (tl s)"; cases "tl (tl (tl s))")
     (auto simp: utf8_head_def split: if_splits)

lemma utf8_valid_append: "utf8_valid s \<Longrightarrow> utf8_valid t \<Longrightarrow> utf8_valid (s @ t)"
proof (induction s rule: utf8_valid.induct)
  case (1 s)
  show ?case
  proof (cases "s = []")
    case False
    with "1.prems"(1) obtain n where n: "utf8_head s = Some n" "utf8_valid (drop n s)"
      by (subst (asm) utf8_valid.simps) (auto split: option.splits)
    with "1.IH" [OF n(1) n(2) "1.prems"(2)] have "utf8_valid (drop n s @ t)" by simp
    with n utf8_head_bounds [OF n(1)] show ?thesis
      by (subst utf8_valid.simps) (simp add: utf8_head_append [OF n(1)])
  qed (use "1.prems" in simp)
qed

lemma utf8_valid_CRLF: "utf8_valid CRLF" "utf8_valid '': ''"
  by (rule utf8_valid_ascii, simp add: byte_in_def)+

lemma read_line_CRLF:
  assumes "LF \<notin> set l" and "utf8_valid l"
  shows "read_line (l @ CRLF @ rest, e) = ((rest, e), Inr (l @ CRLF))"
proof -
  have "position (\<lambda>c. c = LF) ((l @ [CR]) @ LF # rest) = Some (length l + 1)"
    using position_append_hit [of "l @ [CR]" "\<lambda>c. c = LF" LF rest] assms(1) by auto
  with utf8_valid_append [OF assms(2) utf8_valid_CRLF(1)] show ?thesis
    by (simp add: read_line_def)
qed

lemma splitn2_hit: "c \<notin> set k \<Longrightarrow> splitn2 c (k @ c # v) = (k, Some v)"
  by (induction k) (auto simp: splitn2_def)

lemma splitn2_miss: "c \<notin> set k \<Longrightarrow> splitn2 c k = (k, None)"
  by (induction k) (auto simp: splitn2_def split: list.splits)

lemma strip_one_first:
  "\<forall>w \<in> set ws. w \<noteq> [] \<and> hd w \<noteq> c \<Longrightarrow> strip_one ws (c # s) = None"
proof -
  assume first: "\<forall>w \<in> set ws. w \<noteq> [] \<and> hd w \<noteq> c"
  have "\<not> (w \<noteq> [] \<and> prefix w (c # s))" if "w \<in> set ws" for w
    using first that by (cases w) auto
  then have "List.find (\<lambda>w. w \<noteq> [] \<and> prefix w (c # s)) ws = None" by (auto simp: find_None_iff)
  then show ?thesis by (simp add: strip_one_def)
qed

lemma strip_digit:
  assumes "byte_in 48 57 c"
  shows "strip_one white_space (c # s) = None" "strip_one (map rev white_space) (c # s) = None"
proof -
  have "list_all (\<lambda>w. w \<noteq> [] \<and> \<not> byte_in 48 57 (hd w)) white_space"
    "list_all (\<lambda>w. w \<noteq> [] \<and> \<not> byte_in 48 57 (hd w)) (map rev white_space)"
    by code_simp+
  with assms show "strip_one white_space (c # s) = None" "strip_one (map rev white_space) (c # s) = None"
    by (intro strip_one_first; force simp: list_all_iff)+
qed

lemma trimmed_decimal: "trimmed (decimal n)"
proof -
  obtain c s where d: "decimal n = c # s" by (cases "decimal n") auto
  obtain c' s' where d': "rev (decimal n) = c' # s'" by (cases "rev (decimal n)") auto
  have "byte_in 48 57 c" using decimal_digits [of c n] d by simp
  moreover have "byte_in 48 57 c'"
    using decimal_digits [of c' n] d' by (metis list.set_intros(1) set_rev)
  ultimately show ?thesis by (simp add: trimmed_def d' strip_digit) (simp add: d strip_digit)
qed

lemma strip_line_end:
  "strip_one (map rev white_space) (LF # s) = Some s" "strip_one (map rev white_space) (CR # s) = Some s"
  by (simp_all add: strip_one_def white_space_def)

lemma trim_decimal: "trim (CHR '' '' # decimal n @ CRLF) = decimal n"
proof -
  obtain c s where d: "decimal n = c # s" by (cases "decimal n") auto
  have "byte_in 48 57 c" using decimal_digits [of c n] d by simp
  then have "trim_start (CHR '' '' # decimal n @ CRLF) = decimal n @ CRLF"
    by (simp add: trim_start_def strip_all.simps [of white_space "CHR '' '' # _"] strip_one_space
        strip_all_fixed d strip_digit)
  moreover have "strip_all (map rev white_space) (LF # CR # rev (decimal n)) = rev (decimal n)"
    using trimmed_decimal [of n]
    by (simp add: strip_all.simps [of _ "LF # _"] strip_all.simps [of _ "CR # _"] strip_line_end
        strip_all_fixed trimmed_def)
  ultimately show ?thesis by (simp add: trim_def trim_end_def)
qed

section \<open>One response\<close>

text \<open>A header field that a client can read: one line, a name without a colon or blanks around it.\<close>

definition readable_field :: "str \<times> str \<Rightarrow> bool" where
  "readable_field h \<longleftrightarrow>
     LF \<notin> set (fst h) \<and> CHR '':'' \<notin> set (fst h) \<and> trimmed (fst h) \<and> utf8_valid (fst h) \<and>
     LF \<notin> set (snd h) \<and> utf8_valid (snd h)"

lemma header_value_field:
  assumes "readable_field h"
  shows "header_value (fst h @ '': '' @ snd h @ CRLF) name =
    (if eq_ignore_ascii_case (fst h) name then Some (CHR '' '' # snd h @ CRLF) else None)"
  using assms splitn2_hit [of "CHR '':''" "fst h" "CHR '' '' # snd h @ CRLF"]
  by (simp add: header_value_def readable_field_def trim_trimmed)

lemma read_line_field:
  assumes "readable_field h"
  shows "read_line (header_line h @ rest, e) = ((rest, e), Inr (fst h @ '': '' @ snd h @ CRLF))"
proof -
  have "utf8_valid (fst h @ '': '' @ snd h)"
    using assms utf8_valid_append utf8_valid_CRLF(2) unfolding readable_field_def by blast
  with read_line_CRLF [of "fst h @ '': '' @ snd h" rest e] assms show ?thesis
    by (auto simp: header_line_def readable_field_def)
qed

lemma read_head_fields:
  assumes "list_all readable_field hs"
    and "\<And>h. h \<in> set hs \<Longrightarrow> eq_ignore_ascii_case (fst h) ''content-length'' \<Longrightarrow> snd h = decimal len"
    and "len \<le> USIZE_MAX"
  shows "read_head (concat (map header_line hs) @ CRLF @ rest, e) n =
    ((rest, e), Inr (if \<exists>h \<in> set hs. eq_ignore_ascii_case (fst h) ''content-length'' then len else n))"
  using assms(1,2)
proof (induction hs arbitrary: n)
  case Nil
  show ?case
    using read_line_CRLF [of "[]" rest e] by (subst read_head.simps) simp
next
  case (Cons h hs)
  let ?line = "fst h @ '': '' @ snd h @ CRLF"
  have h: "readable_field h" and hs: "list_all readable_field hs" using Cons.prems(1) by simp_all
  have l: "?line \<noteq> []" "?line \<noteq> CRLF" "?line \<noteq> [LF]" 
    using in_set_conv_decomp [of "CHR '':''" ?line] by auto
  have rl: "read_line (concat (map header_line (h # hs)) @ CRLF @ rest, e) =
      ((concat (map header_line hs) @ CRLF @ rest, e), Inr ?line)"
    using read_line_field [OF h, of "concat (map header_line hs) @ CRLF @ rest" e] by simp
  show ?case
  proof (cases "eq_ignore_ascii_case (fst h) ''content-length''")
    case True
    then have "snd h = decimal len" using Cons.prems(2) [of h] by simp
    with True header_value_field [OF h, of "''content-length''"]
    have "header_value ?line ''content-length'' = Some (CHR '' '' # decimal len @ CRLF)" by simp
    with True rl l Cons.IH [OF hs, of len] Cons.prems(2) show ?thesis
      by (subst read_head.simps) (simp add: trim_decimal parse_uint_decimal [OF assms(3)])
  next
    case False
    with header_value_field [OF h, of "''content-length''"]
    have "header_value ?line ''content-length'' = None" by simp
    with \<open>\<not> eq_ignore_ascii_case _ _\<close> rl l Cons.IH [OF hs, of n] Cons.prems(2) show ?thesis
      by (subst read_head.simps) simp
  qed
qed

lemma reason_ascii: "c \<in> set (reason s) \<Longrightarrow> byte_in 32 122 c \<and> c \<noteq> CHR '':''"
proof -
  have "list_all (\<lambda>c. byte_in 32 122 c \<and> c \<noteq> CHR '':'') (reason s)"
    by (simp add: reason_def Let_def byte_in_def)
  then show "c \<in> set (reason s) \<Longrightarrow> byte_in 32 122 c \<and> c \<noteq> CHR '':''" by (simp add: list_all_iff)
qed

lemma read_head_status:
  "read_head (status_line r @ rest, e) n = read_head (rest, e) n"
proof -
  let ?l = "''HTTP/1.1 '' @ decimal (unat (sc_code (rs_status r))) @ '' '' @ reason (rs_status r)"
  have chars: "byte_in 32 122 c \<and> c \<noteq> CHR '':''" if "c \<in> set ?l" for c
    using that decimal_digits [of c "unat (sc_code (rs_status r))"] reason_ascii [of c "rs_status r"]
    by (auto simp: byte_in_def)
  have "LF \<notin> set ?l" using chars [of LF] by (auto simp: byte_in_def)
  moreover have "utf8_valid ?l"
  proof (rule utf8_valid_ascii, rule ballI)
    show "byte_in 0 0x7F c" if "c \<in> set ?l" for c using chars [OF that] by (simp add: byte_in_def)
  qed
  ultimately have rl: "read_line (status_line r @ rest, e) = ((rest, e), Inr (?l @ CRLF))"
    using read_line_CRLF [of ?l rest e] by (simp add: status_line_def)
  have "CHR '':'' \<notin> set (?l @ CRLF)" using chars [of "CHR '':''"] by auto
  from splitn2_miss [OF this] have "header_value (?l @ CRLF) ''content-length'' = None"
    by (simp only: header_value_def prod.case option.case)
  with rl show ?thesis by (subst read_head.simps) simp
qed

lemma read_response:
  assumes "body_usize r" and "list_all readable_field (wire_headers r ka)"
  shows "send_and_read None (encode r ka True [] @ rest, e) = ((rest, e), Inr ())"
proof -
  let ?b = "body_bytes (rs_body r)"
  have cl: "filter (\<lambda>h. eq_ignore_ascii_case (fst h) ''content-length'') (wire_headers r ka) =
      [(''Content-Length'', decimal (length ?b))]" by (rule wire_headers_content_length)
  have one: "snd h = decimal (length ?b)"
    if "h \<in> set (wire_headers r ka)" "eq_ignore_ascii_case (fst h) ''content-length''" for h
  proof -
    have "h \<in> set (filter (\<lambda>h. eq_ignore_ascii_case (fst h) ''content-length'') (wire_headers r ka))"
      using that by simp
    then show ?thesis using cl by simp
  qed
  have ex: "\<exists>h \<in> set (wire_headers r ka). eq_ignore_ascii_case (fst h) ''content-length''"
  proof (rule ccontr)
    assume "\<not> ?thesis"
    then have "filter (\<lambda>h. eq_ignore_ascii_case (fst h) ''content-length'') (wire_headers r ka) = []"
      by (auto simp: filter_empty_conv)
    with cl show False by (simp only: list.distinct)
  qed
  have len: "length ?b \<le> USIZE_MAX" using assms(1) by (simp add: body_usize_def)
  have "encode r ka True [] @ rest =
      status_line r @ concat (map header_line (wire_headers r ka)) @ CRLF @ ?b @ rest"
    by (simp add: encode_eq [OF assms(1)] response_head_def)
  then have "read_head (encode r ka True [] @ rest, e) 0 = ((?b @ rest, e), Inr (length ?b))"
    using read_head_fields [OF assms(2) one len, of "?b @ rest" e 0] ex
    by (simp only: read_head_status if_True)
  then show ?thesis by (simp add: send_and_read_def read_exact_def)
qed

section \<open>The request and its answer\<close>

lemma lg_request_render:
  "lg_request target = render ''GET'' ''/'' Http11 [(''Host'', target), (''Connection'', ''keep-alive'')] []"
  by (simp add: lg_request_def render_def request_line_def header_block_def header_line_def)

definition lg_parsed :: "str \<Rightarrow> request" where
  "lg_parsed target = \<lparr>rq_method = Get, rq_path = ''/'', rq_version = Http11,
     rq_headers = \<lparr>inner = [(''Host'', target), (''Connection'', ''keep-alive'')]\<rparr>, rq_body = []\<rparr>"

lemma lg_headers_get:
  "headers_get \<lparr>inner = [(''Host'', target), (''Connection'', ''keep-alive'')]\<rparr> ''connection'' = Some ''keep-alive''"
  "headers_get \<lparr>inner = [(''Host'', target), (''Connection'', ''keep-alive'')]\<rparr> ''content-length'' = None"
proof -
  have "\<not> eq_ignore_ascii_case ''Host'' ''connection''" "\<not> eq_ignore_ascii_case ''Host'' ''content-length''"
    "eq_ignore_ascii_case ''Connection'' ''connection''" "\<not> eq_ignore_ascii_case ''Connection'' ''content-length''"
    by code_simp+
  then show "headers_get \<lparr>inner = [(''Host'', target), (''Connection'', ''keep-alive'')]\<rparr> ''connection'' = Some ''keep-alive''"
    "headers_get \<lparr>inner = [(''Host'', target), (''Connection'', ''keep-alive'')]\<rparr> ''content-length'' = None"
    by (simp_all add: headers_get_def)
qed

lemma lg_parsed_keep_alive: "wants_keep_alive (lg_parsed target)"
proof -
  have "\<not> (\<exists>t \<in> set (split_on (\<lambda>c. c = CHR '','') ''keep-alive''). eq_ignore_ascii_case (trim t) ''close'')"
    by code_simp
  then show ?thesis by (simp add: wants_keep_alive_def lg_parsed_def connection_has_def lg_headers_get)
qed

lemma lg_renderable:
  assumes "field_ok (''Host'', target)" and "length target \<le> MAX_HEADER_BYTES - 34"
  shows "renderable ''GET'' ''/'' Http11 [(''Host'', target), (''Connection'', ''keep-alive'')] []"
proof -
  have "field_ok (''Connection'', ''keep-alive'')" "utf8_valid ''/''" by code_simp+
  with assms show ?thesis
    by (simp add: renderable_def token_ok_def request_line_def header_block_def header_line_def
        declared_length_def limit_defs lg_headers_get)
qed

lemma wire_spec_lg_request:
  assumes "field_ok (''Host'', target)" and "length target \<le> MAX_HEADER_BYTES - 34"
  shows "wire_spec h (lg_request target @ s) = encode (h (lg_parsed target)) True True [] @ wire_spec h s"
proof -
  have "snd (push parser_new (lg_request target @ s)) = Complete (lg_parsed target) (length (lg_request target))"
    using push_render [OF lg_renderable [OF assms], of s]
    by (auto simp: lg_request_render lg_parsed_def method_parse_def)
  then show ?thesis
    using lg_parsed_keep_alive [of target]
    by (subst wire_spec.simps) (simp add: request_response_def lg_parsed_def)
qed

lemma readable_own_fields:
  "readable_field (''Content-Length'', decimal n)" "readable_field (''Connection'', ''keep-alive'')"
  "readable_field (''Connection'', ''close'')"
  "readable_field (''Content-Type'', content_type_for f)" "readable_field (''Content-Type'', ''text/plain; charset=utf-8'')"
proof -
  have "utf8_valid (decimal n)"
    by (rule utf8_valid_ascii) (use decimal_digits [of _ n] in \<open>force simp: byte_in_def\<close>)
  moreover have "LF \<notin> set (decimal n)" using decimal_digits [of LF n] by (auto simp: byte_in_def)
  moreover have "trimmed ''Content-Length'' \<and> utf8_valid ''Content-Length''" by code_simp
  ultimately show "readable_field (''Content-Length'', decimal n)"
    by (simp add: readable_field_def)
  show "readable_field (''Connection'', ''keep-alive'')" "readable_field (''Connection'', ''close'')"
    "readable_field (''Content-Type'', ''text/plain; charset=utf-8'')" by code_simp+
  have "trimmed ''Content-Type'' \<and> utf8_valid ''Content-Type''" by code_simp
  then show "readable_field (''Content-Type'', content_type_for f)"
    by (auto simp: readable_field_def content_type_for_def byte_in_def intro!: utf8_valid_ascii split: option.split)
qed

lemma file_response_readable: "list_all readable_field (wire_headers (file_response l name) ka)"
proof -
  have "readable_field (''Content-Type'', a_content_type x)"
    if "map_of (rev (map file_asset fs)) name = Some x" for fs x
    using map_of_SomeD [OF that] by (auto simp: file_asset_def readable_own_fields)
  then have "list_all readable_field (inner (rs_headers (file_response l name)))"
    by (auto simp: file_response_def response_ok_def response_text_def response_new_def headers_new_def Let_def
        headers_insert_def readable_own_fields split: option.splits)
  then show ?thesis by (auto simp: wire_headers_def list_all_iff readable_own_fields)
qed

section \<open>Properties\<close>

text \<open>
  C38: load generator and server agree on the wire: for every target string that is a legal header
  value, the server's answer to the request of the load generator is one response and what it
  owes to the bytes behind it, on the same connection, and the client, reading that response
  followed by anything, consumes exactly its bytes and counts a success, also when the response
  is the error for a missing page.
\<close>

theorem loadgen_server_agree:
  assumes "build_app fs c = Inr a" and "app_same a b"
    and "field_ok (''Host'', target)" and "length target \<le> MAX_HEADER_BYTES - 34"
    and "body_usize (file_response (fs (cli_assets_dir c)) ''index.html'')"
  shows "\<exists>resp. wire_spec (app_handle server_call b) (lg_request target @ s) =
      resp @ wire_spec (app_handle server_call b) s \<and>
    send_and_read None (resp @ rest, e) = ((rest, e), Inr ())"
proof -
  let ?r = "file_response (fs (cli_assets_dir c)) ''index.html''"
  have "segments ''/'' = []" by code_simp
  then have "app_handle server_call b (lg_parsed target) = ?r"
    using site_response [OF assms(1,2), of "lg_parsed target"] by (simp add: lg_parsed_def)
  then show ?thesis
    using wire_spec_lg_request [OF assms(3,4), of "app_handle server_call b" s]
      read_response [OF assms(5) file_response_readable, of True rest e] by metis
qed

theorem loadgen_server_agree_witness:
  "\<exists>a resp. build_app (\<lambda>d. demo_site) cli_default = Inr a \<and>
     wire_spec (app_handle server_call a) (lg_request ''127.0.0.1:8080'' @ []) =
       resp @ wire_spec (app_handle server_call a) [] \<and>
     send_and_read None (resp @ ''HTTP'', None) = ((''HTTP'', None), Inr ())"
proof -
  obtain a where a: "build_app (\<lambda>d. demo_site) cli_default = Inr a" using demo_site_builds by blast
  have "field_ok (''Host'', ''127.0.0.1:8080'')" "length ''127.0.0.1:8080'' \<le> MAX_HEADER_BYTES - 34"
    "body_usize (file_response demo_site ''index.html'')" by code_simp+
  with loadgen_server_agree [OF a app_same_simps(1), of "''127.0.0.1:8080''" "[]" "''HTTP''" None] a
  show ?thesis by blast
qed

end
