(* ===== verification/Progress.thy ===== *)
theory Progress
  imports Event_Io Parser_Properties
begin

text \<open>
  Progress of the loops that carry a connection. A conversation is a client that sends its requests
  one at a time, each in any pieces, and takes the responses in any pieces, as the kernel likes. The
  loops of the blocking and of the event-driven models answer all of it: they do not stop early,
  they do not wait for something that never comes, and what the client got at the end is the
  whole response stream. The contract is the locale \<open>io_machine\<close>, a loop that reads when its
  connection wants to read and writes when it wants to write; both kinds of loops meet it.
\<close>

section \<open>Prefixes of a request\<close>

text \<open>The one place where the answer to a prefix depends on the cut is not in the request.\<close>

definition clear_of_limit :: "bytes \<Rightarrow> bool" where
  "clear_of_limit q \<longleftrightarrow> length q \<le> MAX_REQUEST_LINE \<or> q ! MAX_REQUEST_LINE \<noteq> CR"

text \<open>The bytes are one request and nothing else.\<close>

definition exactly :: "bytes \<Rightarrow> request \<Rightarrow> bool" where
  "exactly q r \<longleftrightarrow> snd (push parser_new q) = Complete r (length q) \<and> clear_of_limit q"

lemma exactly_prefix_Incomplete:
  assumes q: "exactly (s @ t) r" and t: "t \<noteq> []"
  shows "snd (push parser_new s) = Incomplete"
proof (cases "snd (push parser_new s)")
  case (Complete r' n)
  then have "n \<le> length s"
    using absorbed_push_Complete [OF absorbed_new, of s _ r' n] by (cases "push parser_new s") simp
  moreover have "n = length (s @ t)" using push_Complete_extend [OF Complete, of t] q by (simp add: exactly_def)
  ultimately show ?thesis using t by simp
next
  case (Failed e)
  have "\<not> split_cr_boundary s e"
  proof
    assume cut: "split_cr_boundary s e"
    then have "s \<noteq> []" by (auto simp: split_cr_boundary_def)
    with cut have "s ! MAX_REQUEST_LINE = CR" by (auto simp: split_cr_boundary_def last_conv_nth)
    moreover have "MAX_REQUEST_LINE < length s" using cut by (simp add: split_cr_boundary_def)
    ultimately show False using q by (simp add: exactly_def clear_of_limit_def nth_append)
  qed
  from push_Failed_extend [OF Failed this, of t] q show ?thesis by (simp add: exactly_def)
qed

text \<open>
  A conversation: the requests of a client that waits for each response, every request a text of
  its own; only the last may ask for the connection to be closed.
\<close>

fun conversation :: "bytes list \<Rightarrow> bool" where
  "conversation [] \<longleftrightarrow> True"
| "conversation (q # qs) \<longleftrightarrow>
     (case snd (push parser_new q) of
        Complete r n \<Rightarrow> n = length q \<and> clear_of_limit q \<and> (qs = [] \<or> wants_keep_alive r) \<and> conversation qs
      | _ \<Rightarrow> False)"

lemma conversation_Cons:
  "conversation (q # qs) \<longleftrightarrow> (\<exists>r. exactly q r \<and> (qs = [] \<or> wants_keep_alive r) \<and> conversation qs)"
  by (auto simp: exactly_def split: parse_status.splits)

declare conversation.simps(2) [simp del]

lemma wire_spec_exactly:
  assumes "exactly q r"
  shows "wire_spec h (q @ s) = request_response h r @ (if wants_keep_alive r then wire_spec h s else [])"
  using push_Complete_extend [of q r "length q" s] assms by (subst wire_spec.simps) (simp add: exactly_def)

section \<open>Loops that read and write\<close>

text \<open>What a connection and its stream look like at the three points of an exchange.\<close>

definition expecting :: "bytes \<Rightarrow> slot \<Rightarrow> bool" where
  "expecting u s \<longleftrightarrow> cstate (slot_conn s) = Reading \<and> absorbed (parser (slot_conn s)) u"

definition answering :: "bytes \<Rightarrow> bool \<Rightarrow> slot \<Rightarrow> bool" where
  "answering out keep s \<longleftrightarrow>
     cstate (slot_conn s) = Writing \<and> pending_write (slot_conn s) = out \<and> out \<noteq> [] \<and>
     close_after_write (slot_conn s) = (\<not> keep) \<and> reset (parser (slot_conn s)) = parser_new"

definition finished :: "bool \<Rightarrow> slot \<Rightarrow> bool" where
  "finished keep s \<longleftrightarrow>
     (if keep then cstate (slot_conn s) = Reading \<and> parser (slot_conn s) = parser_new
      else cstate (slot_conn s) = Closed)"

lemma finished_expecting: "finished True s \<Longrightarrow> expecting [] s"
  by (simp add: finished_def expecting_def absorbed_new)

text \<open>What the kernel has in store: the pieces of a request to read, and room for at least a byte per write.\<close>

definition pieces :: "bytes list \<Rightarrow> rd list \<Rightarrow> slot \<Rightarrow> bool" where
  "pieces cs rest s \<longleftrightarrow> s_in (slot_stream s) = map RdData cs @ rest \<and> [] \<notin> set cs"

definition room :: "nat \<Rightarrow> slot \<Rightarrow> bool" where
  "room n s \<longleftrightarrow> n \<le> length (s_out (slot_stream s)) \<and> list_all (\<lambda>w. case w of WrOk k \<Rightarrow> 0 < k | WrErr e \<Rightarrow> False) (s_out (slot_stream s))"

lemma room_less: "room n s \<Longrightarrow> m \<le> n \<Longrightarrow> room m s"
  by (simp add: room_def)

text \<open>The effect of one read and of one write.\<close>

lemma stream_read_piece:
  assumes "pieces (b # cs) rest s" and "0 < cap"
  defines "cs' \<equiv> if length b \<le> cap then cs else drop cap b # cs"
  shows "\<exists>st. stream_read cap (slot_stream s) = (st, Inr (take cap b)) \<and> take cap b \<noteq> [] \<and>
    concat (b # cs) = take cap b @ concat cs' \<and> pieces cs' rest (s\<lparr>slot_stream := st, slot_conn := c\<rparr>) \<and>
    s_out st = s_out (slot_stream s) \<and> s_sent st = s_sent (slot_stream s) \<and>
    s_rcvd st = s_rcvd (slot_stream s) @ take cap b"
  using assms by (auto simp: pieces_def stream_read_def)

lemma stream_write_room:
  assumes "room (Suc n) s" and "bs \<noteq> []"
  shows "\<exists>st k. stream_write bs (slot_stream s) = (st, Inr k) \<and> 0 < k \<and> k \<le> length bs \<and>
    room n (s\<lparr>slot_stream := st, slot_conn := c\<rparr>) \<and> s_in st = s_in (slot_stream s) \<and>
    length (s_out (slot_stream s)) = Suc (length (s_out st)) \<and>
    s_rcvd st = s_rcvd (slot_stream s) \<and> s_sent st = s_sent (slot_stream s) @ take k bs"
  using assms
  by (cases "s_out (slot_stream s)")
     (auto simp: room_def stream_write_def min_def split: wr.splits)

locale io_machine =
  fixes call :: "'h call" and a :: "'h app" and now :: instant and cap :: usize
    and run :: "slot \<Rightarrow> conn_action \<Rightarrow> 'r"
  assumes cap_pos: "0 < cap"
    and run_read: "cstate (slot_conn s) = Reading \<Longrightarrow> stream_read cap (slot_stream s) = (st, Inr bs) \<Longrightarrow> bs \<noteq> [] \<Longrightarrow>
      on_bytes call a (slot_conn s) bs = (c, act) \<Longrightarrow> run s WantRead = run (s\<lparr>slot_stream := st, slot_conn := c\<rparr>) act"
    and run_write: "cstate (slot_conn s) = Writing \<Longrightarrow> pending_write (slot_conn s) \<noteq> [] \<Longrightarrow>
      stream_write (pending_write (slot_conn s)) (slot_stream s) = (st, Inr n) \<Longrightarrow> 0 < n \<Longrightarrow>
      on_written now (slot_conn s) n = (c, act) \<Longrightarrow> run s WantWrite = run (s\<lparr>slot_stream := st, slot_conn := c\<rparr>) act"
begin

text \<open>A request that arrives in pieces is read to its end and starts its response.\<close>

lemma reads_request:
  assumes "expecting u s" and "pieces cs rest s" and "cs \<noteq> []" and "exactly (u @ concat cs) r"
  shows "\<exists>s'. run s WantRead = run s' WantWrite \<and>
    answering (request_response (app_handle call a) r) (wants_keep_alive r) s' \<and> pieces [] rest s' \<and>
    s_out (slot_stream s') = s_out (slot_stream s) \<and> s_sent (slot_stream s') = s_sent (slot_stream s) \<and>
    s_rcvd (slot_stream s') = s_rcvd (slot_stream s) @ concat cs"
  using assms
proof (induction "length (concat cs)" arbitrary: s cs u rule: less_induct)
  case less
  obtain b cs0 where cs: "cs = b # cs0" using less.prems(3) by (cases cs) auto
  define cs' where "cs' = (if length b \<le> cap then cs0 else drop cap b # cs0)"
  define c where "c = fst (on_bytes call a (slot_conn s) (take cap b))"
  obtain st where rd: "stream_read cap (slot_stream s) = (st, Inr (take cap b))" "take cap b \<noteq> []"
    and split: "concat cs = take cap b @ concat cs'"
    and s': "pieces cs' rest (s\<lparr>slot_stream := st, slot_conn := c\<rparr>)"
      "s_out st = s_out (slot_stream s)" "s_sent st = s_sent (slot_stream s)"
      "s_rcvd st = s_rcvd (slot_stream s) @ take cap b"
    using stream_read_piece [OF less.prems(2) [unfolded cs] cap_pos, folded cs'_def, of c] cs by blast
  let ?s = "s\<lparr>slot_stream := st, slot_conn := c\<rparr>"
  have reading: "cstate (slot_conn s) = Reading" and held: "absorbed (parser (slot_conn s)) u"
    using less.prems(1) by (simp_all add: expecting_def)
  obtain p status where p: "push (parser (slot_conn s)) (take cap b) = (p, status)"
    by (cases "push (parser (slot_conn s)) (take cap b)")
  have status: "snd (push parser_new (u @ take cap b)) = status"
    using rp.push_one_shot [OF held, of "take cap b"] p by simp
  show ?case
  proof (cases "cs' = []")
    case True
    with split less.prems(4) status have st': "status = Complete r (length (u @ take cap b))"
      by (simp add: exactly_def)
    have "reset p = parser_new\<lparr>buf := drop (length (u @ take cap b)) (u @ take cap b)\<rparr>"
      using push_Complete_reset [of "parser (slot_conn s)", OF _ _ p [unfolded st']] held by (simp add: absorbed_def)
    then have new: "reset p = parser_new" by (simp add: parser_new_def)
    have step: "on_bytes call a (slot_conn s) (take cap b) = (c, WantWrite)"
      and ans: "answering (request_response (app_handle call a) r) (wants_keep_alive r) ?s"
      using reading p st' new
      by (simp_all add: c_def on_bytes_def handle_status_def answering_def request_response_def encode_not_Nil)
    show ?thesis using run_read [OF reading rd step] ans s' True split by auto
  next
    case False
    then have "concat cs' \<noteq> []" using s'(1) by (cases cs') (auto simp: pieces_def)
    with less.prems(4) split have inc: "status = Incomplete"
      using exactly_prefix_Incomplete [of "u @ take cap b" "concat cs'" r] status by simp
    have step: "on_bytes call a (slot_conn s) (take cap b) = (c, WantRead)" and exp: "expecting (u @ take cap b) ?s"
      using reading p inc rp.push_Incomplete [OF held, of "take cap b" p]
      by (simp_all add: c_def on_bytes_def handle_status_def expecting_def)
    have shorter: "length (concat cs') < length (concat cs)" using split rd(2) by simp
    from less.hyps [OF shorter exp s'(1) False] less.prems(4) split
    show ?thesis using run_read [OF reading rd step] s' by auto
  qed
qed

text \<open>A response is written to its end, however little each write takes.\<close>

lemma writes_response:
  assumes "answering out keep s" and "room (length out + m) s"
  shows "\<exists>s'. run s WantWrite = run s' (if keep then WantRead else Close) \<and> finished keep s' \<and> room m s' \<and>
    s_in (slot_stream s') = s_in (slot_stream s) \<and> s_rcvd (slot_stream s') = s_rcvd (slot_stream s) \<and>
    s_sent (slot_stream s') = s_sent (slot_stream s) @ out"
  using assms
proof (induction "length out" arbitrary: s out rule: less_induct)
  case less
  have writing: "cstate (slot_conn s) = Writing" and out: "pending_write (slot_conn s) = out" "out \<noteq> []"
    and close: "close_after_write (slot_conn s) = (\<not> keep)" and new: "reset (parser (slot_conn s)) = parser_new"
    using less.prems(1) by (simp_all add: answering_def)
  have out': "out = drop (write_pos (slot_conn s)) (write_buf (slot_conn s))"
    using out writing by (simp add: pending_write_def)
  define l where "l = length out + m - 1"
  have room: "room (Suc l) s" using less.prems(2) out(2) by (cases out) (simp_all add: l_def)
  obtain st k where wr: "stream_write out (slot_stream s) = (st, Inr k)" "0 < k" "k \<le> length out"
    and st: "room l (s\<lparr>slot_stream := st, slot_conn := c\<rparr>)" "s_in st = s_in (slot_stream s)"
      "s_rcvd st = s_rcvd (slot_stream s)" "s_sent st = s_sent (slot_stream s) @ take k out" for c
    using stream_write_room [OF room out(2)] by (auto simp: room_def)
  define c where "c = fst (on_written now (slot_conn s) k)"
  let ?s = "s\<lparr>slot_stream := st, slot_conn := c\<rparr>"
  note run = run_write [OF writing, unfolded out(1), OF out(2) wr(1,2)]
  show ?case
  proof (cases "k < length out")
    case True
    then have less': "write_pos (slot_conn s) + k < length (write_buf (slot_conn s))" using out' by simp
    have step: "on_written now (slot_conn s) k = (c, WantWrite)"
      and ans: "answering (drop k out) keep ?s"
      using writing close new less' out' True
      by (simp_all add: c_def on_written_def Let_def answering_def pending_write_def add.commute)
    have "room (length (drop k out) + m) ?s"
      by (rule room_less [OF st(1)]) (use True wr(2) in \<open>simp add: l_def\<close>)
    from less.hyps [OF _ ans this] True wr(2) run [OF step] st show ?thesis by auto
  next
    case False
    then have all: "k = length out" using wr(3) by simp
    then have full: "\<not> write_pos (slot_conn s) + k < length (write_buf (slot_conn s))" using out' by simp
    have step: "on_written now (slot_conn s) k = (c, if keep then WantRead else Close)" and fin: "finished keep ?s"
      using writing close new full by (auto simp: c_def on_written_def Let_def finished_def)
    have "room m ?s" by (rule room_less [OF st(1)]) (use out(2) in \<open>cases out; simp add: l_def\<close>)
    then show ?thesis using run [OF step] fin st all by auto
  qed
qed

lemma exchange_done:
  assumes "expecting [] s" and "pieces cs rest s" and "concat cs = q" and "exactly q r"
    and "room (length (request_response (app_handle call a) r) + m) s"
  shows "\<exists>s'. run s WantRead = run s' (if wants_keep_alive r then WantRead else Close) \<and>
    finished (wants_keep_alive r) s' \<and> room m s' \<and> pieces [] rest s' \<and>
    s_rcvd (slot_stream s') = s_rcvd (slot_stream s) @ q \<and>
    s_sent (slot_stream s') = s_sent (slot_stream s) @ request_response (app_handle call a) r"
proof -
  let ?out = "request_response (app_handle call a) r"
  have "q \<noteq> []" using assms(4) push_new_Complete [of q r "length q"] by (auto simp: exactly_def)
  then have "cs \<noteq> []" using assms(3) by auto
  with reads_request [OF assms(1,2)] assms(3,4) obtain s1 where
    s1: "run s WantRead = run s1 WantWrite" "answering ?out (wants_keep_alive r) s1" "pieces [] rest s1"
      "s_out (slot_stream s1) = s_out (slot_stream s)" "s_sent (slot_stream s1) = s_sent (slot_stream s)"
      "s_rcvd (slot_stream s1) = s_rcvd (slot_stream s) @ q" by auto
  have "room (length ?out + m) s1" using assms(5) s1(4) by (simp add: room_def)
  from writes_response [OF s1(2) this] s1 show ?thesis by (auto simp: pieces_def)
qed

text \<open>All requests of a conversation are answered, and the loop is left waiting for the next one or closing.\<close>

lemma conversation_done:
  assumes "conversation qs" and "expecting [] s" and "pieces (concat css) rest s" and "map concat css = qs"
    and "room (length (wire_spec (app_handle call a) (concat qs)) + m) s"
  shows "\<exists>s' act. run s WantRead = run s' act \<and> act \<in> {WantRead, Close} \<and> room m s' \<and> pieces [] rest s' \<and>
    (if act = WantRead then expecting [] s' else cstate (slot_conn s') = Closed) \<and>
    s_rcvd (slot_stream s') = s_rcvd (slot_stream s) @ concat qs \<and>
    s_sent (slot_stream s') = s_sent (slot_stream s) @ wire_spec (app_handle call a) (concat qs)"
  using assms
proof (induction qs arbitrary: s css)
  case Nil
  have "wire_spec (app_handle call a) [] = []" by (simp add: wire_spec.simps [of _ "[]"] push_new_Nil)
  with Nil.prems show ?case by (intro exI [of _ s] exI [of _ WantRead]) simp
next
  case (Cons q qs)
  let ?h = "app_handle call a"
  obtain cs css' where css: "css = cs # css'" "concat cs = q" "map concat css' = qs" using Cons.prems(4) by auto
  obtain r where r: "exactly q r" "qs = [] \<or> wants_keep_alive r" "conversation qs"
    using Cons.prems(1) by (auto simp: conversation_Cons)
  have spec: "wire_spec ?h (concat (q # qs)) = request_response ?h r @ (if wants_keep_alive r then wire_spec ?h (concat qs) else [])"
    using wire_spec_exactly [OF r(1)] by simp
  let ?m = "(if wants_keep_alive r then length (wire_spec ?h (concat qs)) else 0) + m"
  have first: "pieces cs (map RdData (concat css') @ rest) s"
    using Cons.prems(3) css(1) by (simp add: pieces_def)
  have more: "[] \<notin> set (concat css')" using Cons.prems(3) css(1) by (simp add: pieces_def)
  have "room (length (request_response ?h r) + ?m) s" using Cons.prems(5) unfolding spec by (simp add: add.assoc split: if_splits)
  from exchange_done [OF Cons.prems(2) first css(2) r(1) this] obtain s1 where
    s1: "run s WantRead = run s1 (if wants_keep_alive r then WantRead else Close)" "finished (wants_keep_alive r) s1"
      "room ?m s1" "pieces [] (map RdData (concat css') @ rest) s1"
      "s_rcvd (slot_stream s1) = s_rcvd (slot_stream s) @ q"
      "s_sent (slot_stream s1) = s_sent (slot_stream s) @ request_response ?h r" by blast
  show ?case
  proof (cases "wants_keep_alive r")
    case True
    have "pieces (concat css') rest s1" using s1(4) more by (simp add: pieces_def)
    from Cons.IH [OF r(3) finished_expecting this css(3)] s1 True spec show ?thesis by auto
  next
    case False
    with r(2) css have "qs = []" "css' = []" by auto
    with False s1 spec show ?thesis
      by (intro exI [of _ s1] exI [of _ Close]) (simp add: finished_def)
  qed
qed

end

section \<open>The blocking loop\<close>

interpretation blk: io_machine call a now READ_CHUNK "serve_loop call now a" for call a now
  by unfold_locales (simp_all add: serve_loop.simps [of _ _ _ _ WantRead] serve_loop.simps [of _ _ _ _ WantWrite] READ_CHUNK_def)

text \<open>
  C19: the blocking models answer. A client that sends its requests one at a time, each in any
  pieces, takes the responses in any pieces, and then ends its side: \<open>serve_connection\<close> reads all of it,
  returns without an error, and what it has sent is the whole response to every request, in order.
\<close>

theorem blocking_answers_conversation:
  assumes "conversation qs" and "map concat css = qs" and "[] \<notin> set (concat css)"
    and "s_in st = map RdData (concat css) @ [RdData []]" and "s_rcvd st = []" and "s_sent st = []"
    and "list_all (\<lambda>w. case w of WrOk k \<Rightarrow> 0 < k | WrErr e \<Rightarrow> False) (s_out st)"
    and "length (wire_spec (app_handle call a) (concat qs)) \<le> length (s_out st)"
  shows "\<exists>s. serve_connection call None None now timeout a st = (s, Inr ()) \<and>
    s_rcvd (slot_stream s) = concat qs \<and> s_sent (slot_stream s) = wire_spec (app_handle call a) (concat qs)"
proof -
  let ?s = "\<lparr>slot_stream = st, slot_conn = conn_new now timeout\<rparr>"
  have "expecting [] ?s" by (simp add: expecting_def conn_new_def absorbed_new)
  moreover have "pieces (concat css) [RdData []] ?s" using assms(3,4) by (simp add: pieces_def)
  moreover have "room (length (wire_spec (app_handle call a) (concat qs)) + 0) ?s" using assms(7,8) by (simp add: room_def)
  ultimately obtain s act where s: "serve_loop call now a ?s WantRead = serve_loop call now a s act" "act \<in> {WantRead, Close}"
      "pieces [] [RdData []] s" "s_rcvd (slot_stream s) = concat qs"
      "s_sent (slot_stream s) = wire_spec (app_handle call a) (concat qs)"
    using blk.conversation_done [OF assms(1) _ _ assms(2), of ?s "[RdData []]" call a 0 now] assms(5,6) by auto
  have "\<exists>s'. serve_loop call now a s act = (s', Inr ()) \<and> s_rcvd (slot_stream s') = s_rcvd (slot_stream s) \<and>
      s_sent (slot_stream s') = s_sent (slot_stream s)"
    using s(2,3) by (auto simp: serve_loop.simps [of call now a s] pieces_def stream_read_def)
  with s show ?thesis by (auto simp: serve_connection_def)
qed

text \<open>A conversation of two requests, the first cut in the middle, and a kernel that takes five bytes at a time.\<close>

definition get_pieces :: "bytes list list" where
  "get_pieces = [[take 7 get_root, drop 7 get_root], [get_root]]"

definition get_stream :: "rd list \<Rightarrow> tcp_stream" where
  "get_stream rest = stream_new 5 (map RdData (concat get_pieces) @ rest) (replicate 400 (WrOk 5))"

lemma get_stream_simps:
  "s_in (get_stream rest) = map RdData (concat get_pieces) @ rest"
  "s_rcvd (get_stream rest) = []" "s_sent (get_stream rest) = []" "s_out (get_stream rest) = replicate 400 (WrOk 5)"
  by (simp_all add: get_stream_def stream_new_def)

lemma get_pieces_simps:
  "[] \<notin> set (concat get_pieces)" "concat (map concat get_pieces) = get_root @ get_root"
  by (simp_all add: get_pieces_def get_root_def)

lemma get_conversation: "conversation (map concat get_pieces)"
  by code_simp

lemma get_answer_fits: "length (wire_spec (app_handle no_call empty_app) (get_root @ get_root)) \<le> 400"
  by code_simp

theorem blocking_answers_conversation_witness:
  "\<exists>s. serve_connection no_call None None 0 5 empty_app (get_stream [RdData []]) = (s, Inr ()) \<and>
    s_rcvd (slot_stream s) = get_root @ get_root \<and>
    s_sent (slot_stream s) = wire_spec (app_handle no_call empty_app) (get_root @ get_root)"
  using blocking_answers_conversation [OF get_conversation refl, of "get_stream [RdData []]" no_call empty_app 0 5]
    get_answer_fits
  by (simp only: get_stream_simps get_pieces_simps) (simp add: list_all_iff)

section \<open>The event-driven loops\<close>

text \<open>
  A kernel that reports a connection for as long as it is ready: it has something to read and the
  connection has nothing to send, or it has room and the connection has something to send. Each
  report is one call of \<open>drive_io\<close>.
\<close>

definition ready :: "slot \<Rightarrow> bool" where
  "ready s \<longleftrightarrow>
     (if pending_write (slot_conn s) = [] then s_in (slot_stream s) \<noteq> [] else s_out (slot_stream s) \<noteq> [])"

lemma stream_read_weight_le: "stream_read cap s = (s', r) \<Longrightarrow> stream_weight s' \<le> stream_weight s"
  by (auto simp: stream_read_def stream_weight_def split: list.splits rd.splits if_splits)

lemma stream_write_weight_le: "stream_write bs s = (s', r) \<Longrightarrow> stream_weight s' \<le> stream_weight s"
  by (auto simp: stream_write_def stream_weight_def split: list.splits wr.splits)

lemma io_turn_weight_le:
  "io_turn call now cap drain a s act = (a', s', t) \<Longrightarrow> stream_weight (slot_stream s') \<le> stream_weight (slot_stream s)"
  by (auto simp: io_turn_def read_turn_def write_turn_def
      split: conn_action.splits prod.splits sum.splits list.splits io_error.splits if_splits
      dest: stream_read_weight_le stream_write_weight_le)

lemma drive_loop_weight_le:
  "drive_loop call now cap drain a s act = (a', s', act') \<Longrightarrow> stream_weight (slot_stream s') \<le> stream_weight (slot_stream s)"
proof (induction call now cap drain a s act rule: drive_loop.induct)
  case (1 call now cap drain a s act)
  obtain a1 s1 t where t: "io_turn call now cap drain a s act = (a1, s1, t)" by (rule prod_cases3)
  have le: "stream_weight (slot_stream s1) \<le> stream_weight (slot_stream s)" by (rule io_turn_weight_le [OF t])
  show ?case
  proof (cases t)
    case (Yield act1)
    with t "1.prems" le show ?thesis by (simp add: drive_loop.simps [of call now cap drain a s act])
  next
    case (Next act1)
    with t "1.prems" have "drive_loop call now cap drain a1 s1 act1 = (a', s', act')"
      by (simp add: drive_loop.simps [of call now cap drain a s act])
    from "1.IH" [OF t [symmetric] refl Next this] le show ?thesis by simp
  qed
qed

text \<open>A call on a ready connection uses up some of what the kernel has, or closes.\<close>

lemma io_turn_ready:
  assumes "ready s" and "io_turn call now cap drain a s (if pending_write (slot_conn s) = [] then WantRead else WantWrite) = (a', s', t)"
  shows "stream_weight (slot_stream s') < stream_weight (slot_stream s) \<or> t = Yield Close"
  using assms
  by (cases cap) (auto simp: ready_def io_turn_def read_turn_def write_turn_def stream_read_def stream_write_def stream_weight_def
      split: list.splits rd.splits wr.splits if_splits prod.splits io_error.splits)

lemma drive_io_ready:
  assumes "ready s" and "drive_io call now cap drain a s = (a', s', act')" and "act' \<noteq> Close"
  shows "stream_weight (slot_stream s') < stream_weight (slot_stream s)"
proof -
  let ?act = "if pending_write (slot_conn s) = [] then WantRead else WantWrite"
  obtain a1 s1 t where t: "io_turn call now cap drain a s ?act = (a1, s1, t)" by (rule prod_cases3)
  from assms(2,3) t have "t \<noteq> Yield Close" by (auto simp: drive_io_def drive_loop.simps [of call now cap drain a s])
  with io_turn_ready [OF assms(1) t] have "stream_weight (slot_stream s1) < stream_weight (slot_stream s)" by simp
  moreover have "stream_weight (slot_stream s') \<le> stream_weight (slot_stream s1)"
    using assms(2) t drive_loop_weight_le
    by (cases t) (fastforce simp: drive_io_def drive_loop.simps [of call now cap drain a s])+
  ultimately show ?thesis by simp
qed

function ready_rounds ::
  "'h call \<Rightarrow> instant \<Rightarrow> usize \<Rightarrow> bool \<Rightarrow> 'h app \<Rightarrow> slot \<Rightarrow> conn_action \<Rightarrow> slot \<times> conn_action" where
  "ready_rounds call now cap drain a s act =
     (if act = Close \<or> \<not> ready s then (s, act)
      else (case drive_io call now cap drain a s of
          (a', s', act') \<Rightarrow> if act' = Close then (s', Close) else ready_rounds call now cap drain a' s' act'))"
  by pat_completeness auto
termination
  by (relation "measure (\<lambda>(call, now, cap, drain, a, s, act). stream_weight (slot_stream s))")
     (auto split: prod.split dest: drive_io_ready)

declare ready_rounds.simps [simp del]

text \<open>A connection whose state and pending bytes agree; the callbacks leave it so.\<close>

definition agrees :: "connection \<Rightarrow> conn_action \<Rightarrow> bool" where
  "agrees c act \<longleftrightarrow> act = action_for_state c \<and> (pending_write c = [] \<longleftrightarrow> act \<noteq> WantWrite)"

lemma on_bytes_agrees: "cstate c = Reading \<Longrightarrow> on_bytes call a c bs = (c', act) \<Longrightarrow> agrees c' act \<and> act \<noteq> Close"
  by (auto simp: on_bytes_def handle_status_def agrees_def action_for_state_def pending_write_def start_writing_def
      encode_not_Nil split: prod.splits parse_status.splits)

lemma on_written_agrees: "cstate c = Writing \<Longrightarrow> on_written now c n = (c', act) \<Longrightarrow> agrees c' act"
  by (auto simp: on_written_def agrees_def action_for_state_def pending_write_def Let_def split: if_splits)

text \<open>A draining call that goes on is the next call at once.\<close>

lemma drive_loop_agrees:
  assumes "agrees (slot_conn s) act" and "act \<noteq> Close"
  shows "drive_loop call now cap drain a s act = drive_io call now cap drain a s"
  using assms by (cases act) (simp_all add: drive_io_def agrees_def)

lemma drive_io_not_ready:
  assumes "agrees (slot_conn s) act" and "act \<noteq> Close" and "\<not> ready s"
  shows "drive_io call now cap drain a s = (a, s, act)"
  using assms
  by (cases act)
     (auto simp: drive_io_def agrees_def ready_def drive_loop.simps [of call now cap drain a s] io_turn_def read_turn_def
       write_turn_def stream_read_def stream_write_def)

lemma ready_rounds_next:
  assumes "agrees (slot_conn s) act"
  shows "(case drive_loop call now cap drain a s act of
      (a', s', act') \<Rightarrow> if act' = Close then (s', Close) else ready_rounds call now cap drain a' s' act') =
    ready_rounds call now cap drain a s act"
proof (cases "act = Close")
  case True
  then show ?thesis by (simp add: drive_loop.simps io_turn_def ready_rounds.simps)
next
  case False
  note loop = drive_loop_agrees [OF assms False, of call now cap drain a]
  show ?thesis
  proof (cases "ready s")
    case True
    with False show ?thesis by (simp add: loop ready_rounds.simps [of call now cap drain a s act])
  next
    case nr: False
    with drive_io_not_ready [OF assms False nr, of call now cap drain a] loop False show ?thesis
      by (simp add: ready_rounds.simps [of call now cap drain a s act])
  qed
qed

lemma ready_rounds_turn:
  assumes "act \<noteq> Close" and "ready s" and "agrees (slot_conn s) act" and "agrees (slot_conn s') act'"
    and "io_turn call now cap drain a s act = (a, s', Yield act') \<or> io_turn call now cap drain a s act = (a, s', Next act')"
  shows "ready_rounds call now cap drain a s act = ready_rounds call now cap drain a s' act'"
proof -
  note loop = drive_loop_agrees [OF assms(3,1), of call now cap drain a]
  have "ready_rounds call now cap drain a s act = (case drive_loop call now cap drain a s act of
      (a', s', act') \<Rightarrow> if act' = Close then (s', Close) else ready_rounds call now cap drain a' s' act')"
    using assms(1,2) loop by (simp add: ready_rounds.simps [of call now cap drain a s act])
  also have "\<dots> = ready_rounds call now cap drain a s' act'"
    using assms(5)
  proof
    assume "io_turn call now cap drain a s act = (a, s', Yield act')"
    then show ?thesis
      by (auto simp: drive_loop.simps [of call now cap drain a s act] ready_rounds.simps [of _ _ _ _ _ _ Close])
  next
    assume "io_turn call now cap drain a s act = (a, s', Next act')"
    then show ?thesis
      using ready_rounds_next [OF assms(4), of call now cap drain a] by (simp add: drive_loop.simps [of call now cap drain a s act])
  qed
  finally show ?thesis .
qed

interpretation ev: io_machine call a now READ_CHUNK "ready_rounds call now READ_CHUNK drain a" for call a now drain
proof
  show "0 < READ_CHUNK" by (simp add: READ_CHUNK_def)
next
  fix s :: slot and st bs c act
  assume reading: "cstate (slot_conn s) = Reading" and rd: "stream_read READ_CHUNK (slot_stream s) = (st, Inr bs)" "bs \<noteq> []"
    and c: "on_bytes call a (slot_conn s) bs = (c, act)"
  have "ready s" "agrees (slot_conn s) WantRead"
    using rd reading by (auto simp: ready_def agrees_def action_for_state_def pending_write_def stream_read_def split: list.splits)
  moreover have "agrees c act" using on_bytes_agrees [OF reading c] by simp
  ultimately show "ready_rounds call now READ_CHUNK drain a s WantRead =
      ready_rounds call now READ_CHUNK drain a (s\<lparr>slot_stream := st, slot_conn := c\<rparr>) act"
    using rd c by (intro ready_rounds_turn) (auto simp: io_turn_def read_turn_def neq_Nil_conv)
next
  fix s :: slot and st n c act
  assume writing: "cstate (slot_conn s) = Writing" "pending_write (slot_conn s) \<noteq> []"
    and wr: "stream_write (pending_write (slot_conn s)) (slot_stream s) = (st, Inr n)" "0 < n"
    and c: "on_written now (slot_conn s) n = (c, act)"
  have "ready s" "agrees (slot_conn s) WantWrite"
    using wr writing by (auto simp: ready_def agrees_def action_for_state_def stream_write_def split: list.splits)
  moreover have "agrees c act" by (rule on_written_agrees [OF writing(1) c])
  ultimately show "ready_rounds call now READ_CHUNK drain a s WantWrite =
      ready_rounds call now READ_CHUNK drain a (s\<lparr>slot_stream := st, slot_conn := c\<rparr>) act"
    using wr c writing by (intro ready_rounds_turn) (auto simp: io_turn_def write_turn_def)
qed

text \<open>
  C18: the event-driven models answer. When the kernel reports a connection for as long as it is
  ready, the calls of \<open>drive_io\<close>, level- or edge-triggered, read a whole conversation and have sent
  the whole response to every request, in order; the connection is then closed, as the client
  asked, or waits for the next request with nothing buffered.
\<close>

theorem event_driven_answers_conversation:
  assumes "conversation qs" and "map concat css = qs" and "[] \<notin> set (concat css)"
    and "s_in st = map RdData (concat css)" and "s_rcvd st = []" and "s_sent st = []"
    and "list_all (\<lambda>w. case w of WrOk k \<Rightarrow> 0 < k | WrErr e \<Rightarrow> False) (s_out st)"
    and "length (wire_spec (app_handle call a) (concat qs)) \<le> length (s_out st)"
  shows "\<exists>s act. ready_rounds call now READ_CHUNK drain a \<lparr>slot_stream = st, slot_conn = conn_new t timeout\<rparr> WantRead = (s, act) \<and>
    s_rcvd (slot_stream s) = concat qs \<and> s_sent (slot_stream s) = wire_spec (app_handle call a) (concat qs) \<and>
    (if act = Close then cstate (slot_conn s) = Closed
     else cstate (slot_conn s) = Reading \<and> snd (push parser_new (buf (parser (slot_conn s)))) = Incomplete)"
proof -
  let ?s = "\<lparr>slot_stream = st, slot_conn = conn_new t timeout\<rparr>"
  have "expecting [] ?s" by (simp add: expecting_def conn_new_def absorbed_new)
  moreover have "pieces (concat css) [] ?s" using assms(3,4) by (simp add: pieces_def)
  moreover have "room (length (wire_spec (app_handle call a) (concat qs)) + 0) ?s" using assms(7,8) by (simp add: room_def)
  ultimately obtain s act where s: "ready_rounds call now READ_CHUNK drain a ?s WantRead = ready_rounds call now READ_CHUNK drain a s act"
      "act \<in> {WantRead, Close}" "pieces [] [] s"
      "if act = WantRead then expecting [] s else cstate (slot_conn s) = Closed" "s_rcvd (slot_stream s) = concat qs"
      "s_sent (slot_stream s) = wire_spec (app_handle call a) (concat qs)"
    using ev.conversation_done [OF assms(1) _ _ assms(2), of ?s "[]" call a 0 now drain] assms(5,6) by auto
  have "ready_rounds call now READ_CHUNK drain a s act = (s, act)"
    using s(2-4) by (auto simp: ready_rounds.simps [of _ _ _ _ _ s] ready_def pieces_def expecting_def pending_write_def)
  moreover have "snd (push parser_new (buf (parser (slot_conn s)))) = Incomplete" if "expecting [] s"
    using that by (simp add: expecting_def absorbed_def push_new_Nil)
  ultimately show ?thesis using s by (auto simp: expecting_def)
qed

theorem event_driven_answers_conversation_witness:
  "\<exists>s act. ready_rounds no_call 0 READ_CHUNK True empty_app
      \<lparr>slot_stream = get_stream [], slot_conn = conn_new 0 5\<rparr> WantRead = (s, act) \<and>
    s_rcvd (slot_stream s) = get_root @ get_root \<and>
    s_sent (slot_stream s) = wire_spec (app_handle no_call empty_app) (get_root @ get_root)"
proof -
  note ev = event_driven_answers_conversation
    [OF get_conversation refl, of "get_stream []" no_call empty_app 0 True 0 5, unfolded get_stream_simps get_pieces_simps]
  have "s_in (get_stream []) = map RdData (concat get_pieces)" by (simp add: get_stream_simps)
  with ev get_pieces_simps(1) get_answer_fits show ?thesis by (auto simp: list_all_iff)
qed

end
