(* ===== verification/Parser_Tests.thy ===== *)
theory Parser_Tests
  imports Loadgen_Client Progress
begin

text \<open>
  The unit tests of \<open>core/src/http/method.rs\<close>, \<open>headers.rs\<close> and \<open>request.rs\<close>: each test of the
  repository is a definition, its assertions in order, and a lemma says that the model passes it.
  The tests of the limits use inputs of many thousand bytes; they follow from what the parser does
  with any text that has no line end, and with any sequence of header fields.
\<close>

section \<open>Methods, versions and headers\<close>

definition method_parse_test :: bool where
  "method_parse_test \<longleftrightarrow>
     method_parse ''GET'' = Get \<and> method_parse ''HEAD'' = Head \<and> method_parse ''POST'' = Unsupported \<and>
     method_parse ''get'' = Unsupported \<and> method_parse [] = Unsupported"

definition version_parse_test :: bool where
  "version_parse_test \<longleftrightarrow>
     version_parse ''HTTP/1.0'' = Some Http10 \<and> version_parse ''HTTP/1.1'' = Some Http11 \<and>
     version_parse ''HTTP/2.0'' = None \<and> version_parse ''HTTP/1.2'' = None \<and> version_parse ''garbage'' = None"

definition case_insensitive_lookup_test :: bool where
  "case_insensitive_lookup_test \<longleftrightarrow>
     (let h = headers_insert (headers_insert headers_new ''Host'' ''example.com'') ''Content-Length'' ''42'' in
      headers_get h ''host'' = Some ''example.com'' \<and> headers_get h ''HOST'' = Some ''example.com'' \<and>
      headers_get h ''Content-Length'' = Some ''42'' \<and> headers_get h ''content-length'' = Some ''42'' \<and>
      headers_get h ''missing'' = None)"

definition iter_yields_in_insertion_order_test :: bool where
  "iter_yields_in_insertion_order_test \<longleftrightarrow>
     headers_iter (headers_insert (headers_insert headers_new ''A'' ''1'') ''B'' ''2'') = [(''A'', ''1''), (''B'', ''2'')]"

lemma http_base_tests:
  "method_parse_test" "version_parse_test" "case_insensitive_lookup_test" "iter_yields_in_insertion_order_test"
  by code_simp+

section \<open>The request parser\<close>

text \<open>The helpers \<open>complete\<close> and \<open>failed\<close>; their panic is \<open>None\<close>.\<close>

fun complete :: "parse_status \<Rightarrow> (request \<times> usize) option" where
  "complete (Complete r n) = Some (r, n)"
| "complete st = None"

fun failed :: "parse_status \<Rightarrow> parse_error option" where
  "failed (Failed e) = Some e"
| "failed st = None"

definition well_formed_request_test :: bool where
  "well_formed_request_test \<longleftrightarrow>
     (let raw = ''GET /index.html HTTP/1.1'' @ CRLF @ ''Host: example.com'' @ CRLF @ ''Accept: */*'' @ CRLF @ CRLF in
      case complete (snd (push parser_new raw)) of
        None \<Rightarrow> False
      | Some (req, consumed) \<Rightarrow>
          rq_method req = Get \<and> rq_path req = ''/index.html'' \<and> rq_version req = Http11 \<and>
          headers_get (rq_headers req) ''host'' = Some ''example.com'' \<and>
          headers_get (rq_headers req) ''accept'' = Some ''*/*'' \<and> rq_body req = [] \<and>
          consumed = length raw \<and> wants_keep_alive req)"

definition head_request_test :: bool where
  "head_request_test \<longleftrightarrow>
     (case complete (snd (push parser_new (''HEAD / HTTP/1.1'' @ CRLF @ CRLF))) of
        None \<Rightarrow> False
      | Some (req, consumed) \<Rightarrow> rq_method req = Head \<and> rq_path req = ''/'')"

text \<open>The loop over the bytes: every status before the last is \<open>Incomplete\<close>.\<close>

fun bytewise :: "request_parser \<Rightarrow> bytes \<Rightarrow> parse_status option" where
  "bytewise p [] = None"
| "bytewise p (b # bs) =
     (let r = push p [b] in
      if bs = [] then Some (snd r)
      else if snd r = Incomplete then bytewise (fst r) bs else None)"

definition byte_at_a_time_test :: bool where
  "byte_at_a_time_test \<longleftrightarrow>
     (let raw = ''GET /a HTTP/1.1'' @ CRLF @ ''Host: x'' @ CRLF @ CRLF in
      case bytewise parser_new raw of
        None \<Rightarrow> False
      | Some st \<Rightarrow>
          (case complete st of
             None \<Rightarrow> False
           | Some (req, consumed) \<Rightarrow>
               rq_method req = Get \<and> rq_path req = ''/a'' \<and>
               headers_get (rq_headers req) ''host'' = Some ''x'' \<and> consumed = length raw))"

definition body_honored_and_leftover_retained_test :: bool where
  "body_honored_and_leftover_retained_test \<longleftrightarrow>
     (let first = ''GET /a HTTP/1.1'' @ CRLF @ ''Content-Length: 5'' @ CRLF @ CRLF @ ''hello'';
          r1 = push parser_new (first @ ''GET /b HTTP/1.1'' @ CRLF @ CRLF);
          r2 = push (reset (fst r1)) [] in
      (case complete (snd r1) of
         None \<Rightarrow> False
       | Some (req, consumed) \<Rightarrow>
           rq_path req = ''/a'' \<and> rq_body req = ''hello'' \<and> content_length req = 5 \<and> consumed = length first) \<and>
      (case complete (snd r2) of
         None \<Rightarrow> False
       | Some (req, consumed) \<Rightarrow> rq_path req = ''/b'' \<and> rq_body req = []))"

definition keep_alive_rules_test :: bool where
  "keep_alive_rules_test \<longleftrightarrow>
     list_all (\<lambda>(raw, expected).
       case complete (snd (push parser_new raw)) of
         None \<Rightarrow> False | Some (req, consumed) \<Rightarrow> wants_keep_alive req = expected)
      [(''GET / HTTP/1.1'' @ CRLF @ CRLF, True),
       (''GET / HTTP/1.1'' @ CRLF @ ''Connection: close'' @ CRLF @ CRLF, False),
       (''GET / HTTP/1.0'' @ CRLF @ CRLF, False),
       (''GET / HTTP/1.0'' @ CRLF @ ''Connection: keep-alive'' @ CRLF @ CRLF, True),
       (''GET / HTTP/1.1'' @ CRLF @ ''Connection: keep-alive, foo'' @ CRLF @ CRLF, True)]"

definition malformed_request_line_test :: bool where
  "malformed_request_line_test \<longleftrightarrow>
     failed (snd (push parser_new (''GET /'' @ CRLF @ CRLF))) = Some MalformedRequestLine \<and>
     status MalformedRequestLine = BAD_REQUEST"

definition unsupported_version_test :: bool where
  "unsupported_version_test \<longleftrightarrow>
     failed (snd (push parser_new (''GET / HTTP/2.0'' @ CRLF @ CRLF))) = Some UnsupportedVersion \<and>
     status UnsupportedVersion = VERSION_NOT_SUPPORTED"

definition malformed_header_test :: bool where
  "malformed_header_test \<longleftrightarrow>
     failed (snd (push parser_new (''GET / HTTP/1.1'' @ CRLF @ ''NoColonHere'' @ CRLF @ CRLF))) = Some MalformedHeader \<and>
     status MalformedHeader = BAD_REQUEST"

definition request_line_too_long_test :: bool where
  "request_line_too_long_test \<longleftrightarrow>
     failed (snd (push parser_new (''GET /'' @ replicate (MAX_REQUEST_LINE + 10) (CHR ''a'')))) = Some RequestLineTooLong \<and>
     status RequestLineTooLong = URI_TOO_LONG"

definition headers_too_large_test :: bool where
  "headers_too_large_test \<longleftrightarrow>
     failed (snd (push parser_new (''GET / HTTP/1.1'' @ CRLF @ ''X: '' @ replicate (MAX_HEADER_BYTES + 10) (CHR ''a''))))
       = Some HeadersTooLarge \<and>
     status HeadersTooLarge = HEADER_FIELDS_TOO_LARGE"

definition too_many_headers_test :: bool where
  "too_many_headers_test \<longleftrightarrow>
     failed (snd (push parser_new (''GET / HTTP/1.1'' @ CRLF @
       concat (map (\<lambda>i. ''H'' @ decimal i @ '': v'' @ CRLF) [0..<MAX_HEADER_COUNT + 1]) @ CRLF))) = Some TooManyHeaders \<and>
     status TooManyHeaders = HEADER_FIELDS_TOO_LARGE"

definition body_too_large_test :: bool where
  "body_too_large_test \<longleftrightarrow>
     failed (snd (push parser_new
       (''GET / HTTP/1.1'' @ CRLF @ ''Content-Length: '' @ decimal (MAX_BODY_BYTES + 1) @ CRLF @ CRLF))) = Some BodyTooLarge \<and>
     status BodyTooLarge = PAYLOAD_TOO_LARGE"

definition invalid_content_length_is_malformed_test :: bool where
  "invalid_content_length_is_malformed_test \<longleftrightarrow>
     failed (snd (push parser_new (''GET / HTTP/1.1'' @ CRLF @ ''Content-Length: abc'' @ CRLF @ CRLF))) = Some MalformedHeader"

lemma request_error_tests:
  "malformed_request_line_test" "unsupported_version_test" "malformed_header_test" "body_too_large_test"
  "invalid_content_length_is_malformed_test"
  by code_simp+

text \<open>The tests on well-formed requests read the answer off the round trip of the printed request.\<close>

lemma complete_render:
  assumes "renderable m path v hs body" and "raw = render m path v hs body"
  shows "complete (snd (push parser_new raw)) =
    Some (\<lparr>rq_method = method_parse m, rq_path = path, rq_version = v, rq_headers = \<lparr>inner = hs\<rparr>, rq_body = body\<rparr>, length raw)"
  using push_render [OF assms(1), of "[]"] assms(2) by auto

lemma well_formed_tests: "well_formed_request_test" "head_request_test"
proof -
  have r: "renderable ''GET'' ''/index.html'' Http11 [(''Host'', ''example.com''), (''Accept'', ''*/*'')] []"
    "renderable ''HEAD'' ''/'' Http11 [] []" by code_simp+
  show "well_formed_request_test"
    unfolding well_formed_request_test_def Let_def by (subst complete_render [OF r(1)]) code_simp+
  show "head_request_test"
    unfolding head_request_test_def by (subst complete_render [OF r(2)]) code_simp+
qed

lemma request_keep_alive_test: "keep_alive_rules_test"
proof -
  have r: "renderable ''GET'' ''/'' Http11 [] []" "renderable ''GET'' ''/'' Http11 [(''Connection'', ''close'')] []"
    "renderable ''GET'' ''/'' Http10 [] []" "renderable ''GET'' ''/'' Http10 [(''Connection'', ''keep-alive'')] []"
    "renderable ''GET'' ''/'' Http11 [(''Connection'', ''keep-alive, foo'')] []" by code_simp+
  note c = r [THEN complete_render [OF _ refl], unfolded render_def header_block_def header_line_def request_line_def, simplified]
  show ?thesis by (simp add: keep_alive_rules_test_def c) code_simp
qed

text \<open>The bytes behind a request are answered by the parser that has been reset.\<close>

lemma pipelined_render:
  assumes "renderable m path v hs body" and "raw = render m path v hs body" and "p = push parser_new (raw @ rest)"
  shows "complete (snd p) =
      Some (\<lparr>rq_method = method_parse m, rq_path = path, rq_version = v, rq_headers = \<lparr>inner = hs\<rparr>, rq_body = body\<rparr>, length raw)"
    and "snd (push (reset (fst p)) []) = snd (push parser_new rest)"
proof -
  obtain q r where q: "push parser_new (raw @ rest) = (q, Complete r (length raw))"
    "r = \<lparr>rq_method = method_parse m, rq_path = path, rq_version = v, rq_headers = \<lparr>inner = hs\<rparr>, rq_body = body\<rparr>"
    using push_render [OF assms(1), of rest] assms(2) by auto
  show "complete (snd p) = Some (\<lparr>rq_method = method_parse m, rq_path = path, rq_version = v,
      rq_headers = \<lparr>inner = hs\<rparr>, rq_body = body\<rparr>, length raw)" using q assms(3) by simp
  have "absorbed (reset q) rest" using absorbed_push_Complete [OF absorbed_new q(1)] by simp
  from rp.push_one_shot [OF this, of "[]"] show "snd (push (reset (fst p)) []) = snd (push parser_new rest)"
    using q(1) assms(3) by simp
qed

lemma request_body_test: "body_honored_and_leftover_retained_test"
proof -
  let ?first = "''GET /a HTTP/1.1'' @ CRLF @ ''Content-Length: 5'' @ CRLF @ CRLF @ ''hello''"
  let ?second = "''GET /b HTTP/1.1'' @ CRLF @ CRLF"
  have r: "renderable ''GET'' ''/a'' Http11 [(''Content-Length'', ''5'')] ''hello''"
    "renderable ''GET'' ''/b'' Http11 [] []" by code_simp+
  have raw: "?first = render ''GET'' ''/a'' Http11 [(''Content-Length'', ''5'')] ''hello''"
    "?second = render ''GET'' ''/b'' Http11 [] []" by code_simp+
  have "content_length \<lparr>rq_method = method_parse ''GET'', rq_path = ''/a'', rq_version = Http11,
      rq_headers = \<lparr>inner = [(''Content-Length'', ''5'')]\<rparr>, rq_body = ''hello''\<rparr> = 5" by code_simp
  moreover note pipelined_render [OF r(1) raw(1) refl, of ?second] complete_render [OF r(2) raw(2)]
  ultimately show ?thesis
    by (simp add: body_honored_and_leftover_retained_test_def Let_def)
qed

text \<open>
  A request given byte by byte is incomplete until its last byte, provided that it fits into the
  request-line ceiling, where the answer to a prefix cannot depend on the place of the cut.
\<close>

lemma bytewise_push:
  assumes "snd (push parser_new (s @ t)) = Complete r (length (s @ t))"
    and "t \<noteq> []" and "length (s @ t) \<le> MAX_REQUEST_LINE" and "absorbed p s"
  shows "bytewise p t = Some (Complete r (length (s @ t)))"
  using assms
proof (induction t arbitrary: p s)
  case (Cons b bs)
  have one: "snd (push p [b]) = snd (push parser_new (s @ [b]))"
    by (rule rp.push_one_shot [OF Cons.prems(4)])
  show ?case
  proof (cases "bs = []")
    case True
    with one Cons.prems(1) show ?thesis by simp
  next
    case False
    then have inc: "snd (push p [b]) = Incomplete"
      using one exactly_prefix_Incomplete [of "s @ [b]" bs r] Cons.prems by (simp add: exactly_def clear_of_limit_def)
    then have "absorbed (fst (push p [b])) (s @ [b])"
      using absorbed_push_Incomplete [OF Cons.prems(4), of "[b]"] by (metis prod.collapse)
    with Cons.IH [of "s @ [b]"] Cons.prems False have
      "bytewise (fst (push p [b])) bs = Some (Complete r (length (s @ b # bs)))" by simp
    with inc False show ?thesis by (simp add: Let_def)
  qed
qed simp

lemma request_bytewise_test: "byte_at_a_time_test"
proof -
  let ?raw = "''GET /a HTTP/1.1'' @ CRLF @ ''Host: x'' @ CRLF @ CRLF"
  let ?r = "\<lparr>rq_method = Get, rq_path = ''/a'', rq_version = Http11,
    rq_headers = \<lparr>inner = [(''Host'', ''x'')]\<rparr>, rq_body = []\<rparr>"
  have "snd (push parser_new ([] @ ?raw)) = Complete ?r (length ([] @ ?raw))" by code_simp
  then have "bytewise parser_new ?raw = Some (Complete ?r (length ([] @ ?raw)))"
    by (rule bytewise_push) (simp_all add: MAX_REQUEST_LINE_def absorbed_new)
  moreover have "headers_get \<lparr>inner = [(''Host'', ''x'')]\<rparr> ''host'' = Some ''x''" by code_simp
  ultimately show ?thesis by (simp add: byte_at_a_time_test_def)
qed

section \<open>The limits\<close>

lemma crlf_scan_no_LF: "LF \<notin> set (drop i b) \<Longrightarrow> fst (crlf_scan b i) = None"
proof (rule ccontr)
  assume no: "LF \<notin> set (drop i b)" and "fst (crlf_scan b i) \<noteq> None"
  then obtain k j where "crlf_scan b i = (Some k, j)" by (cases "crlf_scan b i") auto
  from crlf_scan_SomeD [OF this] have k: "i \<le> k" "k + 1 < length b" "b ! (k + 1) = LF" by auto
  then have "drop i b ! (k + 1 - i) = LF" "k + 1 - i < length (drop i b)" by auto
  with no show False by (metis nth_mem)
qed

lemma next_crlf_no_LF:
  assumes "LF \<notin> set (drop (max (scanned p) (line_start p)) (buf p))"
  shows "\<exists>i. next_crlf p = (p\<lparr>scanned := i\<rparr>, None)"
  using crlf_scan_no_LF [OF assms] by (auto simp: next_crlf_def split: prod.splits option.splits)

text \<open>A text without a line end is refused as soon as it is longer than a request line may be.\<close>

lemma push_no_line_end:
  assumes "LF \<notin> set b" and "length b > MAX_REQUEST_LINE"
  shows "snd (push parser_new b) = Failed RequestLineTooLong"
proof -
  have "\<exists>i. next_crlf (parser_new\<lparr>buf := b\<rparr>) = (parser_new\<lparr>buf := b, scanned := i\<rparr>, None)"
    using next_crlf_no_LF [of "parser_new\<lparr>buf := b\<rparr>"] assms(1) by simp
  with assms(2) have "snd (parse_request_line (parser_new\<lparr>buf := b\<rparr>)) = Inl RequestLineTooLong"
    by (auto simp: parse_request_line_def)
  then show ?thesis by (simp add: push_def advance_code [of "parser_new\<lparr>buf := b\<rparr>"] fail_def)
qed

text \<open>The state of the parser behind the request line.\<close>

definition in_headers :: "request_parser \<Rightarrow> bytes \<Rightarrow> bytes \<Rightarrow> bool" where
  "in_headers p pre rest \<longleftrightarrow>
     buf p = pre @ rest \<and> pstate p = Headers \<and> line_start p = length pre \<and> scanned p = length pre \<and>
     header_block_start p = length pre \<and> header_count p = 0"

lemma push_request_line:
  assumes "token_ok m" and "token_ok path" and "utf8_valid path" and "length (request_line m path v) \<le> MAX_REQUEST_LINE"
  shows "\<exists>p. push parser_new (request_line m path v @ CRLF @ rest) = advance p \<and>
    in_headers p (request_line m path v @ CRLF) rest"
proof -
  let ?p = "parser_new\<lparr>buf := request_line m path v @ CRLF @ rest\<rparr>"
  let ?q = "?p\<lparr>p_method := method_parse m, p_path := path, p_version := v,
       line_start := length (request_line m path v) + 2, scanned := length (request_line m path v) + 2,
       header_block_start := length (request_line m path v) + 2, pstate := Headers\<rparr>"
  have line: "parse_request_line ?p = (?q, Inr True)"
    by (rule parse_request_line_render [OF assms]) (simp_all add: parser_new_def)
  have "push parser_new (request_line m path v @ CRLF @ rest) = advance ?p"
    by (simp add: push_def parser_new_def)
  also have "\<dots> = advance ?q" by (rule advance_RequestLine [OF _ line]) (simp add: parser_new_def)
  finally show ?thesis by (intro exI [of _ ?q]) (simp add: in_headers_def parser_new_def)
qed

text \<open>A header block without a line end is refused when it is longer than a block may be.\<close>

lemma headers_no_line_end:
  assumes "in_headers p pre rest" and "LF \<notin> set rest" and "length rest > MAX_HEADER_BYTES"
  shows "snd (advance p) = Failed HeadersTooLarge"
proof -
  have "\<exists>i. next_crlf p = (p\<lparr>scanned := i\<rparr>, None)"
    using next_crlf_no_LF [of p] assms(1,2) by (simp add: in_headers_def)
  with assms(1,3) have "snd (header_turn p) = Return (Inl HeadersTooLarge)"
    by (auto simp: header_turn_def in_headers_def)
  then have "snd (parse_headers p) = Inl HeadersTooLarge" by (simp add: parse_headers_code [of p])
  with assms(1) show ?thesis by (simp add: advance_code [of p] in_headers_def fail_def)
qed

text \<open>One field more than a request may have is refused, whatever the fields are.\<close>

lemma header_turn_too_many:
  assumes buf: "buf p = pre @ header_line h @ rest" and ok: "field_ok h"
    and at: "line_start p = length pre" "scanned p \<le> length pre"
    and count: "header_count p + 1 > MAX_HEADER_COUNT"
    and fits: "length pre + length (header_line h) - header_block_start p \<le> MAX_HEADER_BYTES"
  shows "snd (header_turn p) = Return (Inl TooManyHeaders)"
proof -
  have "subslice (line_start p) (length pre + length (fst h @ '': '' @ snd h)) (buf p) = fst h @ '': '' @ snd h"
    using buf at by (simp add: subslice_def header_line_def)
  then have "snd (header_field_at p (length pre + length (fst h @ '': '' @ snd h))) = Return (Inl TooManyHeaders)"
    using ok count position_colon [of "fst h" "snd h"]
    by (simp add: header_field_at_def Let_def field_ok_def utf8_valid_space trim_space trim_trimmed)
  then show ?thesis using header_turn_field [OF buf ok at fits] by simp
qed

lemma parse_headers_too_many:
  assumes "buf p = pre @ concat (map header_line hs) @ tail" and "list_all field_ok hs"
    and "line_start p = length pre" and "scanned p \<le> length pre"
    and "header_count p \<le> MAX_HEADER_COUNT" and "header_count p + length hs > MAX_HEADER_COUNT"
    and "length pre + length (concat (map header_line hs)) - header_block_start p \<le> MAX_HEADER_BYTES"
  shows "snd (parse_headers p) = Inl TooManyHeaders"
  using assms
proof (induction hs arbitrary: p pre)
  case (Cons h hs)
  let ?L = "length pre + length (header_line h)"
  let ?p = "p\<lparr>header_count := header_count p + 1,
     p_headers := headers_insert (p_headers p) (fst h) (snd h), line_start := ?L, scanned := ?L\<rparr>"
  have buf: "buf p = pre @ header_line h @ (concat (map header_line hs) @ tail)" using Cons.prems by simp
  show ?case
  proof (cases "header_count p + 1 \<le> MAX_HEADER_COUNT")
    case True
    have "header_turn p = (?p, Again)" by (rule header_turn_line [OF buf]) (use Cons.prems True in simp_all)
    moreover have "snd (parse_headers ?p) = Inl TooManyHeaders"
      by (rule Cons.IH [of _ "pre @ header_line h"]) (use Cons.prems True in simp_all)
    ultimately show ?thesis by (simp add: parse_headers.simps [of p])
  next
    case False
    have "snd (header_turn p) = Return (Inl TooManyHeaders)"
      by (rule header_turn_too_many [OF buf]) (use Cons.prems False in simp_all)
    then show ?thesis by (simp add: parse_headers_code [of p])
  qed
qed simp

lemma headers_too_many:
  assumes "in_headers p pre (concat (map header_line hs) @ tail)" and "list_all field_ok hs"
    and "length hs > MAX_HEADER_COUNT" and "length (concat (map header_line hs)) \<le> MAX_HEADER_BYTES"
  shows "snd (advance p) = Failed TooManyHeaders"
proof -
  have "snd (parse_headers p) = Inl TooManyHeaders"
    by (rule parse_headers_too_many [of _ pre hs tail]) (use assms in \<open>simp_all add: in_headers_def\<close>)
  with assms(1) show ?thesis by (simp add: advance_code [of p] in_headers_def fail_def)
qed

lemma numbered_field_ok: "field_ok (''H'' @ decimal i, ''v'')"
proof -
  have d: "byte_in 48 57 c" if "c \<in> set (decimal i)" for c using decimal_digits that .
  then have "CHR '':'' \<notin> set (decimal i)" "CR \<notin> set (decimal i)" by (auto simp: byte_in_def dest!: d)
  moreover have "utf8_valid (''H'' @ decimal i)" by (rule utf8_valid_ascii) (auto simp: byte_in_def dest!: d)
  moreover have "trimmed (''H'' @ decimal i)"
  proof -
    obtain c s where c: "rev (decimal i) = c # s" by (cases "rev (decimal i)") auto
    have "byte_in 48 57 c" using d [of c] c by (metis list.set_intros(1) set_rev)
    moreover have "strip_one white_space (CHR ''H'' # decimal i) = None"
      by (simp add: strip_one_def white_space_def)
    ultimately show ?thesis using strip_digit(2) [of c "s @ ''H''"] c by (simp add: trimmed_def)
  qed
  moreover have "utf8_valid ''v'' \<and> trimmed ''v''" by code_simp
  ultimately show ?thesis by (simp add: field_ok_def)
qed

lemma get_root_line:
  "\<exists>p. push parser_new (''GET / HTTP/1.1'' @ CRLF @ rest) = advance p \<and> in_headers p (''GET / HTTP/1.1'' @ CRLF) rest"
proof -
  have "utf8_valid ''/''" by code_simp
  then show ?thesis using push_request_line [of "''GET''" "''/''" Http11 rest]
    by (simp add: request_line_def token_ok_def MAX_REQUEST_LINE_def)
qed

lemma request_line_limit_test: "request_line_too_long_test"
  using push_no_line_end [of "''GET /'' @ replicate (MAX_REQUEST_LINE + 10) (CHR ''a'')"]
  by (simp add: request_line_too_long_test_def)

lemma header_bytes_limit_test: "headers_too_large_test"
proof -
  obtain p where "push parser_new (''GET / HTTP/1.1'' @ CRLF @ ''X: '' @ replicate (MAX_HEADER_BYTES + 10) (CHR ''a'')) = advance p"
    "in_headers p (''GET / HTTP/1.1'' @ CRLF) (''X: '' @ replicate (MAX_HEADER_BYTES + 10) (CHR ''a''))"
    using get_root_line by blast
  then show ?thesis using headers_no_line_end [of p] by (simp add: headers_too_large_test_def)
qed

lemma header_count_limit_test: "too_many_headers_test"
proof -
  let ?hs = "map (\<lambda>i. (''H'' @ decimal i, ''v'')) [0..<MAX_HEADER_COUNT + 1]"
  let ?fields = "concat (map (\<lambda>i. ''H'' @ decimal i @ '': v'' @ CRLF) [0..<MAX_HEADER_COUNT + 1])"
  have fields: "?fields = concat (map header_line ?hs)"
    by (simp add: comp_def header_line_def)
  obtain p where p: "push parser_new (''GET / HTTP/1.1'' @ CRLF @ ?fields @ CRLF) = advance p"
    "in_headers p (''GET / HTTP/1.1'' @ CRLF) (?fields @ CRLF)"
    using get_root_line by blast
  have "list_all field_ok ?hs" using numbered_field_ok by (simp add: list_all_iff)
  moreover have "length (concat (map header_line ?hs)) \<le> MAX_HEADER_BYTES" by code_simp
  ultimately have "snd (advance p) = Failed TooManyHeaders"
    using headers_too_many p(2) unfolding fields by fastforce
  with p(1) show ?thesis by (simp add: too_many_headers_test_def)
qed

end
