(* ===== verification/Conformance_Client.thy ===== *)
theory Conformance_Client
  imports Loadgen_Client
begin

text \<open>
  The HTTP client of the conformance suite, \<open>server/tests/conformance.rs\<close>: \<open>find\<close>, \<open>read_response\<close>
  with \<open>status_code\<close> and \<open>content_length\<close>, and the parts of the standard library it uses. A panic,
  which fails the test, is \<open>None\<close>. The theorem says that the client reads any response of the
  encoder exactly, however the network cuts it into pieces.
\<close>

section \<open>The standard library\<close>

text \<open>\<open>slice::windows\<close>, and \<open>[u8]::windows(n).position\<close> and \<open>any\<close> in the forms the suite uses.\<close>

definition windows :: "nat \<Rightarrow> 'a list \<Rightarrow> 'a list list" where
  "windows n xs = map (\<lambda>i. take n (drop i xs)) [0..<Suc (length xs) - n]"

definition find_bytes :: "bytes \<Rightarrow> bytes \<Rightarrow> nat option" where
  "find_bytes haystack needle = position (\<lambda>w. w = needle) (windows (length needle) haystack)"

text \<open>\<open>str::contains\<close>.\<close>

definition str_contains :: "str \<Rightarrow> str \<Rightarrow> bool" where
  "str_contains s pat \<longleftrightarrow> list_ex (\<lambda>w. w = pat) (windows (length pat) s)"

text \<open>
  \<open>str::lines\<close>: the pieces between line feeds, each without a carriage return before the line
  feed; a last piece without a line feed counts when it is not empty.
\<close>

definition strip_cr :: "str \<Rightarrow> str" where
  "strip_cr l = (if l \<noteq> [] \<and> last l = CR then butlast l else l)"

definition str_lines :: "str \<Rightarrow> str list" where
  "str_lines s =
     (let ps = split_on (\<lambda>c. c = LF) s in
      map strip_cr (butlast ps) @ (if last ps = [] then [] else [last ps]))"

text \<open>
  \<open>str::split_whitespace\<close>. The encoding of a white-space character is found only where a character
  begins, so a byte-wise scan sees the same pieces.
\<close>

function ws_pieces :: "str \<Rightarrow> str \<Rightarrow> str list" where
  "ws_pieces piece [] = (if piece = [] then [] else [piece])"
| "ws_pieces piece (c # s) =
     (case strip_one white_space (c # s) of
        Some s' \<Rightarrow> (if piece = [] then [] else [piece]) @ ws_pieces [] s'
      | None \<Rightarrow> ws_pieces (piece @ [c]) s)"
  by pat_completeness auto
termination
  by (relation "measure (\<lambda>(p, s). length s)") (auto dest: strip_one_shorter)

definition split_whitespace :: "str \<Rightarrow> str list" where
  "split_whitespace s = ws_pieces [] s"

definition nth_opt :: "nat \<Rightarrow> 'a list \<Rightarrow> 'a option" where
  "nth_opt n xs = (if n < length xs then Some (xs ! n) else None)"

text \<open>
  \<open>String::from_utf8_lossy\<close>: a byte sequence that begins no character is replaced, as far as it is
  the beginning of one, by the replacement character.
\<close>

definition utf8_second :: "byte \<Rightarrow> byte \<Rightarrow> bool" where
  "utf8_second a b \<longleftrightarrow>
     byte_in 0xE0 0xE0 a \<and> byte_in 0xA0 0xBF b \<or> byte_in 0xE1 0xEC a \<and> utf8_cont b \<or>
     byte_in 0xED 0xED a \<and> byte_in 0x80 0x9F b \<or> byte_in 0xEE 0xEF a \<and> utf8_cont b \<or>
     byte_in 0xF0 0xF0 a \<and> byte_in 0x90 0xBF b \<or> byte_in 0xF1 0xF3 a \<and> utf8_cont b \<or>
     byte_in 0xF4 0xF4 a \<and> byte_in 0x80 0x8F b"

definition utf8_broken :: "bytes \<Rightarrow> nat" where
  "utf8_broken s = (case s of
     a # b # r \<Rightarrow>
       if utf8_second a b
       then (case r of c # _ \<Rightarrow> if byte_in 0xF0 0xF4 a \<and> utf8_cont c then 3 else 2 | [] \<Rightarrow> 2)
       else 1
   | _ \<Rightarrow> 1)"

lemma utf8_broken_pos: "0 < utf8_broken s"
  by (simp add: utf8_broken_def split: list.split)

function from_utf8_lossy :: "bytes \<Rightarrow> str" where
  "from_utf8_lossy s =
     (if s = [] then []
      else (case utf8_head s of
          Some n \<Rightarrow> take n s @ from_utf8_lossy (drop n s)
        | None \<Rightarrow> [CHR 0xEF, CHR 0xBF, CHR 0xBD] @ from_utf8_lossy (drop (utf8_broken s) s)))"
  by pat_completeness auto
termination
  by (relation "measure length") (auto dest: utf8_head_bounds simp: utf8_broken_pos)

declare from_utf8_lossy.simps [simp del]

lemma from_utf8_lossy_valid: "utf8_valid s \<Longrightarrow> from_utf8_lossy s = s"
proof (induction s rule: from_utf8_lossy.induct)
  case (1 s)
  show ?case
  proof (cases "s = []")
    case False
    with "1.prems" obtain n where n: "utf8_head s = Some n" "utf8_valid (drop n s)"
      by (subst (asm) utf8_valid.simps) (auto split: option.splits)
    with "1.IH"(2) [OF False n] False show ?thesis by (simp add: from_utf8_lossy.simps [of s])
  qed (simp add: from_utf8_lossy.simps)
qed

section \<open>Reading a response\<close>

definition status_code_of :: "str \<Rightarrow> 16 word option" where
  "status_code_of headers =
     (case str_lines headers of
        [] \<Rightarrow> None
      | line # _ \<Rightarrow>
          (case nth_opt 1 (split_whitespace line) of
             None \<Rightarrow> None
           | Some code \<Rightarrow> map_option word_of_nat (parse_uint 65535 code)))"

definition content_length_of :: "str \<Rightarrow> usize" where
  "content_length_of headers =
     (case List.find (\<lambda>l. prefix ''content-length:'' (map to_ascii_lowercase l)) (str_lines headers) of
        None \<Rightarrow> 0
      | Some l \<Rightarrow>
          (case nth_opt 1 (split_on (\<lambda>c. c = CHR '':'') l) of
             None \<Rightarrow> 0
           | Some v \<Rightarrow> (case parse_usize (trim v) of None \<Rightarrow> 0 | Some n \<Rightarrow> n)))"

text \<open>
  The two loops of \<open>read_response\<close>. The first panics when reading fails or the stream ends; the
  second panics when reading fails and stops at the end of the stream.
\<close>

function read_header_block :: "tcp_stream \<Rightarrow> bytes \<Rightarrow> (tcp_stream \<times> bytes \<times> usize) option" where
  "read_header_block s acc =
     (case find_bytes acc (CRLF @ CRLF) of
        Some pos \<Rightarrow> Some (s, acc, pos + 4)
      | None \<Rightarrow>
          (case stream_read 1024 s of
             (s', Inl e) \<Rightarrow> None
           | (s', Inr bs) \<Rightarrow> if bs = [] then None else read_header_block s' (acc @ bs)))"
  by pat_completeness auto
termination
  by (relation "measure (\<lambda>(s, acc). stream_weight s)") (auto dest: stream_read_weight [OF sym])

function read_rest :: "usize \<Rightarrow> tcp_stream \<Rightarrow> bytes \<Rightarrow> (tcp_stream \<times> bytes) option" where
  "read_rest n s acc =
     (if length acc < n then
        (case stream_read 1024 s of
           (s', Inl e) \<Rightarrow> None
         | (s', Inr bs) \<Rightarrow> if bs = [] then Some (s', acc) else read_rest n s' (acc @ bs))
      else Some (s, acc))"
  by pat_completeness auto
termination
  by (relation "measure (\<lambda>(n, s, acc). stream_weight s)") (auto dest: stream_read_weight [OF sym])

declare read_header_block.simps [simp del] read_rest.simps [simp del]

record test_response =
  tr_status :: "16 word"
  tr_headers :: str
  tr_body :: bytes

definition read_response :: "tcp_stream \<Rightarrow> (tcp_stream \<times> test_response) option" where
  "read_response s =
     (case read_header_block s [] of
        None \<Rightarrow> None
      | Some (s, acc, header_end) \<Rightarrow>
          let header_text = from_utf8_lossy (take header_end acc);
              n = content_length_of header_text in
          (case read_rest (header_end + n) s acc of
             None \<Rightarrow> None
           | Some (s, acc) \<Rightarrow>
               (case status_code_of header_text of
                  None \<Rightarrow> None
                | Some code \<Rightarrow>
                    Some (s, \<lparr>tr_status = code, tr_headers = header_text,
                      tr_body = subslice header_end (min (header_end + n) (length acc)) acc\<rparr>))))"

section \<open>Searching\<close>

lemma windows_short: "length xs < n \<Longrightarrow> windows n xs = []"
  by (simp add: windows_def)

lemma windows_Cons:
  "windows n (c # s) = (if n \<le> Suc (length s) then take n (c # s) # windows n s else [])"
proof (cases "n \<le> Suc (length s)")
  case True
  then have "[0..<Suc (length (c # s)) - n] = 0 # map Suc [0..<Suc (length s) - n]"
    by (simp add: Suc_diff_le upt_conv_Cons map_Suc_upt del: upt_Suc)
  with True show ?thesis by (simp add: windows_def comp_def del: upt_Suc)
qed (simp add: windows_short)

lemma prefix_take_iff: "prefix p xs \<longleftrightarrow> length p \<le> length xs \<and> take (length p) xs = p"
  by (metis append_eq_conv_conj prefix_def prefix_length_le)

lemma prefix_of_take: "prefix p (take n xs) \<longleftrightarrow> prefix p xs \<and> length p \<le> n"
  by (auto simp: prefix_take_iff min_def)

lemma find_bytes_short: "length s < length p \<Longrightarrow> find_bytes s p = None"
  by (simp add: find_bytes_def windows_short)

lemma find_bytes_Cons:
  assumes "p \<noteq> []"
  shows "find_bytes (c # s) p = (if prefix p (c # s) then Some 0 else map_option Suc (find_bytes s p))"
  using assms find_bytes_short [of s p]
  by (auto simp: find_bytes_def windows_Cons prefix_take_iff)

lemma find_bytes_bound: "find_bytes s p = Some k \<Longrightarrow> p \<noteq> [] \<Longrightarrow> k + length p \<le> length s"
proof (induction s arbitrary: k)
  case (Cons c s)
  then show ?case by (auto simp: find_bytes_Cons dest: prefix_length_le split: if_splits)
qed (simp add: find_bytes_short)

text \<open>What has arrived so far is searched as the whole is.\<close>

lemma find_bytes_take:
  assumes "p \<noteq> []"
  shows "find_bytes (take n s) p =
    (case find_bytes s p of None \<Rightarrow> None | Some k \<Rightarrow> if k + length p \<le> n then Some k else None)"
proof (induction s arbitrary: n)
  case Nil
  with assms show ?case by (simp add: find_bytes_short)
next
  case (Cons c s)
  show ?case
  proof (cases n)
    case 0
    with assms show ?thesis by (simp add: find_bytes_short split: option.split)
  next
    case (Suc m)
    have p: "prefix p (c # take m s) \<longleftrightarrow> prefix p (c # s) \<and> length p \<le> Suc m"
      using prefix_of_take [of p "Suc m" "c # s"] by simp
    show ?thesis
    proof (cases "prefix p (c # s) \<and> \<not> length p \<le> Suc m")
      case True
      then have "length (take m s) < length p" by auto
      with True Suc assms p show ?thesis by (simp add: find_bytes_Cons find_bytes_short)
    next
      case False
      with Suc assms p Cons [of m] show ?thesis
        by (auto simp: find_bytes_Cons split: option.splits if_splits)
    qed
  qed
qed

section \<open>The lines of a header block\<close>

definition block :: "str list \<Rightarrow> bytes" where
  "block ls = concat (map (\<lambda>l. l @ CRLF) ls)"

lemma block_simps [simp]: "block [] = []" "block (l # ls) = l @ CRLF @ block ls"
  by (simp_all add: block_def)

lemma find_line:
  "LF \<notin> set l \<Longrightarrow> find_bytes (l @ CRLF @ w) (CRLF @ CRLF) =
     (if prefix CRLF w then Some (length l)
      else map_option (\<lambda>k. length l + 2 + k) (find_bytes w (CRLF @ CRLF)))"
proof (induction l)
  case Nil
  show ?case by (cases "find_bytes w (CRLF @ CRLF)") (auto simp: find_bytes_Cons)
next
  case (Cons c l)
  have "\<not> prefix (CRLF @ CRLF) ((c # l) @ CRLF @ w)" using Cons.prems by (cases l) auto
  with Cons show ?case
    by (cases "find_bytes w (CRLF @ CRLF)") (auto simp: find_bytes_Cons)
qed

lemma find_block:
  assumes "ls \<noteq> []" and "list_all (\<lambda>l. l \<noteq> [] \<and> LF \<notin> set l) ls"
  shows "find_bytes (block ls @ CRLF @ rest) (CRLF @ CRLF) = Some (length (block ls) - 2)"
  using assms
proof (induction ls)
  case (Cons l ls)
  then have l: "LF \<notin> set l" by simp
  show ?case
  proof (cases ls)
    case Nil
    then show ?thesis using find_line [OF l, of "CRLF @ rest"] by simp
  next
    case (Cons l2 ls2)
    then have l2: "l2 \<noteq> []" "LF \<notin> set l2" using \<open>list_all _ (l # ls)\<close> by simp_all
    have "\<not> prefix CRLF (block ls @ CRLF @ rest)" using l2 Cons by (cases l2; cases "tl l2") auto
    with find_line [OF l, of "block ls @ CRLF @ rest"] Cons.IH Cons \<open>list_all _ (l # ls)\<close>
    show ?thesis by simp
  qed
qed simp

lemma split_block:
  "list_all (\<lambda>l. LF \<notin> set l) ls \<Longrightarrow>
     split_on (\<lambda>c. c = LF) (block ls @ CRLF) = map (\<lambda>l. l @ [CR]) ls @ [[CR], []]"
proof (induction ls)
  case (Cons l ls)
  have "split_on (\<lambda>c. c = LF) ((l @ [CR]) @ LF # (block ls @ CRLF)) =
      (l @ [CR]) # split_on (\<lambda>c. c = LF) (block ls @ CRLF)"
    by (rule split_on_append_sep) (use Cons.prems in auto)
  with Cons show ?case by simp
qed simp

lemma str_lines_block: "list_all (\<lambda>l. LF \<notin> set l) ls \<Longrightarrow> str_lines (block ls @ CRLF) = ls @ [[]]"
  by (simp add: str_lines_def split_block Let_def butlast_append comp_def strip_cr_def)

section \<open>The header block of a response\<close>

definition status_text :: "response \<Rightarrow> str" where
  "status_text r = ''HTTP/1.1 '' @ decimal (unat (sc_code (rs_status r))) @ '' '' @ reason (rs_status r)"

definition field_text :: "str \<times> str \<Rightarrow> str" where
  "field_text h = fst h @ '': '' @ snd h"

definition head_lines :: "response \<Rightarrow> bool \<Rightarrow> str list" where
  "head_lines r ka = status_text r # map field_text (wire_headers r ka)"

lemma response_head_block: "response_head r ka = block (head_lines r ka) @ CRLF"
  by (simp add: response_head_def status_line_def head_lines_def status_text_def block_def field_text_def
      header_line_def [abs_def] comp_def)

lemma status_text_ascii: "c \<in> set (status_text r) \<Longrightarrow> byte_in 32 122 c"
  using decimal_digits [of c "unat (sc_code (rs_status r))"] reason_ascii [of c "rs_status r"]
  by (auto simp: status_text_def byte_in_def)

lemma head_lines_ok:
  assumes "list_all readable_field (wire_headers r ka)"
  shows "list_all (\<lambda>l. l \<noteq> [] \<and> LF \<notin> set l) (head_lines r ka)" "list_all (\<lambda>l. LF \<notin> set l) (head_lines r ka)"
    "list_all utf8_valid (head_lines r ka)"
proof -
  have "LF \<notin> set (status_text r)" "status_text r \<noteq> []"
    using status_text_ascii [of LF r] by (auto simp: byte_in_def) (simp add: status_text_def)
  with assms show "list_all (\<lambda>l. l \<noteq> [] \<and> LF \<notin> set l) (head_lines r ka)"
    by (auto simp: head_lines_def list_all_iff readable_field_def field_text_def)
  then show "list_all (\<lambda>l. LF \<notin> set l) (head_lines r ka)" by (auto simp: list_all_iff)
  have "utf8_valid (status_text r)"
    by (rule utf8_valid_ascii) (use status_text_ascii [of _ r] in \<open>force simp: byte_in_def\<close>)
  moreover have "utf8_valid (field_text h)" if "readable_field h" for h
    using that utf8_valid_append [OF _ utf8_valid_append [OF utf8_valid_CRLF(2)], of "fst h" "snd h"]
    by (simp add: readable_field_def field_text_def)
  ultimately show "list_all utf8_valid (head_lines r ka)"
    using assms by (auto simp: head_lines_def list_all_iff)
qed

lemma utf8_valid_block: "list_all utf8_valid ls \<Longrightarrow> utf8_valid (block ls)"
  by (induction ls) (simp_all add: utf8_valid_append utf8_valid_append [OF utf8_valid_CRLF(1), simplified])

lemma response_head_text:
  "list_all readable_field (wire_headers r ka) \<Longrightarrow> from_utf8_lossy (response_head r ka) = response_head r ka"
  by (intro from_utf8_lossy_valid)
     (simp only: response_head_block utf8_valid_append utf8_valid_block head_lines_ok utf8_valid_CRLF)

lemma ws_pieces_word:
  "list_all (byte_in 33 126) w \<Longrightarrow> ws_pieces p (w @ s) = ws_pieces (p @ w) s"
proof (induction w arbitrary: p)
  case (Cons c w)
  have "list_all (\<lambda>x. x \<noteq> [] \<and> \<not> byte_in 33 126 (hd x)) white_space" by code_simp
  then have "strip_one white_space (c # w @ s) = None"
    by (intro strip_one_first) (use Cons.prems in \<open>force simp: list_all_iff\<close>)
  with Cons show ?case by simp
qed simp

lemma ws_pieces_space: "p \<noteq> [] \<Longrightarrow> ws_pieces p (CHR '' '' # s) = p # ws_pieces [] s"
  by (simp add: strip_one_space)

lemma status_code_head:
  assumes "list_all readable_field (wire_headers r ka)"
  shows "status_code_of (response_head r ka) = Some (sc_code (rs_status r))"
proof -
  let ?n = "unat (sc_code (rs_status r))"
  have d: "list_all (byte_in 33 126) (decimal ?n)"
    using decimal_digits [of _ ?n] by (force simp: list_all_iff byte_in_def)
  have "ws_pieces [] (''HTTP/1.1'' @ CHR '' '' # decimal ?n @ CHR '' '' # reason (rs_status r)) =
      ''HTTP/1.1'' # decimal ?n # ws_pieces [] (reason (rs_status r))"
  proof -
    have "list_all (byte_in 33 126) ''HTTP/1.1''" by code_simp
    from ws_pieces_word [OF this, of "[]"] ws_pieces_word [OF d, of "[]"] show ?thesis
      by (simp only: append_Nil) (simp only: ws_pieces_space decimal_not_Nil list.distinct not_False_eq_True)
  qed
  then have "nth_opt 1 (split_whitespace (status_text r)) = Some (decimal ?n)"
    by (simp add: split_whitespace_def status_text_def nth_opt_def)
  moreover have "?n \<le> 65535" using unsigned_less [of "sc_code (rs_status r)", where ?'a = nat] by simp
  ultimately show ?thesis
    using str_lines_block [OF head_lines_ok(2) [OF assms]]
    by (simp add: status_code_of_def response_head_block head_lines_def parse_uint_decimal del: block_simps)
qed

lemma find_filter: "List.find P xs = (case filter P xs of [] \<Rightarrow> None | x # _ \<Rightarrow> Some x)"
  by (induction xs) auto

lemma find_map: "List.find P (map f xs) = map_option f (List.find (P \<circ> f) xs)"
  by (induction xs) auto

lemma lower_colon: "to_ascii_lowercase c = CHR '':'' \<longleftrightarrow> c = CHR '':''"
proof -
  have "to_ascii_lowercase c \<noteq> CHR '':''" if "65 \<le> bval c" "bval c \<le> 90"
  proof
    assume "to_ascii_lowercase c = CHR '':''"
    then have "bval (char_of (bval c + 32)) = bval (CHR '':'')" using that by (simp add: to_ascii_lowercase_def)
    then show False using that by simp
  qed
  then show ?thesis by (auto simp: to_ascii_lowercase_def)
qed

lemma prefix_until:
  assumes "x \<notin> set p" and "x \<notin> set k"
  shows "prefix (p @ [x]) (k @ x # s) \<longleftrightarrow> p = k"
proof
  assume "prefix (p @ [x]) (k @ x # s)"
  then obtain t where "p @ x # t = k @ x # s" by (auto simp: prefix_def)
  then have "takeWhile (\<lambda>c. c \<noteq> x) (p @ x # t) = takeWhile (\<lambda>c. c \<noteq> x) (k @ x # s)" by simp
  moreover have "takeWhile (\<lambda>c. c \<noteq> x) (q @ x # u) = q" if "x \<notin> set q" for q u
    using that by (induction q) auto
  ultimately show "p = k" using assms by metis
qed (simp add: prefix_def)

lemma field_text_length:
  assumes "readable_field h"
  shows "prefix ''content-length:'' (map to_ascii_lowercase (field_text h)) \<longleftrightarrow>
    eq_ignore_ascii_case (fst h) ''content-length''"
proof -
  have lower: "map to_ascii_lowercase ''content-length'' = ''content-length''"
    by (simp add: to_ascii_lowercase_def)
  have "CHR '':'' \<notin> set (fst h)" using assms by (simp add: readable_field_def)
  then have "CHR '':'' \<notin> set (map to_ascii_lowercase (fst h))"
    unfolding set_map by (metis imageE lower_colon)
  then have "prefix (''content-length'' @ [CHR '':''])
      (map to_ascii_lowercase (fst h) @ CHR '':'' # map to_ascii_lowercase (CHR '' '' # snd h)) \<longleftrightarrow>
      ''content-length'' = map to_ascii_lowercase (fst h)"
    by (rule prefix_until [rotated]) simp
  moreover have "map to_ascii_lowercase (field_text h) =
      map to_ascii_lowercase (fst h) @ CHR '':'' # map to_ascii_lowercase (CHR '' '' # snd h)"
    by (simp add: field_text_def lower_colon [THEN iffD2])
  ultimately show ?thesis unfolding eq_ignore_ascii_case_def lower by auto
qed

lemma trim_field_decimal: "trim (CHR '' '' # decimal n) = decimal n"
proof -
  obtain c s where d: "decimal n = c # s" by (cases "decimal n") auto
  have "byte_in 48 57 c" using decimal_digits [of c n] d by simp
  then have "trim_start (CHR '' '' # decimal n) = decimal n"
    by (simp add: trim_start_def strip_all.simps [of white_space "CHR '' '' # _"] strip_one_space
        strip_all_fixed d strip_digit)
  moreover have "trim_end (decimal n) = decimal n"
    using trimmed_decimal [of n] by (simp add: trim_end_def trimmed_def strip_all_fixed)
  ultimately show ?thesis by (simp add: trim_def)
qed

lemma content_length_head:
  assumes "list_all readable_field (wire_headers r ka)" and "body_usize r"
  shows "content_length_of (response_head r ka) = length (body_bytes (rs_body r))"
proof -
  let ?n = "length (body_bytes (rs_body r))"
  let ?P = "\<lambda>l. prefix ''content-length:'' (map to_ascii_lowercase l)"
  have "filter (?P \<circ> field_text) (wire_headers r ka) =
      filter (\<lambda>h. eq_ignore_ascii_case (fst h) ''content-length'') (wire_headers r ka)"
    by (rule filter_cong) (use assms(1) field_text_length in \<open>auto simp: list_all_iff\<close>)
  then have "List.find ?P (map field_text (wire_headers r ka)) = Some (field_text (''Content-Length'', decimal ?n))"
    by (simp add: find_map find_filter [of "_ \<circ> _"] wire_headers_content_length)
  moreover have "\<not> ?P (status_text r)" by (simp add: status_text_def to_ascii_lowercase_def)
  ultimately have f: "List.find ?P (head_lines r ka @ [[]]) = Some (field_text (''Content-Length'', decimal ?n))"
    by (simp add: head_lines_def find_append)
  have "split_on (\<lambda>c. c = CHR '':'') (''Content-Length'' @ CHR '':'' # (CHR '' '' # decimal ?n)) =
      [''Content-Length'', CHR '' '' # decimal ?n]"
    using decimal_digits [of "CHR '':''" ?n] split_on_no_sep [of "CHR '' '' # decimal ?n" "\<lambda>c. c = CHR '':''"]
    by (subst split_on_append_sep) (auto simp: byte_in_def simp del: split_on.simps(2))
  then have "nth_opt 1 (split_on (\<lambda>c. c = CHR '':'') (field_text (''Content-Length'', decimal ?n))) =
      Some (CHR '' '' # decimal ?n)"
    by (simp add: field_text_def nth_opt_def)
  then show ?thesis
    using str_lines_block [OF head_lines_ok(2) [OF assms(1)]] f assms(2)
    by (simp add: content_length_of_def response_head_block trim_field_decimal parse_uint_decimal body_usize_def
        del: block_simps)
qed

section \<open>Reading in pieces\<close>

text \<open>The pieces \<open>cs\<close> arrive next on the stream, and after them comes \<open>rs\<close>.\<close>

definition arriving :: "tcp_stream \<Rightarrow> bytes list \<Rightarrow> rd list \<Rightarrow> bool" where
  "arriving s cs rs \<longleftrightarrow> s_in s = map RdData cs @ rs \<and> [] \<notin> set cs"

lemma stream_read_arriving:
  assumes "arriving s cs rs" and "cs \<noteq> []" and "0 < cap"
  obtains s' bs cs' where "stream_read cap s = (s', Inr bs)" "bs \<noteq> []" "arriving s' cs' rs"
    "concat cs = bs @ concat cs'" "s_out s' = s_out s"
proof -
  obtain c ds where cs: "cs = c # ds" using assms(2) by (cases cs) auto
  let ?r = "if length c \<le> cap then ds else drop cap c # ds"
  let ?s = "s\<lparr>s_in := map RdData ?r @ rs, s_rcvd := s_rcvd s @ take cap c\<rparr>"
  have c: "c \<noteq> []" "[] \<notin> set ds" using assms(1) cs by (auto simp: arriving_def)
  show ?thesis
  proof (rule that)
    show "stream_read cap s = (?s, Inr (take cap c))"
      using assms(1) cs by (simp add: stream_read_def arriving_def)
    show "concat cs = take cap c @ concat ?r" by (simp add: cs)
  qed (use c assms(3) in \<open>auto simp: arriving_def\<close>)
qed

lemma read_header_block_arriving:
  assumes "arriving s cs rs" and "find_bytes (acc @ concat cs) (CRLF @ CRLF) = Some k"
  shows "\<exists>s' acc' cs'. read_header_block s acc = Some (s', acc', k + 4) \<and> arriving s' cs' rs \<and>
    acc' @ concat cs' = acc @ concat cs \<and> k + 4 \<le> length acc' \<and> s_out s' = s_out s"
  using assms
proof (induction s acc arbitrary: cs rule: read_header_block.induct)
  case (1 s acc)
  have here: "find_bytes acc (CRLF @ CRLF) = (if k + 4 \<le> length acc then Some k else None)"
    using find_bytes_take [of "CRLF @ CRLF" "length acc" "acc @ concat cs"] "1.prems"(2) by simp
  show ?case
  proof (cases "k + 4 \<le> length acc")
    case True
    with here "1.prems"(1) show ?thesis by (subst read_header_block.simps) auto
  next
    case False
    then have "cs \<noteq> []" using find_bytes_bound [OF "1.prems"(2)] by auto
    from stream_read_arriving [OF "1.prems"(1) this, of 1024]
    obtain s' bs cs' where rd: "stream_read 1024 s = (s', Inr bs)" "bs \<noteq> []" "arriving s' cs' rs"
      "concat cs = bs @ concat cs'" "s_out s' = s_out s" by auto
    from "1.IH" [OF _ rd(1) [symmetric] refl rd(2) rd(3)] here False "1.prems"(2) rd
    show ?thesis by (subst read_header_block.simps) simp
  qed
qed

lemma read_rest_arriving:
  assumes "arriving s cs rs" and "n = length (acc @ concat cs)"
  shows "\<exists>s'. read_rest n s acc = Some (s', acc @ concat cs) \<and> s_in s' = rs \<and> s_out s' = s_out s"
  using assms
proof (induction n s acc arbitrary: cs rule: read_rest.induct)
  case (1 n s acc)
  show ?case
  proof (cases "cs = []")
    case True
    with "1.prems" show ?thesis by (subst read_rest.simps) (simp add: arriving_def)
  next
    case False
    from stream_read_arriving [OF "1.prems"(1) this, of 1024]
    obtain s' bs cs' where rd: "stream_read 1024 s = (s', Inr bs)" "bs \<noteq> []" "arriving s' cs' rs"
      "concat cs = bs @ concat cs'" "s_out s' = s_out s" by auto
    then have more: "length acc < n" using "1.prems"(2) by simp
    from "1.IH" [OF more rd(1) [symmetric] refl rd(2,3)] more "1.prems"(2) rd
    show ?thesis by (subst read_rest.simps) simp
  qed
qed

text \<open>
  The client reads exactly one response: its status, its header block and its body, however the
  bytes are cut into pieces, and it leaves what comes after it on the stream.
\<close>

lemma read_response_exact:
  assumes "body_usize r" and "list_all readable_field (wire_headers r ka)"
    and "arriving s cs rs" and "concat cs = encode r ka True []"
  shows "\<exists>s'. read_response s = Some (s', \<lparr>tr_status = sc_code (rs_status r), tr_headers = response_head r ka,
      tr_body = body_bytes (rs_body r)\<rparr>) \<and> s_in s' = rs \<and> s_out s' = s_out s"
proof -
  let ?hd = "response_head r ka" and ?b = "body_bytes (rs_body r)" and ?ls = "head_lines r ka"
  have all: "concat cs = ?hd @ ?b" using assms(4) encode_eq [OF assms(1), of ka True "[]"] by simp
  have len: "length ?hd = length (block ?ls) + 2" by (simp add: response_head_block)
  have two: "2 \<le> length (block ?ls)" by (simp add: head_lines_def)
  have "find_bytes (concat cs) (CRLF @ CRLF) = Some (length (block ?ls) - 2)"
    using find_block [OF _ head_lines_ok(1) [OF assms(2)], of ?b]
    by (simp add: all response_head_block head_lines_def del: block_simps)
  from read_header_block_arriving [OF assms(3), of "[]", simplified, OF this [simplified]] len two
  obtain s1 acc cs1 where h: "read_header_block s [] = Some (s1, acc, length ?hd)" "arriving s1 cs1 rs"
      "acc @ concat cs1 = ?hd @ ?b" "length ?hd \<le> length acc" "s_out s1 = s_out s"
    using all by auto
  have hd: "take (length ?hd) acc = ?hd" using h(3,4) by (metis append_eq_append_conv_if append_eq_conv_conj)
  from read_rest_arriving [OF h(2), of "length ?hd + length ?b" acc] h(3) obtain s2 where
    b: "read_rest (length ?hd + length ?b) s1 acc = Some (s2, ?hd @ ?b)" "s_in s2 = rs" "s_out s2 = s_out s1"
    by (metis length_append)
  show ?thesis
    using h(1,5) b content_length_head [OF assms(2,1)] status_code_head [OF assms(2)]
    by (simp add: read_response_def hd response_head_text [OF assms(2)] Let_def subslice_def)
qed

section \<open>The server's side of one exchange\<close>

text \<open>
  A new request that comes in one piece is answered, and a response that is taken in one piece leaves
  the connection as it was: ready for the next request.
\<close>

lemma conn_exchange:
  assumes "cstate c = Reading" and "parser c = parser_new"
    and q: "snd (push parser_new q) = Complete r (length q)" and "wants_keep_alive r"
    and c1: "c1 = fst (on_bytes call a c q)" and c2: "c2 = fst (on_written now c1 (length (pending_write c1)))"
  shows "on_bytes call a c q = (c1, WantWrite)" "pending_write c1 = request_response (app_handle call a) r"
    "on_written now c1 (length (pending_write c1)) = (c2, WantRead)" "cstate c2 = Reading" "parser c2 = parser_new"
proof -
  let ?resp = "request_response (app_handle call a) r"
  obtain p where p: "push parser_new q = (p, Complete r (length q))" using q by (cases "push parser_new q") auto
  have new: "reset p = parser_new" using push_Complete_reset [OF _ _ p] by simp
  have w: "on_bytes call a c q = (c1, WantWrite)" "cstate c1 = Writing" "parser c1 = p"
      "pending_write c1 = ?resp" "write_buf c1 = ?resp" "write_pos c1 = 0" "close_after_write c1 = False"
    using assms(1,2,4) p by (simp_all add: c1 on_bytes_def handle_status_def request_response_def)
  then show "on_bytes call a c q = (c1, WantWrite)" "pending_write c1 = ?resp" by simp_all
  show "on_written now c1 (length (pending_write c1)) = (c2, WantRead)" "cstate c2 = Reading" "parser c2 = parser_new"
    using w new by (simp_all add: c2 on_written_def Let_def)
qed

end
