(* ===== verification/Service.thy ===== *)
theory Service
  imports Event_Loop "HOL-Library.Multiset"
begin

text \<open>
  What the process and thread models share: serving one accepted stream with the blocking loop,
  and the contract of a dispatcher, a program of several processes or threads that hands each
  accepted stream to one of them. The steps of all of them are interleaved freely; a run is a
  sequence of events, each a step of one of them or an answer of the kernel.
\<close>

section \<open>Serving one stream\<close>

text \<open>The answers of the kernel and the clock while a stream is served.\<close>

record serve_env =
  se_read :: "io_error option"
  se_write :: "io_error option"
  se_now :: instant

definition serve_stream ::
  "'h call \<Rightarrow> config \<Rightarrow> serve_env \<Rightarrow> 'h app \<Rightarrow> tcp_stream \<Rightarrow> slot \<times> (io_error + unit)" where
  "serve_stream call cfg e a st =
     serve_connection call (se_read e) (se_write e) (se_now e) (cfg_read_timeout cfg) a st"

text \<open>The counters after a stream was served: an error is counted, the end of a stream is not.\<close>

definition count_result :: "io_error + unit \<Rightarrow> 'h app \<Rightarrow> 'h app" where
  "count_result r a = (case r of Inl e \<Rightarrow> count_error a | Inr u \<Rightarrow> a)"

definition new_stream :: "tcp_stream \<Rightarrow> bool" where
  "new_stream st \<longleftrightarrow> s_rcvd st = [] \<and> s_sent st = []"

lemma app_same_counts [simp]:
  "app_same a (count_error b) = app_same a b" "app_same a (count_result r b) = app_same a b"
  by (simp_all add: app_same_def count_error_def count_result_def split: sum.split)

lemma serve_stream_linked:
  assumes "counters_unread call" and "app_same a b" and "new_stream st"
  shows "linked call a (fst (serve_stream call cfg e b st))"
proof -
  have "linked call b (fst (serve_stream call cfg e b st))"
    using serve_connection_linked [of st call _ _ _ _ b] assms(3)
    by (cases "serve_stream call cfg e b st") (simp add: serve_stream_def new_stream_def)
  then show ?thesis using linked_same [OF assms(1,2)] by simp
qed

lemmas serve_stream_answers = linked_answers [OF serve_stream_linked]

section \<open>The contract of a dispatcher\<close>

text \<open>The effect of a sequence of events; \<open>None\<close> when one of them is not possible.\<close>

fun run_events :: "('e \<Rightarrow> 's \<Rightarrow> 's option) \<Rightarrow> 'e list \<Rightarrow> 's \<Rightarrow> 's option" where
  "run_events step [] s = Some s"
| "run_events step (e # es) s = (case step e s of None \<Rightarrow> None | Some s' \<Rightarrow> run_events step es s')"

text \<open>
  A program that takes in pieces of work (streams, requests) and hands them to processes or threads:
  \<open>held\<close> are the pieces that came in and are waiting or being served, \<open>ended\<close> those that were
  served, rejected or abandoned, and \<open>intake\<close> those an event brings in. \<open>good\<close> says what the
  environment promises about an event.
\<close>

locale dispatcher =
  fixes step :: "'e \<Rightarrow> 's \<Rightarrow> 's option"
    and good :: "'e \<Rightarrow> bool"
    and inv :: "'s \<Rightarrow> bool"
    and intake :: "'e \<Rightarrow> 'r multiset"
    and held :: "'s \<Rightarrow> 'r multiset"
    and ended :: "'s \<Rightarrow> 'r multiset"
  assumes step_inv: "inv s \<Longrightarrow> good e \<Longrightarrow> step e s = Some s' \<Longrightarrow> inv s'"
    and step_conserves: "inv s \<Longrightarrow> step e s = Some s' \<Longrightarrow> held s' + ended s' = held s + ended s + intake e"
begin

lemma run_inv:
  "run_events step es s = Some s' \<Longrightarrow> inv s \<Longrightarrow> list_all good es \<Longrightarrow> inv s'"
  by (induction es arbitrary: s) (auto split: option.splits dest: step_inv)

text \<open>No piece of work is lost or served twice: what came in is held or has ended.\<close>

lemma run_conserves:
  "run_events step es s = Some s' \<Longrightarrow> inv s \<Longrightarrow> list_all good es \<Longrightarrow>
     held s' + ended s' = held s + ended s + sum_list (map intake es)"
proof (induction es arbitrary: s)
  case (Cons e es)
  then obtain s1 where s1: "step e s = Some s1" "run_events step es s1 = Some s'"
    by (auto split: option.splits)
  with Cons step_inv [of s e s1] have "held s' + ended s' = held s1 + ended s1 + sum_list (map intake es)"
    by simp
  with step_conserves [OF Cons.prems(2) s1(1)] show ?case by (simp add: ac_simps)
qed simp

end

section \<open>One process, one stream at a time\<close>

text \<open>
  \<open>Iterative::serve\<close> after the listener is bound, over the answers of \<open>accept\<close>; the streams served
  so far are kept with the state they ended in.
\<close>

definition iterative_turn ::
  "'h call \<Rightarrow> config \<Rightarrow> io_error + (tcp_stream \<times> serve_env) \<Rightarrow> 'h app \<times> slot list \<Rightarrow> 'h app \<times> slot list" where
  "iterative_turn call cfg ans s =
     (case ans of
        Inl e \<Rightarrow> s
      | Inr (st, e) \<Rightarrow>
          let a = count_connection (fst s);
              r = handle_conn call (se_read e) (se_write e) (se_now e) (cfg_read_timeout cfg) a st in
          (count_result (snd r) a, snd s @ [fst r]))"

definition iterative_serve ::
  "'h call \<Rightarrow> config \<Rightarrow> (io_error + (tcp_stream \<times> serve_env)) list \<Rightarrow> 'h app \<Rightarrow> 'h app \<times> slot list" where
  "iterative_serve call cfg anss a = fold (iterative_turn call cfg) anss (a, [])"

lemma handle_conn_is_serve_connection: "handle_conn = serve_connection"
  by (intro ext) (simp add: handle_conn_def serve_connection_def)

text \<open>The streams that came in, in order.\<close>

fun accepted :: "(io_error + (tcp_stream \<times> serve_env)) list \<Rightarrow> tcp_stream list" where
  "accepted [] = []"
| "accepted (Inl e # anss) = accepted anss"
| "accepted (Inr (st, e) # anss) = st # accepted anss"

lemma serve_loop_fd: "s_fd (slot_stream (fst (serve_loop call now a s act))) = s_fd (slot_stream s)"
proof (induction call now a s act rule: serve_loop.induct)
  case (1 call now a s act)
  show ?case
  proof (cases act)
    case WantRead
    obtain st r where r: "stream_read READ_CHUNK (slot_stream s) = (st, r)"
      by (cases "stream_read READ_CHUNK (slot_stream s)")
    have "s_fd st = s_fd (slot_stream s)" using stream_read_cases [OF r] by simp
    with 1 WantRead r show ?thesis
      by (subst serve_loop.simps) (auto split: sum.splits prod.splits)
  next
    case WantWrite
    obtain st r where r: "stream_write (pending_write (slot_conn s)) (slot_stream s) = (st, r)"
      by (cases "stream_write (pending_write (slot_conn s)) (slot_stream s)")
    have "s_fd st = s_fd (slot_stream s)" using stream_write_cases [OF r] by simp
    with 1 WantWrite r show ?thesis
      by (subst serve_loop.simps) (auto split: sum.splits prod.splits)
  qed (simp add: serve_loop.simps)
qed

lemma serve_stream_fd: "s_fd (slot_stream (fst (serve_stream call cfg e a st))) = s_fd st"
  by (auto simp: serve_stream_def serve_connection_def serve_loop_fd Let_def split: option.split)

text \<open>The body of the accept loop of a preforked worker.\<close>

definition worker_turn ::
  "'h call \<Rightarrow> config \<Rightarrow> io_error + (tcp_stream \<times> serve_env) \<Rightarrow> 'h app \<times> slot list \<Rightarrow> 'h app \<times> slot list" where
  "worker_turn call cfg ans s =
     (case ans of
        Inr (st, e) \<Rightarrow>
          let a = count_connection (fst s); r = serve_stream call cfg e a st in
          (count_result (snd r) a, snd s @ [fst r])
      | Inl e \<Rightarrow> s)"

lemma iterative_turn_eq: "iterative_turn call cfg = worker_turn call cfg"
  by (intro ext)
     (simp add: iterative_turn_def worker_turn_def serve_stream_def handle_conn_is_serve_connection
       split: sum.split)

text \<open>A sequence of such turns serves every accepted stream, in order, and rightly.\<close>

definition turns_ok :: "'h call \<Rightarrow> 'h app \<Rightarrow> tcp_stream list \<Rightarrow> 'h app \<times> slot list \<Rightarrow> bool" where
  "turns_ok call a sts s \<longleftrightarrow> app_same a (fst s) \<and> list_all (answers call a) (snd s) \<and>
     map (\<lambda>sl. s_fd (slot_stream sl)) (snd s) = map s_fd sts"

lemma worker_turn_ok:
  assumes "counters_unread call" and "turns_ok call a sts s" and "list_all new_stream (accepted [ans])"
  shows "turns_ok call a (sts @ accepted [ans]) (worker_turn call cfg ans s)"
proof (cases ans)
  case (Inr x)
  then obtain st e where "ans = Inr (st, e)" by (cases x) auto
  with assms serve_stream_answers [OF assms(1), of a "count_connection (fst s)" st] show ?thesis
    by (simp add: turns_ok_def worker_turn_def serve_stream_fd Let_def)
qed (use assms(2) in \<open>simp add: turns_ok_def worker_turn_def\<close>)

lemma accepted_Cons: "accepted (x # xs) = accepted [x] @ accepted xs"
  by (cases "x # xs" rule: accepted.cases) auto

lemma worker_fold_ok:
  "counters_unread call \<Longrightarrow> turns_ok call a sts s \<Longrightarrow> list_all new_stream (accepted anss) \<Longrightarrow>
     turns_ok call a (sts @ accepted anss) (fold (worker_turn call cfg) anss s)"
proof (induction anss arbitrary: s sts)
  case (Cons x xs)
  then have "list_all new_stream (accepted [x])" "list_all new_stream (accepted xs)"
    using accepted_Cons [of x xs] by simp_all
  from Cons.IH [OF Cons.prems(1) worker_turn_ok [OF Cons.prems(1,2) this(1)] this(2)]
  show ?case using accepted_Cons [of x xs] by simp
qed simp

text \<open>
  One bad client does not take the iterative server down: whatever errors \<open>accept\<close> and the
  connections run into, every accepted stream is served, in the order of arrival, each gets a
  prefix of the responses its bytes call for, and all of them when the server closed it.
\<close>

theorem iterative_serves_all:
  assumes "counters_unread call" and "list_all new_stream (accepted anss)"
  shows "map (\<lambda>sl. s_fd (slot_stream sl)) (snd (iterative_serve call cfg anss a)) = map s_fd (accepted anss) \<and>
    list_all (answers call a) (snd (iterative_serve call cfg anss a))"
  using worker_fold_ok [OF assms(1) _ assms(2), of a "[]" "(a, [])" cfg]
  by (simp add: iterative_serve_def iterative_turn_eq turns_ok_def)

definition demo_env :: serve_env where
  "demo_env = \<lparr>se_read = None, se_write = None, se_now = 0\<rparr>"

theorem iterative_serves_all_witness:
  "map (\<lambda>sl. s_fd (slot_stream sl)) (snd (iterative_serve no_call demo_config
     [Inl (OsError 24), Inr (stream_new 5 [RdErr (OsError 104)] [], demo_env), Inr (stream_new 6 [] [], demo_env)]
     empty_app)) = [5, 6]"
  using iterative_serves_all [OF no_call_unread, of "[Inl (OsError 24),
      Inr (stream_new 5 [RdErr (OsError 104)] [], demo_env), Inr (stream_new 6 [] [], demo_env)]" demo_config empty_app]
  by (simp add: new_stream_def stream_new_def)

end
