(* ===== verification/Core_Tests.thy ===== *)
theory Core_Tests
  imports Conformance_Client Service
begin

text \<open>
  The unit tests of the rest of the \<open>core\<close> crate (\<open>response.rs\<close>, \<open>router.rs\<close>, \<open>asset.rs\<close>, \<open>metrics.rs\<close>,
  \<open>app.rs\<close>, \<open>conn.rs\<close>, \<open>server.rs\<close>): each is a definition, its assertions in order, and a lemma says that
  the model passes it. A call that may panic in a test (\<open>unwrap\<close>, \<open>expect\<close>) gives an option, and a
  test whose call panics fails. The clock and the file system are arguments. The last section is the
  module \<open>skeletons\<close> of \<open>conn.rs\<close>, the loops the connection is meant to be used in.
\<close>

definition passes :: "'a option \<Rightarrow> ('a \<Rightarrow> bool) \<Rightarrow> bool" where
  "passes r P \<longleftrightarrow> (case r of None \<Rightarrow> False | Some x \<Rightarrow> P x)"

text \<open>\<open>String::from_utf8(bytes).unwrap()\<close>.\<close>

definition from_utf8 :: "bytes \<Rightarrow> str option" where
  "from_utf8 bs = (if utf8_valid bs then Some bs else None)"

text \<open>A text contains a pattern that it starts with, or that the text behind its first character contains.\<close>

lemma str_contains_at:
  "str_contains s pat \<longleftrightarrow> (\<exists>i \<le> length s. prefix pat (drop i s))"
proof -
  have "take (length pat) (drop i s) = pat \<longleftrightarrow> prefix pat (drop i s)" for i
    by (metis append_eq_conv_conj prefix_def)
  moreover have "i < Suc (length s) - length pat" if "prefix pat (drop i s)" "i \<le> length s" for i
    using prefix_length_le [OF that(1)] that(2) by simp
  moreover have "i \<le> length s" if "i < Suc (length s) - length pat" for i using that by simp
  moreover have "str_contains s pat \<longleftrightarrow> (\<exists>i. i < Suc (length s) - length pat \<and> take (length pat) (drop i s) = pat)"
    by (auto simp: str_contains_def windows_def list_ex_iff image_iff) (metis atLeastLessThan_iff le0)
  ultimately show ?thesis by metis
qed

lemma ex_le_Suc: "(\<exists>i \<le> Suc n. P i) \<longleftrightarrow> P 0 \<or> (\<exists>i \<le> n. P (Suc i))"
  by (metis Suc_le_mono le0 not0_implies_Suc)

lemma str_contains_code [code]:
  "str_contains s pat \<longleftrightarrow> prefix pat s \<or> (case s of [] \<Rightarrow> False | c # t \<Rightarrow> str_contains t pat)"
  by (cases s) (simp_all add: str_contains_at ex_le_Suc)

section \<open>Responses\<close>

definition encoded :: "response \<Rightarrow> bool \<Rightarrow> bool \<Rightarrow> str option" where
  "encoded resp keep_alive include_body = from_utf8 (encode resp keep_alive include_body [])"

definition reason_phrases_test :: bool where
  "reason_phrases_test \<longleftrightarrow>
     reason OK = ''OK'' \<and> reason NOT_FOUND = ''Not Found'' \<and> reason URI_TOO_LONG = ''URI Too Long'' \<and>
     reason VERSION_NOT_SUPPORTED = ''HTTP Version Not Supported''"

definition encode_ok_with_body_test :: bool where
  "encode_ok_with_body_test \<longleftrightarrow>
     (let resp = response_ok ''text/html'' ''<h1>hi</h1>'' in
      passes (encoded resp True True) (\<lambda>s.
        prefix (''HTTP/1.1 200 OK'' @ CRLF) s \<and>
        str_contains s (''Content-Type: text/html'' @ CRLF) \<and>
        str_contains s (''Content-Length: 11'' @ CRLF) \<and>
        str_contains s (''Connection: keep-alive'' @ CRLF) \<and>
        suffix (CRLF @ CRLF @ ''<h1>hi</h1>'') s))"

definition encode_head_omits_body_but_keeps_length_test :: bool where
  "encode_head_omits_body_but_keeps_length_test \<longleftrightarrow>
     (let resp = response_ok ''text/html'' ''<h1>hi</h1>'' in
      passes (encoded resp False False) (\<lambda>s.
        str_contains s (''Content-Length: 11'' @ CRLF) \<and>
        str_contains s (''Connection: close'' @ CRLF) \<and>
        suffix (CRLF @ CRLF) s \<and> \<not> str_contains s ''<h1>hi</h1>''))"

definition encode_empty_body_has_zero_length_test :: bool where
  "encode_empty_body_has_zero_length_test \<longleftrightarrow>
     passes (encoded (response_new NOT_FOUND) True True) (\<lambda>s.
       prefix (''HTTP/1.1 404 Not Found'' @ CRLF) s \<and> str_contains s (''Content-Length: 0'' @ CRLF))"

definition encode_drops_user_supplied_content_length_and_connection_test :: bool where
  "encode_drops_user_supplied_content_length_and_connection_test \<longleftrightarrow>
     (let resp = with_header (with_header (with_header (response_new OK)
                   ''Content-Length'' ''999'') ''Connection'' ''upgrade'') ''X-Custom'' ''yes'' in
      passes (encoded resp True True) (\<lambda>s.
        str_contains s (''Content-Length: 0'' @ CRLF) \<and> \<not> str_contains s ''999'' \<and>
        str_contains s (''Connection: keep-alive'' @ CRLF) \<and> \<not> str_contains s ''upgrade'' \<and>
        str_contains s (''X-Custom: yes'' @ CRLF)))"

definition text_sets_plain_content_type_test :: bool where
  "text_sets_plain_content_type_test \<longleftrightarrow>
     passes (encoded (response_text BAD_REQUEST ''bad'') False True) (\<lambda>s.
       prefix (''HTTP/1.1 400 Bad Request'' @ CRLF) s \<and>
       str_contains s (''Content-Type: text/plain; charset=utf-8'' @ CRLF) \<and>
       str_contains s (''Content-Length: 3'' @ CRLF) \<and> suffix (CRLF @ CRLF @ ''bad'') s)"

lemma response_tests:
  "reason_phrases_test" "encode_ok_with_body_test" "encode_head_omits_body_but_keeps_length_test"
  "encode_empty_body_has_zero_length_test" "encode_drops_user_supplied_content_length_and_connection_test"
  "text_sets_plain_content_type_test"
  by code_simp+

section \<open>Router, assets and metrics\<close>

text \<open>The handler \<open>dummy\<close> is the only one; the router stores it as \<open>()\<close>.\<close>

definition lookup_hits_registered_routes_test :: bool where
  "lookup_hits_registered_routes_test \<longleftrightarrow>
     (let r = router_insert (router_insert router_new Get ''/'' ()) Get ''/static/style.css'' () in
      router_lookup r Get ''/'' \<noteq> None \<and> router_lookup r Get ''/static/style.css'' \<noteq> None)"

definition lookup_misses_unknown_path_and_method_test :: bool where
  "lookup_misses_unknown_path_and_method_test \<longleftrightarrow>
     (let r = router_insert router_new Get ''/'' () in
      router_lookup r Get ''/nope'' = None \<and> router_lookup r Head ''/'' = None \<and>
      router_lookup r Get ''/static/style.css'' = None)"

definition trailing_slash_is_normalized_test :: bool where
  "trailing_slash_is_normalized_test \<longleftrightarrow>
     router_lookup (router_insert router_new Get ''/static/style.css'' ()) Get ''static/style.css'' \<noteq> None"

lemma router_tests:
  "lookup_hits_registered_routes_test" "lookup_misses_unknown_path_and_method_test"
  "trailing_slash_is_normalized_test"
  by code_simp+

definition content_types_by_extension_test :: bool where
  "content_types_by_extension_test \<longleftrightarrow>
     content_type_for ''a.html'' = ''text/html; charset=utf-8'' \<and>
     content_type_for ''a.css'' = ''text/css; charset=utf-8'' \<and>
     content_type_for ''a.js'' = ''text/javascript; charset=utf-8'' \<and>
     content_type_for ''a.png'' = ''image/png'' \<and>
     content_type_for ''a.unknownext'' = ''application/octet-stream'' \<and>
     content_type_for ''noext'' = ''application/octet-stream''"

text \<open>
  The argument is what the directory the test wrote looks like to \<open>read_dir\<close>; the kernel gives the two
  entries in an order of its own.
\<close>

definition loads_files_recursively_with_content_types_test :: "listing \<Rightarrow> bool" where
  "loads_files_recursively_with_content_types_test base \<longleftrightarrow>
     (case load_dir base of
        Inl e \<Rightarrow> False
      | Inr cache \<Rightarrow>
          passes (asset_get cache ''index.html'') (\<lambda>index.
            a_bytes index = ''<h1>hi</h1>'' \<and> a_content_type index = ''text/html; charset=utf-8'') \<and>
          passes (asset_get cache ''static/style.css'') (\<lambda>css.
            a_bytes css = ''body{}'' \<and> a_content_type css = ''text/css; charset=utf-8'') \<and>
          asset_get cache ''missing'' = None)"

definition test_entries :: "entry list" where
  "test_entries =
     [File ''index.html'' (Inr ''<h1>hi</h1>''), SubDir ''static'' (Entries [File ''style.css'' (Inr ''body{}'')])]"

definition empty_cache_returns_none_test :: bool where
  "empty_cache_returns_none_test \<longleftrightarrow> asset_get asset_cache_default ''anything'' = None"

lemma asset_tests:
  "content_types_by_extension_test" "loads_files_recursively_with_content_types_test (Entries test_entries)"
  "loads_files_recursively_with_content_types_test (Entries (rev test_entries))" "empty_cache_returns_none_test"
  by code_simp+

definition counters_start_at_zero_and_increment_test :: bool where
  "counters_start_at_zero_and_increment_test \<longleftrightarrow>
     (let m = metrics_new; m' = inc_errors (inc_requests (inc_requests (inc_connections m))) in
      connections m = 0 \<and> requests m = 0 \<and> errors m = 0 \<and>
      connections m' = 1 \<and> requests m' = 2 \<and> errors m' = 1)"

lemma metrics_test: "counters_start_at_zero_and_increment_test"
  by code_simp

section \<open>The application\<close>

text \<open>The two test handlers, the request and the application of \<open>app.rs\<close>; \<open>fs\<close> is the file system.\<close>

definition index_handler :: "unit call" where
  "index_handler h r a = response_text OK ''index''"

definition test_req :: "http_method \<Rightarrow> str \<Rightarrow> request" where
  "test_req m path = \<lparr>rq_method = m, rq_path = path, rq_version = Http11, rq_headers = headers_new, rq_body = []\<rparr>"

definition index_app :: "(str \<Rightarrow> listing) \<Rightarrow> io_error + unit app" where
  "index_app fs = builder_build fs (builder_route app_builder Get ''/'' ())"

text \<open>\<open>app.handle(&req(method, path)).status\<close>.\<close>

definition handled_status :: "(str \<Rightarrow> listing) \<Rightarrow> http_method \<Rightarrow> str \<Rightarrow> status_code option" where
  "handled_status fs m path =
     (case index_app fs of Inl e \<Rightarrow> None | Inr app \<Rightarrow> Some (rs_status (app_handle index_handler app (test_req m path))))"

definition routes_known_get_to_handler_test :: "(str \<Rightarrow> listing) \<Rightarrow> bool" where
  "routes_known_get_to_handler_test fs \<longleftrightarrow> handled_status fs Get ''/'' = Some OK"

definition unknown_path_is_404_test :: "(str \<Rightarrow> listing) \<Rightarrow> bool" where
  "unknown_path_is_404_test fs \<longleftrightarrow> handled_status fs Get ''/missing'' = Some NOT_FOUND"

definition unsupported_method_is_405_test :: "(str \<Rightarrow> listing) \<Rightarrow> bool" where
  "unsupported_method_is_405_test fs \<longleftrightarrow> handled_status fs Unsupported ''/'' = Some METHOD_NOT_ALLOWED"

definition head_routes_to_get_handler_test :: "(str \<Rightarrow> listing) \<Rightarrow> bool" where
  "head_routes_to_get_handler_test fs \<longleftrightarrow> handled_status fs Head ''/'' = Some OK"

definition builder_without_assets_dir_builds_empty_cache_test :: "(str \<Rightarrow> listing) \<Rightarrow> bool" where
  "builder_without_assets_dir_builds_empty_cache_test fs \<longleftrightarrow>
     (case builder_build fs (app_builder :: unit app_builder) of
        Inl e \<Rightarrow> False
      | Inr app \<Rightarrow> asset_get (app_assets app) ''anything'' = None)"

lemma app_tests:
  "routes_known_get_to_handler_test fs" "unknown_path_is_404_test fs" "unsupported_method_is_405_test fs"
  "head_routes_to_get_handler_test fs" "builder_without_assets_dir_builds_empty_cache_test fs"
  by code_simp+

text \<open>\<open>parallelism\<close> is the answer of \<open>available_parallelism\<close>, whose type has no zero.\<close>

definition default_config_is_sane_test :: "usize option \<Rightarrow> bool" where
  "default_config_is_sane_test parallelism \<longleftrightarrow>
     (let cfg = config_default parallelism in
      snd (cfg_addr cfg) = 8080 \<and> cfg_workers cfg \<ge> 1 \<and> cfg_read_timeout cfg > 0 \<and>
      cfg_write_timeout cfg > 0 \<and> cfg_max_connections cfg > 0)"

lemma config_test: "parallelism \<noteq> Some 0 \<Longrightarrow> default_config_is_sane_test parallelism"
  by (cases parallelism)
     (simp_all add: default_config_is_sane_test_def config_default_def Let_def secs_def)

section \<open>The connection\<close>

definition ok_handler :: "unit call" where
  "ok_handler h r a = response_text OK ''hello''"

definition test_app :: "(str \<Rightarrow> listing) \<Rightarrow> unit app option" where
  "test_app fs = (case builder_build fs (builder_route app_builder Get ''/'' ()) of Inl e \<Rightarrow> None | Inr app \<Rightarrow> Some app)"

text \<open>\<open>flush\<close>: everything pending is written at once; \<open>now\<close> is the clock in \<open>on_written\<close>.\<close>

definition flush :: "instant \<Rightarrow> connection \<Rightarrow> connection \<times> bytes \<times> conn_action" where
  "flush now c =
     (let bs = pending_write c; r = on_written now c (length bs) in (fst r, bs, snd r))"

definition serves_get_then_keeps_alive_test :: "(str \<Rightarrow> listing) \<Rightarrow> instant \<Rightarrow> instant \<Rightarrow> bool" where
  "serves_get_then_keeps_alive_test fs t0 t1 \<longleftrightarrow> passes (test_app fs) (\<lambda>app.
     let c = conn_new t0 (secs 5);
         r1 = on_bytes ok_handler app c (''GET / HTTP/1.1'' @ CRLF @ CRLF);
         (c, bs, act) = flush t1 (fst r1);
         r2 = on_bytes ok_handler app c (''GET / HTTP/1.1'' @ CRLF @ CRLF) in
     snd r1 = WantWrite \<and>
     passes (from_utf8 bs) (\<lambda>s.
       prefix (''HTTP/1.1 200 OK'' @ CRLF) s \<and> str_contains s (''Connection: keep-alive'' @ CRLF) \<and>
       suffix (CRLF @ CRLF @ ''hello'') s) \<and>
     act = WantRead \<and> snd r2 = WantWrite)"

definition connection_close_closes_after_write_test :: "(str \<Rightarrow> listing) \<Rightarrow> instant \<Rightarrow> instant \<Rightarrow> bool" where
  "connection_close_closes_after_write_test fs t0 t1 \<longleftrightarrow> passes (test_app fs) (\<lambda>app.
     let r = on_bytes ok_handler app (conn_new t0 (secs 5))
               (''GET / HTTP/1.1'' @ CRLF @ ''Connection: close'' @ CRLF @ CRLF);
         (c, bs, act) = flush t1 (fst r) in
     snd r = WantWrite \<and> passes (from_utf8 bs) (\<lambda>s. str_contains s (''Connection: close'' @ CRLF)) \<and> act = Close)"

definition malformed_request_answers_400_then_closes_test :: "(str \<Rightarrow> listing) \<Rightarrow> instant \<Rightarrow> instant \<Rightarrow> bool" where
  "malformed_request_answers_400_then_closes_test fs t0 t1 \<longleftrightarrow> passes (test_app fs) (\<lambda>app.
     let r = on_bytes ok_handler app (conn_new t0 (secs 5)) (''GET /'' @ CRLF @ CRLF);
         (c, bs, act) = flush t1 (fst r) in
     snd r = WantWrite \<and>
     passes (from_utf8 bs) (\<lambda>s.
       prefix (''HTTP/1.1 400 Bad Request'' @ CRLF) s \<and> str_contains s (''Connection: close'' @ CRLF)) \<and>
     act = Close)"

definition head_omits_body_but_keeps_content_length_test :: "(str \<Rightarrow> listing) \<Rightarrow> instant \<Rightarrow> instant \<Rightarrow> bool" where
  "head_omits_body_but_keeps_content_length_test fs t0 t1 \<longleftrightarrow> passes (test_app fs) (\<lambda>app.
     let r = on_bytes ok_handler app (conn_new t0 (secs 5)) (''HEAD / HTTP/1.1'' @ CRLF @ CRLF);
         (c, bs, act) = flush t1 (fst r) in
     snd r = WantWrite \<and>
     passes (from_utf8 bs) (\<lambda>s.
       prefix (''HTTP/1.1 200 OK'' @ CRLF) s \<and> str_contains s (''Content-Length: 5'' @ CRLF) \<and>
       suffix (CRLF @ CRLF) s \<and> \<not> str_contains s ''hello''))"

definition incomplete_request_wants_more_test :: "(str \<Rightarrow> listing) \<Rightarrow> instant \<Rightarrow> bool" where
  "incomplete_request_wants_more_test fs t0 \<longleftrightarrow> passes (test_app fs) (\<lambda>app.
     let r = on_bytes ok_handler app (conn_new t0 (secs 5)) (''GET / HTTP/1.1'' @ CRLF @ ''Host: '') in
     snd r = WantRead \<and> pending_write (fst r) = [])"

definition partial_write_keeps_draining_test :: "(str \<Rightarrow> listing) \<Rightarrow> instant \<Rightarrow> instant \<Rightarrow> bool" where
  "partial_write_keeps_draining_test fs t0 t1 \<longleftrightarrow> passes (test_app fs) (\<lambda>app.
     let c = fst (on_bytes ok_handler app (conn_new t0 (secs 5)) (''GET / HTTP/1.1'' @ CRLF @ CRLF));
         total = length (pending_write c);
         r = on_written t1 c 4 in
     total > 4 \<and> snd r = WantWrite \<and> length (pending_write (fst r)) = total - 4)"

text \<open>The three readings of the clock: at the creation of the connection and before each assertion.\<close>

definition deadline_expires_in_the_future_test :: "instant \<Rightarrow> instant \<Rightarrow> instant \<Rightarrow> bool" where
  "deadline_expires_in_the_future_test t0 t1 t2 \<longleftrightarrow>
     (let c = conn_new t0 (secs 5) in \<not> is_expired c t1 \<and> is_expired c (t2 + secs 10))"

lemma deadline_test:
  "t0 \<le> t1 \<Longrightarrow> t1 \<le> t2 \<Longrightarrow> t1 < t0 + secs 5 \<Longrightarrow> deadline_expires_in_the_future_test t0 t1 t2"
  by (simp add: deadline_expires_in_the_future_test_def is_expired_def conn_new_def secs_def)

lemma conn_answer_tests:
  "connection_close_closes_after_write_test fs t0 t1" "malformed_request_answers_400_then_closes_test fs t0 t1"
  "head_omits_body_but_keeps_content_length_test fs t0 t1"
  by code_simp+

lemma conn_progress_tests: "incomplete_request_wants_more_test fs t0" "partial_write_keeps_draining_test fs t0 t1"
  by code_simp+

lemma conn_keep_alive_test: "serves_get_then_keeps_alive_test fs t0 t1"
proof -
  let ?q = "''GET / HTTP/1.1'' @ CRLF @ CRLF" and ?r = "test_req Get ''/''"
  have q: "snd (push parser_new ?q) = Complete ?r (length ?q)" by code_simp
  have ka: "wants_keep_alive ?r" by code_simp
  obtain app where app: "test_app fs = Some app"
      "request_response (app_handle ok_handler app) ?r = encode (response_text OK ''hello'') True True []"
  proof -
    have "passes (test_app fs) (\<lambda>app. request_response (app_handle ok_handler app) ?r = encode (response_text OK ''hello'') True True [])"
      by code_simp
    then show thesis using that by (auto simp: passes_def split: option.splits)
  qed
  let ?c = "conn_new t0 (secs 5)"
  have c: "cstate ?c = Reading" "parser ?c = parser_new" by (simp_all add: conn_new_def)
  define c1 where "c1 = fst (on_bytes ok_handler app ?c ?q)"
  define c2 where "c2 = fst (on_written t1 c1 (length (pending_write c1)))"
  note first = conn_exchange [OF c q ka c1_def c2_def]
  have "snd (on_bytes ok_handler app c2 ?q) = WantWrite"
    by (subst conn_exchange(1) [OF first(4,5) q ka refl refl]) (rule snd_conv)
  moreover have "passes (from_utf8 (encode (response_text OK ''hello'') True True [])) (\<lambda>s.
       prefix (''HTTP/1.1 200 OK'' @ CRLF) s \<and> str_contains s (''Connection: keep-alive'' @ CRLF) \<and>
       suffix (CRLF @ CRLF @ ''hello'') s)" by code_simp
  ultimately show ?thesis
    using first(1-3) app by (simp add: serves_get_then_keeps_alive_test_def flush_def Let_def passes_def)
qed

section \<open>The usage skeletons\<close>

text \<open>
  The blocking skeleton, over a stream of the model: its buffer has the size \<open>READ_CHUNK\<close>, and its
  loop is the one of \<open>serve_connection\<close>, which only sets the two time-outs first.
\<close>

definition blocking_model ::
  "'h call \<Rightarrow> instant \<Rightarrow> tcp_stream \<Rightarrow> 'h app \<Rightarrow> duration \<Rightarrow> slot \<times> (io_error + unit)" where
  "blocking_model call now st a timeout =
     serve_loop call now a \<lparr>slot_stream = st, slot_conn = conn_new now timeout\<rparr> WantRead"

lemma blocking_model_is_serve_connection:
  "serve_connection call None None now timeout a st = blocking_model call now st a timeout"
  by (simp add: serve_connection_def blocking_model_def)

definition event_loop_readable :: "'h call \<Rightarrow> connection \<Rightarrow> 'h app \<Rightarrow> bytes \<Rightarrow> connection \<times> conn_action" where
  "event_loop_readable call c a chunk = on_bytes call a c chunk"

definition event_loop_writable :: "instant \<Rightarrow> connection \<Rightarrow> usize \<Rightarrow> connection \<times> conn_action" where
  "event_loop_writable now c written = on_written now c written"

definition event_loop_tick :: "connection \<Rightarrow> instant \<Rightarrow> bool" where
  "event_loop_tick c now = is_expired c now"

end
