(* ===== verification/Sys_Calls.thy ===== *)
theory Sys_Calls
  imports Sys
begin

text \<open>
  The wrappers of \<open>server/src/sys\<close> that make one system call each: the macro \<open>syscall!\<close>, the methods of
  \<open>Epoll\<close> that change what is registered, \<open>poll\<close>, and the receive time-out of a listener. The kernel is
  an argument, a function from what it is passed to what it answers; what a wrapper passes to it is
  part of the wrapper's value. The lemmas say that nothing is lost on the way: the flag word of a
  registration determines the interest and the trigger, and the user data the descriptor.
\<close>

section \<open>Results\<close>

definition is_minus_one :: "int \<Rightarrow> bool" where
  "is_minus_one t \<longleftrightarrow> t = -1"

text \<open>\<open>syscall!(f(args))\<close>: \<open>raw\<close> is what \<open>f\<close> returned.\<close>

definition syscall :: "io_error \<Rightarrow> int \<Rightarrow> io_error + int" where
  "syscall last_os_error raw = cvt last_os_error raw"

lemma cvt_is_minus_one: "cvt e t = (if is_minus_one t then Inl e else Inr t)"
  by (simp add: cvt_def is_minus_one_def)

text \<open>\<open>syscall!(...)?; Ok(())\<close>.\<close>

definition unit_result :: "io_error \<Rightarrow> int \<Rightarrow> io_error + unit" where
  "unit_result last_os_error raw = (case syscall last_os_error raw of Inl e \<Rightarrow> Inl e | Inr n \<Rightarrow> Inr ())"

section \<open>Registrations\<close>

datatype epoll_op = EPOLL_CTL_ADD | EPOLL_CTL_MOD | EPOLL_CTL_DEL

text \<open>An \<open>epoll_event\<close> is its flag word and its user data; \<open>None\<close> is the null pointer.\<close>

type_synonym epoll_event = "32 word \<times> 64 word"
type_synonym ctl_call = "epoll_op \<times> 32 word \<times> epoll_event option"

record epoll_fd =
  ep_fd :: "32 word"

text \<open>The answer of \<open>epoll_create1\<close> is an argument.\<close>

definition ep_new :: "io_error \<Rightarrow> int \<Rightarrow> io_error + epoll_fd" where
  "ep_new last_os_error raw =
     (case syscall last_os_error raw of Inl e \<Rightarrow> Inl e | Inr f \<Rightarrow> Inr \<lparr>ep_fd = word_of_int f\<rparr>)"

text \<open>The answer of the kernel to a call is \<open>errno\<close> and the raw result.\<close>

definition ep_ctl ::
  "epoll_abi \<Rightarrow> (ctl_call \<Rightarrow> io_error \<times> int) \<Rightarrow> epoll_op \<Rightarrow> 32 word \<Rightarrow> interest \<Rightarrow> trigger \<Rightarrow> ctl_call \<times> (io_error + unit)" where
  "ep_ctl abi answer op f i t =
     (let event = (events_mask abi i t, user_data f); call = (op, f, Some event) in
      (call, unit_result (fst (answer call)) (snd (answer call))))"

definition ep_add ::
  "epoll_abi \<Rightarrow> (ctl_call \<Rightarrow> io_error \<times> int) \<Rightarrow> 32 word \<Rightarrow> interest \<Rightarrow> trigger \<Rightarrow> ctl_call \<times> (io_error + unit)" where
  "ep_add abi answer f i t = ep_ctl abi answer EPOLL_CTL_ADD f i t"

definition ep_modify ::
  "epoll_abi \<Rightarrow> (ctl_call \<Rightarrow> io_error \<times> int) \<Rightarrow> 32 word \<Rightarrow> interest \<Rightarrow> trigger \<Rightarrow> ctl_call \<times> (io_error + unit)" where
  "ep_modify abi answer f i t = ep_ctl abi answer EPOLL_CTL_MOD f i t"

definition ep_delete :: "(ctl_call \<Rightarrow> io_error \<times> int) \<Rightarrow> 32 word \<Rightarrow> ctl_call \<times> (io_error + unit)" where
  "ep_delete answer f =
     (let call = (EPOLL_CTL_DEL, f, None) in (call, unit_result (fst (answer call)) (snd (answer call))))"

text \<open>
  \<open>wait\<close> in full: the capacity of the caller's vector, at least one, bounds what the kernel may
  fill in; \<open>answer\<close> gets that bound and the time-out, and answers with \<open>errno\<close>, the raw result and
  the buffer. The value is the caller's vector and the count.
\<close>

definition ep_wait ::
  "epoll_abi \<Rightarrow> (usize \<Rightarrow> 32 word \<Rightarrow> io_error \<times> int \<times> epoll_event list) \<Rightarrow> usize \<Rightarrow> duration option \<Rightarrow>
     io_error + event list \<times> usize" where
  "ep_wait abi answer capacity timeout =
     (let (errno, raw, filled) = answer (max capacity 1) (timeout_to_millis timeout) in
      case syscall errno raw of
        Inl e \<Rightarrow> Inl e
      | Inr n \<Rightarrow> Inr (map (decode_event abi) (take (nat n) filled), nat n))"

text \<open>What the kernel promises of \<open>epoll_wait\<close>: at most the bound, and as many events as it says.\<close>

definition fills :: "(usize \<Rightarrow> 32 word \<Rightarrow> io_error \<times> int \<times> epoll_event list) \<Rightarrow> bool" where
  "fills answer \<longleftrightarrow>
     (\<forall>cap ms. case answer cap ms of (errno, raw, filled) \<Rightarrow>
        raw = -1 \<or> raw = int (length filled) \<and> length filled \<le> cap)"

lemma ep_wait_events:
  assumes "fills answer" and "ep_wait abi answer capacity timeout = Inr (events, n)"
  shows "\<exists>filled. epoll_wait abi (Inr filled) = Inr events \<and> n = length events \<and> n \<le> max capacity 1"
proof -
  obtain errno raw filled where k: "answer (max capacity 1) (timeout_to_millis timeout) = (errno, raw, filled)"
    by (rule prod_cases3)
  have "case answer (max capacity 1) (timeout_to_millis timeout) of (errno, raw, filled) \<Rightarrow>
      raw = -1 \<or> raw = int (length filled) \<and> length filled \<le> max capacity 1"
    by (rule spec [OF spec [OF assms(1) [unfolded fills_def]]])
  then have "raw = -1 \<or> raw = int (length filled) \<and> length filled \<le> max capacity 1" by (simp only: k prod.case)
  with assms(2) k show ?thesis
    by (auto simp: ep_wait_def syscall_def cvt_def epoll_wait_def split: if_splits)
qed

text \<open>The interest and the trigger can be read off the flag word of a registration.\<close>

lemma events_mask_inj:
  assumes "epoll_abi_ok abi" and "EPOLLET abi \<noteq> 0" and "events_mask abi i t = events_mask abi i' t'"
  shows "i = i' \<and> t = t'"
proof -
  note abi = epoll_abi_okD [OF assms(1)]
  have et: "EPOLLIN abi AND EPOLLET abi = 0" "EPOLLOUT abi AND EPOLLET abi = 0"
    using abi(17,18) by (metis and.commute)+
  have flags: "events_mask abi j u AND EPOLLIN abi = flag_if (j \<noteq> InterestWrite) (EPOLLIN abi)"
    "events_mask abi j u AND EPOLLOUT abi = flag_if (j \<noteq> InterestRead) (EPOLLOUT abi)"
    "events_mask abi j u AND EPOLLET abi = flag_if (u = Edge) (EPOLLET abi)" for j u
    by (cases j; cases u; simp add: events_mask_def flag_if_def bit.conj_disj_distrib2 abi et)+
  have eq: "flag_if (i \<noteq> InterestWrite) (EPOLLIN abi) = flag_if (i' \<noteq> InterestWrite) (EPOLLIN abi)"
    "flag_if (i \<noteq> InterestRead) (EPOLLOUT abi) = flag_if (i' \<noteq> InterestRead) (EPOLLOUT abi)"
    "flag_if (t = Edge) (EPOLLET abi) = flag_if (t' = Edge) (EPOLLET abi)"
    using flags [of i t] flags [of i' t'] assms(3) by simp_all
  have "i = i'" using eq(1,2) abi(1,2) by (cases i; cases i') (simp_all add: flag_if_def)
  moreover have "t = t'" using eq(3) assms(2) by (cases t; cases t') (simp_all add: flag_if_def)
  ultimately show ?thesis ..
qed

text \<open>What \<open>epoll_ctl\<close> does to the interest list of the kernel, according to its documentation.\<close>

fun interest_after :: "ctl_call list \<Rightarrow> 32 word \<Rightarrow> epoll_event option" where
  "interest_after [] = (\<lambda>f. None)"
| "interest_after ((op, f, ev) # calls) = (interest_after calls)(f := (if op = EPOLL_CTL_DEL then None else ev))"

text \<open>
  Two registrations the kernel holds are for the same descriptor, interest and trigger when they are
  equal: a table of the registered interests loses nothing.
\<close>

lemma registration_exact:
  assumes "epoll_abi_ok abi" and "EPOLLET abi \<noteq> 0"
    and "interest_after (fst (ep_add abi k f i t) # calls) f = interest_after (fst (ep_modify abi k' f' i' t') # calls') f'"
  shows "f = f' \<and> i = i' \<and> t = t'"
proof -
  have "user_data f = user_data f'" and m: "events_mask abi i t = events_mask abi i' t'"
    using assms(3) by (simp_all add: ep_add_def ep_modify_def ep_ctl_def Let_def)
  then have "f = f'" using ucast_user_data by metis
  with events_mask_inj [OF assms(1,2) m] show ?thesis by simp
qed

section \<open>poll and the receive time-out\<close>

text \<open>The kernel gets the set and the time-out; it answers with \<open>errno\<close>, the raw result and the updated set.\<close>

definition poll_call ::
  "(poll_fd list \<Rightarrow> 32 word \<Rightarrow> io_error \<times> int \<times> poll_fd list) \<Rightarrow> poll_fd list \<Rightarrow> duration option \<Rightarrow>
     poll_fd list \<times> (io_error + usize)" where
  "poll_call answer fds timeout =
     (let (errno, raw, fds') = answer fds (timeout_to_millis timeout) in
      (fds', case syscall errno raw of Inl e \<Rightarrow> Inl e | Inr n \<Rightarrow> Inr (nat n)))"

definition set_accept_timeout :: "(nat \<times> nat \<Rightarrow> io_error \<times> int) \<Rightarrow> duration \<Rightarrow> io_error + unit" where
  "set_accept_timeout setsockopt timeout =
     (let tv = accept_timeval timeout in unit_result (fst (setsockopt tv)) (snd (setsockopt tv)))"

text \<open>
  The \<open>timeval\<close> is valid (\<open>setsockopt\<close> refuses a second and more of microseconds) and is the time-out
  rounded down to whole microseconds.
\<close>

lemma accept_timeval_exact:
  "snd (accept_timeval d) < 1000000" "fst (accept_timeval d) * 1000000 + snd (accept_timeval d) = d div 1000"
proof -
  have "d mod 1000000000 div 1000 < 1000000" by (simp add: less_mult_imp_div_less)
  then show "snd (accept_timeval d) < 1000000" by (simp add: accept_timeval_def)
  have "d mod (1000 * 1000000) = 1000 * (d div 1000 mod 1000000) + d mod 1000" by (rule mod_mult2_eq)
  then have "d mod 1000000000 div 1000 = d div 1000 mod 1000000" by simp
  moreover have "d div 1000000000 = d div 1000 div 1000000" using div_mult2_eq [of d 1000 1000000] by simp
  ultimately show "fst (accept_timeval d) * 1000000 + snd (accept_timeval d) = d div 1000"
    by (simp add: accept_timeval_def)
qed

section \<open>The waits of the loops\<close>

text \<open>The constants of the event-driven loops and of the preforked model, in nanoseconds and events.\<close>

definition TICK :: duration where "TICK = 100 * 1000000"
definition MAX_EVENTS :: usize where "MAX_EVENTS = 1024"
definition SHUTDOWN_POLL :: duration where "SHUTDOWN_POLL = 100 * 1000000"

text \<open>
  No wait of a loop is for ever, so each of them comes back to its shutdown flag: \<open>epoll_wait\<close> and \<open>poll\<close>
  get a hundred milliseconds and not the value for no limit, and the receive time-out of a preforked
  worker is not zero, which would mean none.
\<close>

lemma waits_bounded:
  "timeout_to_millis (Some TICK) = 100" "timeout_to_millis (Some TICK) \<noteq> timeout_to_millis None"
  "accept_timeval SHUTDOWN_POLL = (0, 100000)"
  by (simp_all add: timeout_to_millis_def TICK_def accept_timeval_def SHUTDOWN_POLL_def)

lemma ep_wait_max_events:
  "fills answer \<Longrightarrow> ep_wait abi answer MAX_EVENTS (Some TICK) = Inr (events, n) \<Longrightarrow> length events \<le> 1024"
  using ep_wait_events [of answer abi MAX_EVENTS "Some TICK" events n] by (auto simp: MAX_EVENTS_def)

end
