(* ===== verification/Poll_Loop.thy ===== *)
theory Poll_Loop
  imports Event_Loop
begin

text \<open>
  The \<open>poll\<close> model of \<open>server/src/models/poll.rs\<close>: one thread over \<open>poll(2)\<close>. An iteration takes
  the answer of \<open>poll\<close> (an error, or the returned events of each descriptor) and the clock; the
  loop runs over the iterations the kernel grants it until the shutdown flag is up.
\<close>

record 'h poll_loop =
  pl_conns :: conn_table
  pl_wants :: wants
  pl_app :: "'h app"
  pl_kern :: kern
  pl_closed :: "slot list"

definition poll_drop_conn :: "raw_fd \<Rightarrow> 'h poll_loop \<Rightarrow> 'h poll_loop" where
  "poll_drop_conn f s =
     s\<lparr>pl_wants := hm_remove f (pl_wants s), pl_conns := table_remove f (pl_conns s),
       pl_closed := pl_closed s @ closed_slot f (pl_conns s)\<rparr>"

text \<open>\<open>accept_one\<close>: a descriptor that cannot be made non-blocking is closed at once.\<close>

definition accept_one :: "config \<Rightarrow> raw_fd \<Rightarrow> instant \<Rightarrow> 'h poll_loop \<Rightarrow> 'h poll_loop" where
  "accept_one cfg listener now s =
     (case kernel_accept (listener # map fst (hm_entries (pl_conns s))) (pl_kern s) of
        (Inr (Some (stream, peer)), k) \<Rightarrow>
          let nb = pop_answer None (k_fcntl k); s = s\<lparr>pl_kern := k\<lparr>k_fcntl := snd nb\<rparr>\<rparr> in
          (case fst nb of
             Some e \<Rightarrow> s
           | None \<Rightarrow>
               (case table_insert stream (conn_new now (cfg_read_timeout cfg)) (pl_conns s) of
                  (t, f) \<Rightarrow>
                    s\<lparr>pl_conns := t, pl_wants := hm_insert f InterestRead (pl_wants s),
                      pl_app := count_connection (pl_app s)\<rparr>))
      | (_, k) \<Rightarrow> s\<lparr>pl_kern := k\<rparr>)"

definition poll_drive :: "'h call \<Rightarrow> instant \<Rightarrow> raw_fd \<Rightarrow> 'h poll_loop \<Rightarrow> 'h poll_loop" where
  "poll_drive call now f s =
     (case table_get (pl_conns s) f of
        None \<Rightarrow> s
      | Some slot \<Rightarrow>
          (case drive_io call now READ_CHUNK False (pl_app s) slot of
             (a, slot', act) \<Rightarrow>
               let s = s\<lparr>pl_app := a, pl_conns := table_put f slot' (pl_conns s)\<rparr> in
               (case act of
                  WantRead \<Rightarrow> s\<lparr>pl_wants := hm_insert f InterestRead (pl_wants s)\<rparr>
                | WantWrite \<Rightarrow> s\<lparr>pl_wants := hm_insert f InterestWrite (pl_wants s)\<rparr>
                | Close \<Rightarrow> poll_drop_conn f s)))"

text \<open>Step 1: the poll set, the listener first when it is in.\<close>

definition poll_set :: "poll_abi \<Rightarrow> config \<Rightarrow> raw_fd \<Rightarrow> 'h poll_loop \<Rightarrow> poll_fd list" where
  "poll_set abi cfg listener s =
     (if table_len (pl_conns s) < cfg_max_connections cfg then [poll_fd_new abi listener InterestRead] else []) @
     map (\<lambda>(f, i). poll_fd_new abi f i) (hm_entries (pl_wants s))"

definition poll_event :: "'h call \<Rightarrow> poll_abi \<Rightarrow> instant \<Rightarrow> raw_fd \<times> poll_fd \<Rightarrow> 'h poll_loop \<Rightarrow> 'h poll_loop" where
  "poll_event call abi now ev s =
     (if pf_error abi (snd ev) \<or> pf_hup abi (snd ev) then poll_drop_conn (fst ev) s
      else if pf_readable abi (snd ev) \<or> pf_writable abi (snd ev) then poll_drive call now (fst ev) s
      else s)"

definition poll_sweep :: "instant \<Rightarrow> 'h poll_loop \<Rightarrow> 'h poll_loop" where
  "poll_sweep now s = fold poll_drop_conn (expired now (pl_conns s)) s"

text \<open>
  One iteration: the kernel answers with an error or with the returned events of the set. The
  listener is \<open>fds[0]\<close> when it is in the set, and the connections follow in the order of the
  snapshot taken in step 1.
\<close>

definition poll_iteration ::
  "'h call \<Rightarrow> poll_abi \<Rightarrow> config \<Rightarrow> raw_fd \<Rightarrow> io_error + (raw_fd \<Rightarrow> 16 word) \<Rightarrow> instant \<Rightarrow>
     'h poll_loop \<Rightarrow> 'h poll_loop" where
  "poll_iteration call abi cfg listener answer now s =
     (let listener_in_set = table_len (pl_conns s) < cfg_max_connections cfg;
          fd_order = map fst (hm_entries (pl_wants s)) in
      case answer of
        Inl e \<Rightarrow> s
      | Inr revents \<Rightarrow>
          let fds = map (\<lambda>p. p\<lparr>pf_revents := revents (pf_fd p)\<rparr>) (poll_set abi cfg listener s);
              s1 = (if listener_in_set \<and> pf_readable abi (fds ! 0) then accept_one cfg listener now s else s);
              conn_offset = (if listener_in_set then 1 else 0);
              s2 = fold (poll_event call abi now) (zip fd_order (drop conn_offset fds)) s1 in
          poll_sweep now s2)"

text \<open>
  The loop, over what happens before each turn: the value of the shutdown flag, the kernel's new
  answers, the bytes and room for the connections, the answer of \<open>poll\<close> and the clock.
\<close>

record tick =
  t_shutdown :: bool
  t_kern :: kern
  t_deliver :: "raw_fd \<Rightarrow> rd list \<times> wr list"
  t_answer :: "io_error + (raw_fd \<Rightarrow> 16 word)"
  t_now :: instant

fun poll_run ::
  "'h call \<Rightarrow> poll_abi \<Rightarrow> config \<Rightarrow> raw_fd \<Rightarrow> tick list \<Rightarrow> 'h poll_loop \<Rightarrow> 'h poll_loop" where
  "poll_run call abi cfg listener [] s = s"
| "poll_run call abi cfg listener (t # ts) s =
     (if t_shutdown t then s
      else poll_run call abi cfg listener ts
        (poll_iteration call abi cfg listener (t_answer t) (t_now t)
          (s\<lparr>pl_kern := t_kern t, pl_conns := deliver (t_deliver t) (pl_conns s)\<rparr>)))"

definition poll_start :: "'h app \<Rightarrow> kern \<Rightarrow> 'h poll_loop" where
  "poll_start a k = \<lparr>pl_conns = table_new, pl_wants = hm_empty, pl_app = a, pl_kern = k, pl_closed = []\<rparr>"

section \<open>The loop meets its contract\<close>

interpretation pl: event_loop call pl_conns pl_wants pl_app pl_closed poll_drop_conn "poll_drive call" False
  for call
proof
  show "pl_app (poll_drive call now f s) = a' \<and>
      (pl_conns (poll_drive call now f s) = table_remove f (table_put f sl' (pl_conns s)) \<and>
       pl_wants (poll_drive call now f s) = hm_remove f (pl_wants s) \<and>
       pl_closed (poll_drive call now f s) = pl_closed s @ closed_slot f (table_put f sl' (pl_conns s)) \<or>
       act \<noteq> Close \<and> pl_conns (poll_drive call now f s) = table_put f sl' (pl_conns s) \<and>
       hm_invar (pl_wants (poll_drive call now f s)) \<and>
       hm_get (pl_wants (poll_drive call now f s)) = (hm_get (pl_wants s))(f \<mapsto> interest_of act) \<and>
       pl_closed (poll_drive call now f s) = pl_closed s)"
    if "table_get (pl_conns s) f = Some sl"
      "drive_io call now READ_CHUNK False (pl_app s) sl = (a', sl', act)" "hm_invar (pl_wants s)"
    for s :: "'a poll_loop" and f sl now a' sl' act
    using that
    by (cases act) (auto simp: poll_drive_def poll_drop_conn_def Let_def interest_of_def hm.get_insert)
qed (simp_all add: poll_drop_conn_def poll_drive_def)

lemma poll_accept_inv:
  assumes "pl.inv call a cap s" and "table_len (pl_conns s) < cap" and "new_streams (pl_kern s)"
  shows "pl.inv call a cap (accept_one cfg listener now s)"
proof -
  obtain r k where r: "kernel_accept (listener # map fst (hm_entries (pl_conns s))) (pl_kern s) = (r, k)"
    by fastforce
  have "s_rcvd st = [] \<and> s_sent st = []" if "r = Inr (Some (st, peer))" for st peer
    using kernel_accept_cases [OF r] assms(3) that by simp
  then have "loop_ok call a cap (fst (table_insert st (conn_new now (cfg_read_timeout cfg)) (pl_conns s)))
      (hm_insert (s_fd st) InterestRead (pl_wants s))" if "r = Inr (Some (st, peer))" for st peer
    using loop_ok_insert assms(1,2) that by blast
  then show ?thesis using assms(1) r
    by (auto simp: accept_one_def Let_def table_insert_def split: sum.splits option.splits prod.splits)
qed

lemma poll_events_inv:
  "counters_unread call \<Longrightarrow> pl.inv call a cap s \<Longrightarrow> pl.inv call a cap (fold (poll_event call abi now) evs s)"
proof (induction evs arbitrary: s)
  case (Cons ev evs)
  have "pl.inv call a cap (poll_event call abi now ev s)"
    using pl.inv_drop [OF Cons.prems(2)] pl.inv_drv [OF Cons.prems] Cons.prems(2)
    by (simp add: poll_event_def)
  from Cons.IH [OF Cons.prems(1) this] show ?case by simp
qed simp

lemma poll_iteration_inv:
  assumes "counters_unread call" and "pl.inv call a (cfg_max_connections cfg) s" and "new_streams (pl_kern s)"
  shows "pl.inv call a (cfg_max_connections cfg) (poll_iteration call abi cfg listener answer now s)"
proof (cases answer)
  case (Inl e)
  with assms show ?thesis by (simp add: poll_iteration_def Let_def)
next
  case (Inr revents)
  let ?fds = "map (\<lambda>p. p\<lparr>pf_revents := revents (pf_fd p)\<rparr>) (poll_set abi cfg listener s)"
  let ?in = "table_len (pl_conns s) < cfg_max_connections cfg"
  let ?s1 = "if ?in \<and> pf_readable abi (?fds ! 0) then accept_one cfg listener now s else s"
  have "pl.inv call a (cfg_max_connections cfg) ?s1"
    using assms(2) poll_accept_inv [OF assms(2) _ assms(3)] by auto
  note pl.inv_drops [OF poll_events_inv [OF assms(1) this]]
  then show ?thesis unfolding poll_iteration_def Inr Let_def poll_sweep_def by simp
qed

lemma poll_run_inv:
  assumes "counters_unread call" and "list_all (\<lambda>t. new_streams (t_kern t)) ts"
    and "pl.inv call a (cfg_max_connections cfg) s"
  shows "pl.inv call a (cfg_max_connections cfg) (poll_run call abi cfg listener ts s)"
  using assms(2,3)
proof (induction ts arbitrary: s)
  case (Cons t ts)
  let ?s = "s\<lparr>pl_kern := t_kern t, pl_conns := deliver (t_deliver t) (pl_conns s)\<rparr>"
  have "pl.inv call a (cfg_max_connections cfg) ?s" using Cons.prems(2) loop_ok_deliver by auto
  from poll_iteration_inv [OF assms(1) this] Cons show ?case by simp
qed simp

section \<open>Properties\<close>

text \<open>
  C21: the bookkeeping of the \<open>poll\<close> model is right after any sequence of iterations: exactly the
  live connections are in the interest map, each waits for writability exactly when it has
  bytes to send and for readability otherwise, there are at most \<open>max_connections\<close> of them, and
  each has sent a prefix of what its requests call for; so has every connection that was closed,
  and all of it when the connection was closed after its last response.
\<close>

theorem poll_run_invariant:
  assumes "counters_unread call" and "list_all (\<lambda>t. new_streams (t_kern t)) ts"
    and "s = poll_run call abi cfg listener ts (poll_start a k)"
  shows "dom (hm_get (pl_wants s)) = dom (table_get (pl_conns s)) \<and>
    table_len (pl_conns s) \<le> cfg_max_connections cfg \<and>
    (\<forall>f slot. table_get (pl_conns s) f = Some slot \<longrightarrow>
       hm_get (pl_wants s) f =
         Some (if pending_write (slot_conn slot) = [] then InterestRead else InterestWrite) \<and>
       prefix (s_sent (slot_stream slot)) (wire_spec (app_handle call a) (s_rcvd (slot_stream slot)))) \<and>
    list_all (answers call a) (pl_closed s)"
proof -
  have "pl.inv call a (cfg_max_connections cfg) (poll_start a k)"
    by (simp add: poll_start_def loop_ok_new)
  from poll_run_inv [OF assms(1,2) this] have ok: "loop_ok call a (cfg_max_connections cfg) (pl_conns s) (pl_wants s)"
    and "list_all (answers call a) (pl_closed s)"
    by (simp_all add: assms(3))
  then show ?thesis
    using loop_ok_interest [OF ok] loop_ok_refines [OF ok]
    by (auto simp: loop_ok_def)
qed

definition demo_tick :: tick where
  "demo_tick = \<lparr>t_shutdown = False, t_kern = demo_accepts [7, 7], t_deliver = (\<lambda>f. ([], [])),
     t_answer = Inr (\<lambda>f. 1), t_now = 0\<rparr>"

definition linux_poll :: poll_abi where
  "linux_poll = \<lparr>POLLIN = 1, POLLOUT = 4, POLLHUP = 16, POLLERR = 8, POLLNVAL = 32\<rparr>"

theorem poll_run_invariant_witness:
  "table_len (pl_conns (poll_run no_call linux_poll demo_config 3 [demo_tick, demo_tick, demo_tick]
      (poll_start empty_app idle_kern))) \<le> cfg_max_connections demo_config"
  using poll_run_invariant [OF no_call_unread, of "[demo_tick, demo_tick, demo_tick]" _ linux_poll
      demo_config 3 empty_app idle_kern]
  by (simp add: demo_tick_def new_streams_demo)

text \<open>
  Idle connections do not outlive their deadline: a connection is live after an iteration
  whose wait succeeded only if its read deadline is still ahead.
\<close>

theorem poll_iteration_expires:
  assumes "counters_unread call"
    and "pl.inv call a (cfg_max_connections cfg) s"
    and "new_streams (pl_kern s)"
    and "table_get (pl_conns (poll_iteration call abi cfg listener (Inr revents) now s)) f = Some slot"
  shows "\<not> is_expired (slot_conn slot) now"
proof -
  let ?fds = "map (\<lambda>p. p\<lparr>pf_revents := revents (pf_fd p)\<rparr>) (poll_set abi cfg listener s)"
  let ?in = "table_len (pl_conns s) < cfg_max_connections cfg"
  let ?s1 = "if ?in \<and> pf_readable abi (?fds ! 0) then accept_one cfg listener now s else s"
  let ?s2 = "fold (poll_event call abi now)
      (zip (map fst (hm_entries (pl_wants s))) (drop (if ?in then 1 else 0) ?fds)) ?s1"
  have "pl.inv call a (cfg_max_connections cfg) ?s1"
    using assms(2) poll_accept_inv [OF assms(2) _ assms(3)] by auto
  from poll_events_inv [OF assms(1) this] have "wf_table (pl_conns ?s2)" by (simp add: loop_ok_def)
  from pl.sweep_exact [OF this, of now f] assms(4) show ?thesis
    unfolding poll_iteration_def Let_def poll_sweep_def by (simp split: option.splits if_splits)
qed

theorem poll_iteration_expires_witness:
  "\<exists>slot. table_get (pl_conns (poll_iteration no_call linux_poll demo_config 3 (Inr (\<lambda>f. 1)) 9
      (poll_start empty_app (demo_accepts [7])))) 7 = Some slot \<and> \<not> is_expired (slot_conn slot) 9"
proof -
  have "table_get (pl_conns (poll_iteration no_call linux_poll demo_config 3 (Inr (\<lambda>f. 1)) 9
      (poll_start empty_app (demo_accepts [7])))) 7 \<noteq> None"
    by code_simp
  then obtain slot where slot: "table_get (pl_conns (poll_iteration no_call linux_poll demo_config 3
      (Inr (\<lambda>f. 1)) 9 (poll_start empty_app (demo_accepts [7])))) 7 = Some slot" by blast
  have "\<not> is_expired (slot_conn slot) 9"
    using slot
    by (rule poll_iteration_expires [OF no_call_unread, where a = empty_app and cfg = demo_config, rotated 2])
       (simp_all add: poll_start_def loop_ok_new new_streams_demo)
  with slot show ?thesis by blast
qed

end
