(* ===== verification/Io_Uring.thy ===== *)
theory Io_Uring
  imports Poll_Loop "HOL-Library.Multiset"
begin

text \<open>
  The \<open>io-uring\<close> model of \<open>server/src/models/io_uring.rs\<close>: the user-data word of a request, the
  kernel gate, the ring of provided buffers and the completion loop. The kernel and the
  \<open>io_uring\<close> crate are not part of the repository: a completion is a record of what the crate
  decodes from it, and the answers to flushes of the submission queue are arguments. Requests
  that were pushed and not yet completed are kept in the state, so that the theorems can speak
  about what the kernel still refers to. Each connection carries the bytes received and sent.
\<close>

unbundle bit_operations_syntax

section \<open>User data\<close>

definition OP_ACCEPT :: "64 word" where "OP_ACCEPT = 1"
definition OP_RECV :: "64 word" where "OP_RECV = 2"
definition OP_SEND :: "64 word" where "OP_SEND = 3"
definition OP_CLOSE :: "64 word" where "OP_CLOSE = 4"

lemmas op_defs = OP_ACCEPT_def OP_RECV_def OP_SEND_def OP_CLOSE_def

definition pack :: "64 word \<Rightarrow> 32 word \<Rightarrow> 64 word" where
  "pack op f = (op AND 0xff) OR push_bit 8 (scast f)"

definition unpack :: "64 word \<Rightarrow> 64 word \<times> 32 word" where
  "unpack ud = (ud AND 0xff, ucast (signed_drop_bit 8 ud))"

lemma low_byte: "(0xff :: 64 word) = mask 8"
  by (simp add: mask_eq_exp_minus_1)

lemma unpack_pack_word: "unpack (pack op f) = (op AND 0xff, f)"
proof -
  have "(pack op f) AND 0xff = op AND 0xff"
    unfolding pack_def low_byte
    by (rule bit_word_eqI) (auto simp: bit_and_iff bit_or_iff bit_mask_iff bit_push_bit_iff)
  moreover have "ucast (signed_drop_bit 8 (pack op f)) = f"
    unfolding pack_def low_byte
    by (rule bit_word_eqI)
       (auto simp: bit_and_iff bit_or_iff bit_mask_iff bit_push_bit_iff bit_ucast_iff
         bit_signed_drop_bit_iff bit_signed_iff)
  ultimately show ?thesis by (simp add: unpack_def)
qed

section \<open>The kernel gate\<close>

definition MIN_KERNEL :: "nat \<times> nat" where
  "MIN_KERNEL = (5, 19)"

definition ascii_digit :: "char \<Rightarrow> bool" where
  "ascii_digit c \<longleftrightarrow> byte_in 48 57 c"

definition parse_u32 :: "str \<Rightarrow> nat option" where
  "parse_u32 s = parse_uint (2 ^ 32 - 1) s"

text \<open>
  The pieces are those of the characters of \<open>s\<close>, so the continuation bytes of a character beyond
  ASCII are left out before its first byte separates two pieces.
\<close>

definition parse_release :: "str \<Rightarrow> nat \<times> nat" where
  "parse_release s =
     (let parts = split_on (\<lambda>c. \<not> ascii_digit c) (filter (\<lambda>c. \<not> byte_in 0x80 0xBF c) s);
          number = (\<lambda>p. case p of [] \<Rightarrow> 0 | x # _ \<Rightarrow> (case parse_u32 x of Some n \<Rightarrow> n | None \<Rightarrow> 0)) in
      (number parts, number (drop 1 parts)))"

text \<open>\<open>check_kernel\<close>: \<open>answer\<close> is the error of \<open>uname\<close>, if any, and \<open>release\<close> the array it filled.\<close>

definition check_kernel :: "io_error option \<Rightarrow> bytes \<Rightarrow> io_error + unit" where
  "check_kernel answer release =
     (case answer of
        Some e \<Rightarrow> Inl e
      | None \<Rightarrow>
          let raw = takeWhile (\<lambda>c. c \<noteq> CHR 0x00) release;
              s = (if utf8_valid raw then raw else []);
              v = parse_release s in
          if fst v < fst MIN_KERNEL \<or> fst v = fst MIN_KERNEL \<and> snd v < snd MIN_KERNEL
          then Inl UnsupportedKind else Inr ())"

section \<open>The ring of provided buffers\<close>

definition NUM_BUFS :: "16 word" where "NUM_BUFS = 256"
definition BUF_SIZE :: usize where "BUF_SIZE = 16 * 1024"

text \<open>
  An entry of the ring is the offset of a buffer in the pool, its length and its id. \<open>tail\<close> is the
  published tail, the one the kernel reads.
\<close>

record ring_entry =
  e_addr :: usize
  e_len :: usize
  e_bid :: "16 word"

record buf_ring =
  ring :: "ring_entry list"
  ring_mask :: "16 word"
  local_tail :: "16 word"
  tail :: "16 word"

definition stage :: "16 word \<Rightarrow> buf_ring \<Rightarrow> buf_ring" where
  "stage bid br =
     br\<lparr>ring := (ring br)[unat (local_tail br AND ring_mask br) :=
           \<lparr>e_addr = unat bid * BUF_SIZE, e_len = BUF_SIZE, e_bid = bid\<rparr>],
        local_tail := local_tail br + 1\<rparr>"

definition commit :: "buf_ring \<Rightarrow> buf_ring" where
  "commit br = br\<lparr>tail := local_tail br\<rparr>"

definition recycle :: "16 word \<Rightarrow> buf_ring \<Rightarrow> buf_ring" where
  "recycle bid br = commit (stage bid br)"

definition entries :: "buf_ring \<Rightarrow> 16 word" where
  "entries br = ring_mask br + 1"

text \<open>\<open>BufRing::new\<close>, once the memory is mapped and zeroed.\<close>

definition buf_ring_new :: "16 word \<Rightarrow> buf_ring" where
  "buf_ring_new num_bufs =
     commit (fold stage (map word_of_nat [0..<unat num_bufs])
       \<lparr>ring = replicate (unat num_bufs) \<lparr>e_addr = 0, e_len = 0, e_bid = 0\<rparr>,
        ring_mask = num_bufs - 1, local_tail = 0, tail = 0\<rparr>)"

subsection \<open>The contract of a buffer pool\<close>

text \<open>
  The pool gives buffers out in order and takes them back at the end. \<open>pool_run\<close> is any
  interleaving of the two, where only a buffer that is held is given back.
\<close>

inductive pool_run ::
  "('b \<Rightarrow> 's \<Rightarrow> 's) \<Rightarrow> ('s \<Rightarrow> ('b \<times> 's) option) \<Rightarrow> 's \<Rightarrow> 's \<Rightarrow> 'b list \<Rightarrow> bool" for give tk s0 where
  pool_start: "pool_run give tk s0 s0 []"
| pool_take: "pool_run give tk s0 s held \<Longrightarrow> tk s = Some (b, s') \<Longrightarrow> pool_run give tk s0 s' (b # held)"
| pool_give: "pool_run give tk s0 s held \<Longrightarrow> b \<in> set held \<Longrightarrow> pool_run give tk s0 (give b s) (remove1 b held)"

locale buffer_pool =
  fixes avail :: "'s \<Rightarrow> 'b list"
    and give :: "'b \<Rightarrow> 's \<Rightarrow> 's"
    and tk :: "'s \<Rightarrow> ('b \<times> 's) option"
    and size :: nat
    and ok :: "'s \<Rightarrow> bool"
  assumes give_law: "ok s \<Longrightarrow> length (avail s) < size \<Longrightarrow> ok (give b s) \<and> avail (give b s) = avail s @ [b]"
    and take_law: "ok s \<Longrightarrow> case tk s of None \<Rightarrow> avail s = [] | Some (b, s') \<Rightarrow> ok s' \<and> avail s = b # avail s'"
begin

text \<open>Buffers are conserved: each is either available or held, as often as it was at the start.\<close>

lemma conservation:
  assumes "pool_run give tk s0 s held" and "ok s0" and "length (avail s0) \<le> size"
  shows "ok s \<and> mset (avail s) + mset held = mset (avail s0)"
  using assms(1)
proof (induction rule: pool_run.induct)
  case pool_start
  with assms(2) show ?case by simp
next
  case (pool_take s held b s')
  then show ?case using take_law [of s] by auto
next
  case (pool_give s held b)
  have "length (avail s) + length held \<le> size"
    using pool_give.IH assms(3) by (metis size_mset size_union)
  then have "length (avail s) < size" using pool_give.hyps(2) by (cases held) auto
  moreover have "b \<in># mset (avail s0)"
    using pool_give.IH pool_give.hyps(2) by (metis set_mset_mset union_iff)
  ultimately show ?case using pool_give give_law [of s b] by auto
qed

end

subsection \<open>The ring meets the contract\<close>

text \<open>The ring together with the kernel's head: what lies between head and tail is available.\<close>

definition between :: "16 word \<Rightarrow> 16 word \<Rightarrow> buf_ring \<Rightarrow> 16 word list" where
  "between h t br =
     map (\<lambda>i. e_bid (ring br ! unat ((h + word_of_nat i) AND ring_mask br))) [0..<unat (t - h)]"

definition ring_avail :: "buf_ring \<times> 16 word \<Rightarrow> 16 word list" where
  "ring_avail s = between (snd s) (tail (fst s)) (fst s)"

definition ring_give :: "16 word \<Rightarrow> buf_ring \<times> 16 word \<Rightarrow> buf_ring \<times> 16 word" where
  "ring_give bid s = (recycle bid (fst s), snd s)"

text \<open>The kernel's selection of a buffer.\<close>

definition ring_take :: "buf_ring \<times> 16 word \<Rightarrow> (16 word \<times> (buf_ring \<times> 16 word)) option" where
  "ring_take s =
     (if tail (fst s) = snd s then None
      else Some (e_bid (ring (fst s) ! unat (snd s AND ring_mask (fst s))), (fst s, snd s + 1)))"

definition ring_shape :: "nat \<Rightarrow> buf_ring \<Rightarrow> bool" where
  "ring_shape k br \<longleftrightarrow> k < 16 \<and> ring_mask br = mask k \<and> length (ring br) = 2 ^ k"

definition wf_ring :: "nat \<Rightarrow> buf_ring \<times> 16 word \<Rightarrow> bool" where
  "wf_ring k s \<longleftrightarrow> ring_shape k (fst s) \<and> tail (fst s) = local_tail (fst s)"

lemma slot_index:
  assumes "k < 16"
  shows "unat (((h :: 16 word) + word_of_nat i) AND mask k) = (unat h + i) mod 2 ^ k"
proof -
  have "unat (h + word_of_nat i) = (unat h + i) mod 2 ^ 16"
    by (simp add: unat_word_ariths unsigned_of_nat take_bit_eq_mod mod_simps)
  moreover have "unat (w AND mask k) = unat w mod 2 ^ k" for w :: "16 word"
    by (metis take_bit_eq_mask take_bit_eq_mod unsigned_take_bit_eq)
  ultimately have "unat ((h + word_of_nat i) AND mask k) = (unat h + i) mod 2 ^ 16 mod 2 ^ k"
    by simp
  also have "\<dots> = (unat h + i) mod 2 ^ k"
    using assms by (intro mod_mod_cancel le_imp_power_dvd) simp
  finally show ?thesis .
qed

lemma slot_index_neq:
  assumes "k < 16" and "i < d" and "d < 2 ^ k"
  shows "((h :: nat) + i) mod 2 ^ k \<noteq> (h + d) mod 2 ^ k"
proof
  assume "(h + i) mod 2 ^ k = (h + d) mod 2 ^ k"
  then have "2 ^ k dvd (h + d) - (h + i)" using assms(2) by (metis add_le_mono1 less_imp_le mod_eq_dvd_iff_nat nat_add_left_cancel_le)
  with assms(2,3) show False by (simp add: nat_dvd_not_less)
qed

lemma between_stage:
  assumes shape: "ring_shape k br" and room: "unat (local_tail br - h) < 2 ^ k"
  shows "ring_shape k (stage b br) \<and> between h (local_tail (stage b br)) (stage b br) = between h (local_tail br) br @ [b]"
proof -
  let ?d = "unat (local_tail br - h)"
  have k: "k < 16" and m: "ring_mask br = mask k" and l: "length (ring br) = 2 ^ k"
    using shape by (auto simp: ring_shape_def)
  have lt: "local_tail br = h + word_of_nat ?d" by simp
  have "?d + 1 < 2 ^ 16"
  proof -
    have "(2 :: nat) ^ k \<le> 2 ^ 15" using k by (intro power_increasing) simp_all
    with room show ?thesis by simp
  qed
  moreover have "local_tail br + 1 - h = (local_tail br - h) + 1" by simp
  ultimately have d1: "unat (local_tail br + 1 - h) = ?d + 1"
    by (simp only: unat_word_ariths) simp
  have at: "unat (local_tail br AND mask k) = (unat h + ?d) mod 2 ^ k"
    using slot_index [OF k, of h ?d] lt by metis
  have len: "unat (local_tail (stage b br) - h) = Suc ?d" using d1 by (simp add: stage_def)
  have old: "e_bid (ring (stage b br) ! unat ((h + word_of_nat i) AND mask k)) =
      e_bid (ring br ! unat ((h + word_of_nat i) AND mask k))" if "i < ?d" for i
    using slot_index_neq [OF k that room, of "unat h"]
    by (simp add: stage_def m at slot_index [OF k])
  have new: "e_bid (ring (stage b br) ! unat ((h + word_of_nat ?d) AND mask k)) = b"
    using at l by (simp add: stage_def m lt [symmetric])
  have "between h (local_tail (stage b br)) (stage b br) =
     map (\<lambda>i. e_bid (ring (stage b br) ! unat ((h + word_of_nat i) AND mask k))) [0..<Suc ?d]"
    unfolding between_def len by (simp add: stage_def m)
  also have "\<dots> = map (\<lambda>i. e_bid (ring br ! unat ((h + word_of_nat i) AND mask k))) [0..<?d] @ [b]"
    using old new by (simp add: upt_Suc_append)
  finally show ?thesis using shape by (simp add: between_def m) (simp add: ring_shape_def stage_def)
qed

lemma ring_tail_update [simp]:
  "between h t (br\<lparr>tail := x\<rparr>) = between h t br" "ring_shape k (br\<lparr>tail := x\<rparr>) = ring_shape k br"
  by (simp_all add: between_def ring_shape_def)

lemma pow_lt_16: "k < 16 \<Longrightarrow> (2 :: nat) ^ k < 2 ^ 16"
  by (intro power_strict_increasing) simp_all

lemma length_between: "length (between h t br) = unat (t - h)"
  by (simp add: between_def)

lemma between_take:
  assumes "h \<noteq> t"
  shows "between h t br = e_bid (ring br ! unat (h AND ring_mask br)) # between (h + 1) t br"
proof -
  let ?d = "unat (t - h)"
  have "?d \<noteq> 0" using assms by (simp add: unat_eq_0)
  then obtain d where d: "?d = Suc d" by (cases ?d) auto
  have "t - (h + 1) = (t - h) - 1" by simp
  then have d1: "unat (t - (h + 1)) = d"
    using d by (metis diff_Suc_1 unat_gt_0 unat_minus_one zero_less_Suc less_irrefl unat_0)
  show ?thesis
    unfolding between_def d d1
    by (simp add: upt_conv_Cons map_Suc_upt [symmetric] add.assoc del: upt_Suc)
qed

interpretation br: buffer_pool ring_avail ring_give ring_take "2 ^ k" "wf_ring k" for k
proof
  show "wf_ring k (ring_give b s) \<and> ring_avail (ring_give b s) = ring_avail s @ [b]"
    if "wf_ring k s" "length (ring_avail s) < 2 ^ k" for s b
  proof -
    have "ring_shape k (fst s)" "unat (local_tail (fst s) - snd s) < 2 ^ k" "tail (fst s) = local_tail (fst s)"
      using that by (auto simp: wf_ring_def ring_avail_def length_between)
    from between_stage [OF this(1,2), of b] this(3) show ?thesis
      by (simp add: wf_ring_def ring_avail_def ring_give_def recycle_def commit_def)
  qed
  show "case ring_take s of None \<Rightarrow> ring_avail s = []
      | Some (b, s') \<Rightarrow> wf_ring k s' \<and> ring_avail s = b # ring_avail s'" if "wf_ring k s" for s
    using that between_take [of "snd s" "tail (fst s)" "fst s"]
    by (auto simp: ring_take_def ring_avail_def wf_ring_def between_def)
qed

lemma between_stages:
  assumes "ring_shape k br" and "local_tail br - h = word_of_nat n" and "n + length bs \<le> 2 ^ k"
  shows "ring_shape k (fold stage bs br) \<and>
    between h (local_tail (fold stage bs br)) (fold stage bs br) = between h (local_tail br) br @ bs"
  using assms
proof (induction bs arbitrary: br n)
  case (Cons b bs)
  have "(2 :: nat) ^ k < 2 ^ 16" using Cons.prems(1) pow_lt_16 by (simp add: ring_shape_def)
  then have "unat (local_tail br - h) = n"
    using Cons.prems(2,3) by (simp add: unsigned_of_nat take_bit_nat_eq_self)
  then have st: "ring_shape k (stage b br) \<and>
      between h (local_tail (stage b br)) (stage b br) = between h (local_tail br) br @ [b]"
    using between_stage [OF Cons.prems(1), of h b] Cons.prems(3) by simp
  have "local_tail (stage b br) - h = word_of_nat (Suc n)"
    using Cons.prems(2) by (simp add: stage_def algebra_simps)
  from Cons.IH [OF _ this] st Cons.prems(3) show ?case by simp
qed simp

lemma buf_ring_new_avail:
  assumes "k < 16" and "n = 2 ^ k"
  shows "wf_ring k (buf_ring_new (word_of_nat n), 0) \<and>
    ring_avail (buf_ring_new (word_of_nat n), 0) = map word_of_nat [0..<n]"
proof -
  let ?br = "\<lparr>ring = replicate n \<lparr>e_addr = 0, e_len = 0, e_bid = 0\<rparr>,
        ring_mask = word_of_nat n - 1, local_tail = 0, tail = 0\<rparr> :: buf_ring"
  have "n < 2 ^ 16" using assms pow_lt_16 by simp
  then have un: "unat (word_of_nat n :: 16 word) = n" by (simp add: unsigned_of_nat take_bit_nat_eq_self)
  have "ring_shape k ?br"
    using assms by (simp add: ring_shape_def mask_eq_exp_minus_1)
  moreover have "0 + length (map word_of_nat [0..<n] :: 16 word list) \<le> 2 ^ k" using assms(2) by simp
  moreover have "between 0 (local_tail ?br) ?br = []" by (simp add: between_def)
  ultimately show ?thesis
    using between_stages [of k ?br 0 0 "map word_of_nat [0..<n]"]
    by (simp add: buf_ring_new_def un wf_ring_def ring_avail_def commit_def)
qed

section \<open>Properties\<close>

text \<open>
  Packing an operation and a descriptor into the 64-bit user data and unpacking it gives both
  back, for every operation code of a byte and every 32-bit descriptor, negative ones included.
\<close>

theorem pack_roundtrip:
  assumes "unat op < 256"
  shows "unpack (pack op f) = (op, f)"
proof -
  have "unat (take_bit 8 op) = unat op"
    using assms by (simp add: unsigned_take_bit_eq take_bit_nat_eq_self)
  then have "take_bit 8 op = op" by (rule unsigned_word_eqI)
  then have "op AND mask 8 = op" by (simp add: take_bit_eq_mask)
  then show ?thesis by (simp add: unpack_pack_word low_byte)
qed

theorem pack_roundtrip_witness: "unpack (pack OP_SEND (- 1)) = (OP_SEND, - 1)"
  by (rule pack_roundtrip) (simp add: OP_SEND_def)

text \<open>
  C27: no receive buffer is lost or given to the kernel twice: in every interleaving of the
  kernel's selections with the recycling of buffers it selected, the published part of the ring
  and the buffers in use are together exactly the 256 buffers, although the 16-bit tail wraps.
\<close>

theorem buffers_conserved:
  assumes "pool_run ring_give ring_take (buf_ring_new NUM_BUFS, 0) s held"
  shows "mset (ring_avail s) + mset held = mset (map word_of_nat [0..<256])"
proof -
  have new: "wf_ring 8 (buf_ring_new NUM_BUFS, 0) \<and>
      ring_avail (buf_ring_new NUM_BUFS, 0) = map word_of_nat [0..<256]"
    using buf_ring_new_avail [of 8 256] by (simp add: NUM_BUFS_def)
  then show ?thesis using br.conservation [OF assms, of 8] by simp
qed

theorem buffers_conserved_witness:
  "\<exists>s b. mset (ring_avail s) + {#b#} = mset (map word_of_nat [0..<256])"
proof -
  have "wf_ring 8 (buf_ring_new NUM_BUFS, 0)" "ring_avail (buf_ring_new NUM_BUFS, 0) \<noteq> []"
    using buf_ring_new_avail [of 8 256] by (simp_all add: NUM_BUFS_def)
  then obtain b s where "ring_take (buf_ring_new NUM_BUFS, 0) = Some (b, s)"
    using br.take_law [of 8 "(buf_ring_new NUM_BUFS, 0)"] by (auto split: option.splits)
  from buffers_conserved [OF pool_take [OF pool_run.pool_start [of ring_give ring_take] this]] show ?thesis
    by (intro exI [of _ s] exI [of _ b]) simp
qed

lemma decimal_release:
  "filter (\<lambda>c. \<not> byte_in 0x80 0xBF c) (decimal n) = decimal n"
  "\<forall>c \<in> set (decimal n). \<not> \<not> ascii_digit c"
  by (auto simp: filter_id_conv ascii_digit_def byte_in_def dest: decimal_digits)

lemma parse_release_dotted:
  assumes "a < 2 ^ 32" and "b < 2 ^ 32" and "rest = [] \<or> \<not> ascii_digit (hd rest) \<and> byte_in 0 0x7F (hd rest)"
  shows "parse_release (decimal a @ ''.'' @ decimal b @ rest) = (a, b)"
proof -
  let ?P = "\<lambda>c. \<not> ascii_digit c" and ?F = "filter (\<lambda>c. \<not> byte_in 0x80 0xBF c)"
  have dot: "?P (CHR ''.'')" "?F (CHR ''.'' # xs) = CHR ''.'' # ?F xs" for xs
    by (simp_all add: ascii_digit_def byte_in_def)
  obtain qs where "split_on ?P (decimal b @ ?F rest) = decimal b # qs"
  proof (cases rest)
    case Nil
    then show ?thesis using that split_on_no_sep [OF decimal_release(2), of b] by simp
  next
    case (Cons r rs)
    then have "?F rest = r # ?F rs" "?P r" using assms(3) by (auto simp: byte_in_def)
    then show ?thesis using that split_on_append_sep [OF decimal_release(2), of r b] by simp
  qed
  then have "split_on ?P (?F (decimal a @ ''.'' @ decimal b @ rest)) = decimal a # decimal b # qs"
    using split_on_append_sep [OF decimal_release(2), of "CHR ''.''" a] dot
    by (simp add: decimal_release(1))
  then show ?thesis
    using assms(1,2) by (simp add: parse_release_def parse_u32_def parse_uint_decimal Let_def)
qed

text \<open>
  The kernel gate: whatever follows the second number of the release string, the server
  starts exactly when the kernel is 5.19 or newer.
\<close>

theorem check_kernel_gate:
  assumes "a < 2 ^ 32" and "b < 2 ^ 32" and "rest = [] \<or> \<not> ascii_digit (hd rest) \<and> byte_in 0 0x7F (hd rest)"
    and "utf8_valid (decimal a @ ''.'' @ decimal b @ rest)" and "CHR 0x00 \<notin> set rest"
  shows "check_kernel None (decimal a @ ''.'' @ decimal b @ rest @ CHR 0x00 # pad) =
    (if a > 5 \<or> a = 5 \<and> b \<ge> 19 then Inr () else Inl UnsupportedKind)"
proof -
  let ?s = "decimal a @ ''.'' @ decimal b @ rest"
  have "c \<noteq> CHR 0x00" if "c \<in> set ?s" for c
    using that assms(5) decimal_digits [of c a] decimal_digits [of c b] by (auto simp: byte_in_def)
  then have "takeWhile (\<lambda>c. c \<noteq> CHR 0x00) (?s @ CHR 0x00 # pad) = ?s"
    by (subst takeWhile_append2) auto
  then show ?thesis
    using parse_release_dotted [OF assms(1-3)] assms(4)
    by (simp add: check_kernel_def MIN_KERNEL_def Let_def) auto
qed

theorem check_kernel_gate_witness:
  "check_kernel None (decimal 5 @ ''.'' @ decimal 19 @ ''.17-arch1-1'' @ CHR 0x00 # []) = Inr ()"
proof -
  have "utf8_valid (decimal 5 @ ''.'' @ decimal 19 @ ''.17-arch1-1'')" by code_simp
  from check_kernel_gate [OF _ _ _ this, of "[]"] show ?thesis
    by (simp add: ascii_digit_def byte_in_def)
qed

end
