(* ===== verification/Uring_Memory.thy ===== *)
theory Uring_Memory
  imports Io_Uring
begin

text \<open>
  The memory behind the ring of provided buffers in \<open>server/src/models/io_uring.rs\<close>: the two
  allocations of \<open>BufRing::new\<close>, \<open>bytes_ptr\<close> and \<open>drop\<close>. A buffer the kernel writes to lies in the pool
  when the pool was allocated with the buffer size the descriptors are written with, which is how
  the server calls it; \<open>stage\<close> does not use the size that \<open>new\<close> was given.
\<close>

section \<open>Allocation\<close>

definition is_power_of_two :: "16 word \<Rightarrow> bool" where
  "is_power_of_two w \<longleftrightarrow> list_ex (\<lambda>k. w = 2 ^ k) [0..<16]"

definition next_multiple_of :: "usize \<Rightarrow> usize \<Rightarrow> usize" where
  "next_multiple_of n m = (if n mod m = 0 then n else n + (m - n mod m))"

text \<open>The ring with its mapping and its pool; an address in the ring is an offset into the pool.\<close>

record buf_memory =
  bm_ring :: buf_ring
  map_size :: usize
  pool :: bytes

text \<open>
  \<open>BufRing::new\<close> in full: the size of an entry, the size of a page and the answer of \<open>mmap\<close> are
  arguments. \<open>None\<close> is the failed assertion.
\<close>

definition buf_memory_new :: "usize \<Rightarrow> usize \<Rightarrow> io_error option \<Rightarrow> 16 word \<Rightarrow> usize \<Rightarrow> (io_error + buf_memory) option" where
  "buf_memory_new entry_size page mmap num_bufs buf_size =
     (if \<not> is_power_of_two num_bufs then None
      else
        let ring_bytes = unat num_bufs * entry_size; map_size = next_multiple_of ring_bytes page in
        case mmap of
          Some e \<Rightarrow> Some (Inl e)
        | None \<Rightarrow>
            Some (Inr \<lparr>bm_ring = buf_ring_new num_bufs, map_size = map_size,
                       pool = replicate (unat num_bufs * buf_size) (CHR 0x00)\<rparr>))"

text \<open>The offset of the buffer \<open>bid\<close>, and the bytes of it that a completion of length \<open>len\<close> reads.\<close>

definition bytes_ptr :: "16 word \<Rightarrow> usize" where
  "bytes_ptr bid = unat bid * BUF_SIZE"

definition pool_bytes :: "buf_memory \<Rightarrow> 16 word \<Rightarrow> usize \<Rightarrow> bytes" where
  "pool_bytes m bid len = take len (drop (bytes_ptr bid) (pool m))"

definition in_pool :: "buf_memory \<Rightarrow> ring_entry \<Rightarrow> bool" where
  "in_pool m e \<longleftrightarrow> e_addr e + e_len e \<le> length (pool m)"

section \<open>The descriptors stay in the pool\<close>

lemma next_multiple_of_covers:
  assumes "0 < m"
  shows "n \<le> next_multiple_of n m" "m dvd next_multiple_of n m"
proof -
  have "n mod m < m" using assms by simp
  then have "n + (m - n mod m) = n div m * m + m" using div_mult_mod_eq [of n m] by linarith
  then show "m dvd next_multiple_of n m"
    by (simp add: next_multiple_of_def dvd_eq_mod_eq_0)
qed (simp add: next_multiple_of_def)

lemma is_power_of_twoE: "is_power_of_two w \<Longrightarrow> \<exists>k < 16. w = 2 ^ k"
  by (auto simp: is_power_of_two_def list_ex_iff)

text \<open>Every descriptor that is staged describes the buffer of a number below the number of buffers.\<close>

definition described :: "nat \<Rightarrow> ring_entry \<Rightarrow> bool" where
  "described n e \<longleftrightarrow>
     e = \<lparr>e_addr = 0, e_len = 0, e_bid = 0\<rparr> \<or>
     unat (e_bid e) < n \<and> e_addr e = unat (e_bid e) * BUF_SIZE \<and> e_len e = BUF_SIZE"

lemma stage_described:
  assumes "list_all (described n) (ring br)" and "unat bid < n"
  shows "list_all (described n) (ring (stage bid br))"
  using assms set_update_subset_insert [of "ring br"]
  by (fastforce simp: stage_def list_all_iff described_def)

lemma recycle_described:
  "list_all (described n) (ring br) \<Longrightarrow> unat bid < n \<Longrightarrow> list_all (described n) (ring (recycle bid br))"
  by (simp add: recycle_def commit_def stage_described)

lemma fold_stage_described:
  "list_all (\<lambda>b. unat b < n) bids \<Longrightarrow> list_all (described n) (ring br) \<Longrightarrow> list_all (described n) (ring (fold stage bids br))"
  by (induction bids arbitrary: br) (simp_all add: stage_described)

lemma buf_ring_new_described: "list_all (described (unat n)) (ring (buf_ring_new n))"
proof -
  have "unat (word_of_nat b :: 16 word) < unat n" if "b < unat n" for b
    using that unsigned_less [of n] by (simp add: unat_of_nat)
  then have "list_all (\<lambda>b. unat b < unat n) (map word_of_nat [0..<unat n] :: 16 word list)"
    by (simp add: list_all_iff)
  moreover have "list_all (described (unat n)) (replicate (unat n) \<lparr>e_addr = 0, e_len = 0, e_bid = 0\<rparr>)"
    by (simp add: list_all_iff described_def)
  ultimately show ?thesis by (simp add: buf_ring_new_def commit_def fold_stage_described)
qed

lemma described_in_pool:
  assumes "described n e" and "length (pool m) = n * BUF_SIZE"
  shows "in_pool m e"
proof -
  have "b * BUF_SIZE + BUF_SIZE \<le> n * BUF_SIZE" if "b < n" for b
    using mult_le_mono1 [of "Suc b" n BUF_SIZE] that by simp
  with assms show ?thesis by (auto simp: described_def in_pool_def)
qed

text \<open>
  A pool allocated for buffers of \<open>BUF_SIZE\<close> bytes: every descriptor in the ring lies in the pool,
  after any number of buffers was given back, and so do the bytes a completion reads.
\<close>

theorem descriptors_in_pool:
  assumes "buf_memory_new entry_size page None num_bufs BUF_SIZE = Some (Inr m)"
    and "list_all (\<lambda>b. unat b < unat num_bufs) bids" and "e \<in> set (ring (fold recycle bids (bm_ring m)))"
  shows "in_pool m e"
proof -
  have m: "length (pool m) = unat num_bufs * BUF_SIZE" "bm_ring m = buf_ring_new num_bufs"
    using assms(1) by (auto simp: buf_memory_new_def Let_def split: if_splits)
  have "list_all (described (unat num_bufs)) (ring (fold recycle bids br))"
    if "list_all (described (unat num_bufs)) (ring br)" for br
    using assms(2) that by (induction bids arbitrary: br) (simp_all add: recycle_described)
  with buf_ring_new_described m(2) have "list_all (described (unat num_bufs)) (ring (fold recycle bids (bm_ring m)))"
    by simp
  with assms(3) show ?thesis using described_in_pool [OF _ m(1)] by (simp add: list_all_iff)
qed

lemma pool_bytes_whole:
  assumes "buf_memory_new entry_size page None num_bufs BUF_SIZE = Some (Inr m)"
    and "unat bid < unat num_bufs" and "len \<le> BUF_SIZE"
  shows "length (pool_bytes m bid len) = len"
proof -
  have "length (pool m) = unat num_bufs * BUF_SIZE"
    using assms(1) by (auto simp: buf_memory_new_def Let_def split: if_splits)
  moreover have "Suc (unat bid) * BUF_SIZE \<le> unat num_bufs * BUF_SIZE"
    using assms(2) by (intro mult_le_mono1) simp
  ultimately show ?thesis using assms(3) by (simp add: pool_bytes_def bytes_ptr_def)
qed

text \<open>
  With the sizes of the unit test \<open>buf_ring_alloc_and_stage_fills_pool\<close>, eight buffers of 64 bytes,
  the descriptors are not in the pool: they are written with \<open>BUF_SIZE\<close>, not with the size asked for.
\<close>

theorem small_buffers_leave_the_pool:
  "\<exists>m. buf_memory_new 16 4096 None 8 64 = Some (Inr m) \<and>
     list_all (\<lambda>e. \<not> in_pool m e) (ring (bm_ring m))"
proof -
  have "(case buf_memory_new 16 4096 None 8 64 of
      Some (Inr m) \<Rightarrow> list_all (\<lambda>e. \<not> in_pool m e) (ring (bm_ring m)) | _ \<Rightarrow> False)" by code_simp
  then show ?thesis by (simp split: option.splits sum.splits)
qed

end
