(* ===== verification/Epoll_Loop.thy ===== *)
theory Epoll_Loop
  imports Event_Loop
begin

text \<open>
  The \<open>epoll-lt\<close> and \<open>epoll-et\<close> models of \<open>server/src/models/epoll.rs\<close>: one loop, parametrised by
  the trigger and by whether reads and accepts are drained. The loop's state has the kernel's
  registrations beside the table and the interest map, so that the theorems can speak about
  what the kernel will report; closing a descriptor removes its registration.
\<close>

record 'h epoll_loop =
  el_conns :: conn_table
  el_wants :: wants
  el_app :: "'h app"
  el_kern :: kern
  el_regs :: "(raw_fd, interest \<times> trigger) hashmap"
  listener_registered :: bool
  el_closed :: "slot list"

section \<open>epoll\_ctl\<close>

definition ctl_answer :: "'h epoll_loop \<Rightarrow> io_error option" where
  "ctl_answer s = fst (pop_answer None (k_ctl (el_kern s)))"

definition ctl_done :: "'h epoll_loop \<Rightarrow> 'h epoll_loop" where
  "ctl_done s = s\<lparr>el_kern := el_kern s\<lparr>k_ctl := snd (pop_answer None (k_ctl (el_kern s)))\<rparr>\<rparr>"

text \<open>\<open>add\<close> and \<open>modify\<close>: the registration is there exactly when the call succeeded.\<close>

definition epoll_set ::
  "raw_fd \<Rightarrow> interest \<Rightarrow> trigger \<Rightarrow> 'h epoll_loop \<Rightarrow> 'h epoll_loop \<times> io_error option" where
  "epoll_set f i t s =
     (case ctl_answer s of
        Some e \<Rightarrow> (ctl_done s, Some e)
      | None \<Rightarrow> (ctl_done (s\<lparr>el_regs := hm_insert f (i, t) (el_regs s)\<rparr>), None))"

definition epoll_delete :: "raw_fd \<Rightarrow> 'h epoll_loop \<Rightarrow> 'h epoll_loop" where
  "epoll_delete f s =
     (case ctl_answer s of
        Some e \<Rightarrow> ctl_done s
      | None \<Rightarrow> ctl_done (s\<lparr>el_regs := hm_remove f (el_regs s)\<rparr>))"

text \<open>Removing a slot closes its descriptor.\<close>

definition close_slot :: "raw_fd \<Rightarrow> 'h epoll_loop \<Rightarrow> 'h epoll_loop" where
  "close_slot f s = s\<lparr>el_conns := table_remove f (el_conns s), el_regs := hm_remove f (el_regs s),
     el_closed := el_closed s @ closed_slot f (el_conns s)\<rparr>"

definition epoll_drop_conn :: "raw_fd \<Rightarrow> 'h epoll_loop \<Rightarrow> 'h epoll_loop" where
  "epoll_drop_conn f s =
     (let s = epoll_delete f s in close_slot f (s\<lparr>el_wants := hm_remove f (el_wants s)\<rparr>))"

section \<open>Accepting\<close>

text \<open>
  One turn of \<open>accept_ready\<close>; the second component says whether the loop goes round.
\<close>

definition accept_turn ::
  "config \<Rightarrow> raw_fd \<Rightarrow> trigger \<Rightarrow> bool \<Rightarrow> instant \<Rightarrow> 'h epoll_loop \<Rightarrow> 'h epoll_loop \<times> bool" where
  "accept_turn cfg listener t drain now s =
     (if table_len (el_conns s) \<ge> cfg_max_connections cfg then (s, False)
      else
        (case kernel_accept (listener # map fst (hm_entries (el_conns s))) (el_kern s) of
           (Inr (Some (stream, peer)), k) \<Rightarrow>
             let nb = pop_answer None (k_fcntl k); s = s\<lparr>el_kern := k\<lparr>k_fcntl := snd nb\<rparr>\<rparr> in
             (case fst nb of
                Some e \<Rightarrow> (s, drain)
              | None \<Rightarrow>
                  (case table_insert stream (conn_new now (cfg_read_timeout cfg)) (el_conns s) of
                     (conns, f) \<Rightarrow>
                       (case epoll_set f InterestRead t (s\<lparr>el_conns := conns\<rparr>) of
                          (s, Some e) \<Rightarrow> (close_slot f s, drain)
                        | (s, None) \<Rightarrow>
                            (s\<lparr>el_wants := hm_insert f InterestRead (el_wants s),
                               el_app := count_connection (el_app s)\<rparr>, drain))))
         | (_, k) \<Rightarrow> (s\<lparr>el_kern := k\<rparr>, False)))"

lemma ctl_done_simps [simp]:
  "el_conns (ctl_done s) = el_conns s" "el_wants (ctl_done s) = el_wants s"
  "el_app (ctl_done s) = el_app s" "el_regs (ctl_done s) = el_regs s"
  "listener_registered (ctl_done s) = listener_registered s" "el_closed (ctl_done s) = el_closed s"
  "k_accepts (el_kern (ctl_done s)) = k_accepts (el_kern s)"
  "new_streams (el_kern (ctl_done s)) = new_streams (el_kern s)"
  by (simp_all add: ctl_done_def new_streams_def)

lemma epoll_set_simps [simp]:
  "el_conns (fst (epoll_set f i t s)) = el_conns s" "el_wants (fst (epoll_set f i t s)) = el_wants s"
  "el_app (fst (epoll_set f i t s)) = el_app s" "el_closed (fst (epoll_set f i t s)) = el_closed s"
  "listener_registered (fst (epoll_set f i t s)) = listener_registered s"
  "k_accepts (el_kern (fst (epoll_set f i t s))) = k_accepts (el_kern s)"
  "new_streams (el_kern (fst (epoll_set f i t s))) = new_streams (el_kern s)"
  "el_regs (fst (epoll_set f i t s)) =
     (if snd (epoll_set f i t s) = None then hm_insert f (i, t) (el_regs s) else el_regs s)"
  by (simp_all add: epoll_set_def split: option.split)

lemma epoll_delete_simps [simp]:
  "el_conns (epoll_delete f s) = el_conns s" "el_wants (epoll_delete f s) = el_wants s"
  "el_app (epoll_delete f s) = el_app s" "el_closed (epoll_delete f s) = el_closed s"
  "listener_registered (epoll_delete f s) = listener_registered s"
  "new_streams (el_kern (epoll_delete f s)) = new_streams (el_kern s)"
  by (simp_all add: epoll_delete_def split: option.split)

lemma close_slot_simps [simp]:
  "el_conns (close_slot f s) = table_remove f (el_conns s)" "el_wants (close_slot f s) = el_wants s"
  "el_app (close_slot f s) = el_app s" "el_kern (close_slot f s) = el_kern s"
  "el_regs (close_slot f s) = hm_remove f (el_regs s)"
  "el_closed (close_slot f s) = el_closed s @ closed_slot f (el_conns s)"
  "listener_registered (close_slot f s) = listener_registered s"
  by (simp_all add: close_slot_def)

lemma epoll_drop_conn_simps [simp]:
  "el_conns (epoll_drop_conn f s) = table_remove f (el_conns s)"
  "el_wants (epoll_drop_conn f s) = hm_remove f (el_wants s)"
  "el_app (epoll_drop_conn f s) = el_app s"
  "el_closed (epoll_drop_conn f s) = el_closed s @ closed_slot f (el_conns s)"
  "listener_registered (epoll_drop_conn f s) = listener_registered s"
  "new_streams (el_kern (epoll_drop_conn f s)) = new_streams (el_kern s)"
  by (simp_all add: epoll_drop_conn_def Let_def)

text \<open>The outcomes of a turn, one per path through it.\<close>

lemma accept_turn_cases:
  obtains "accept_turn cfg listener t drain now s = (s, False)"
  | r k where "table_len (el_conns s) < cfg_max_connections cfg"
      "kernel_accept (listener # map fst (hm_entries (el_conns s))) (el_kern s) = (r, k)"
      "\<forall>x. r \<noteq> Inr (Some x)" "accept_turn cfg listener t drain now s = (s\<lparr>el_kern := k\<rparr>, False)"
  | st peer k e where "table_len (el_conns s) < cfg_max_connections cfg"
      "kernel_accept (listener # map fst (hm_entries (el_conns s))) (el_kern s) = (Inr (Some (st, peer)), k)"
      "accept_turn cfg listener t drain now s =
         (s\<lparr>el_kern := k\<lparr>k_fcntl := snd (pop_answer None (k_fcntl k))\<rparr>\<rparr>, drain)"
  | st peer k s1 where "table_len (el_conns s) < cfg_max_connections cfg"
      "kernel_accept (listener # map fst (hm_entries (el_conns s))) (el_kern s) = (Inr (Some (st, peer)), k)"
      "s1 = s\<lparr>el_kern := k\<lparr>k_fcntl := snd (pop_answer None (k_fcntl k))\<rparr>,
              el_conns := fst (table_insert st (conn_new now (cfg_read_timeout cfg)) (el_conns s))\<rparr>"
      "accept_turn cfg listener t drain now s =
         (if snd (epoll_set (s_fd st) InterestRead t s1) = None
          then ((fst (epoll_set (s_fd st) InterestRead t s1))
                 \<lparr>el_wants := hm_insert (s_fd st) InterestRead (el_wants s),
                  el_app := count_connection (el_app s)\<rparr>, drain)
          else (close_slot (s_fd st) (fst (epoll_set (s_fd st) InterestRead t s1)), drain))"
proof -
  obtain r k where r: "kernel_accept (listener # map fst (hm_entries (el_conns s))) (el_kern s) = (r, k)"
    by fastforce
  show ?thesis
  proof (cases "table_len (el_conns s) \<ge> cfg_max_connections cfg")
    case True
    with that(1) show ?thesis by (simp add: accept_turn_def)
  next
    case len: False
    show ?thesis
    proof (cases "\<exists>st peer. r = Inr (Some (st, peer))")
      case False
      then have "accept_turn cfg listener t drain now s = (s\<lparr>el_kern := k\<rparr>, False)"
        using len r by (auto simp: accept_turn_def split: sum.splits option.splits)
      with that(2) [OF _ r] len False show ?thesis by auto
    next
      case True
      then obtain st peer where st: "r = Inr (Some (st, peer))" by blast
      let ?s1 = "s\<lparr>el_kern := k\<lparr>k_fcntl := snd (pop_answer None (k_fcntl k))\<rparr>,
              el_conns := fst (table_insert st (conn_new now (cfg_read_timeout cfg)) (el_conns s))\<rparr>"
      obtain s2 e where e: "epoll_set (s_fd st) InterestRead t ?s1 = (s2, e)" by fastforce
      have w: "el_wants s2 = el_wants s" "el_app s2 = el_app s"
        using epoll_set_simps(2,3) [of "s_fd st" InterestRead t ?s1] e by auto
      show ?thesis
      proof (cases "fst (pop_answer None (k_fcntl k))")
        case None
        with len r st e w have "accept_turn cfg listener t drain now s =
            (if e = None then (s2\<lparr>el_wants := hm_insert (s_fd st) InterestRead (el_wants s),
                  el_app := count_connection (el_app s)\<rparr>, drain)
             else (close_slot (s_fd st) s2, drain))"
          by (auto simp: accept_turn_def Let_def table_insert_def split: option.splits)
        with that(4) [OF _ r [unfolded st] refl] len e show ?thesis by simp
      next
        case (Some e)
        with len r st have "accept_turn cfg listener t drain now s =
           (s\<lparr>el_kern := k\<lparr>k_fcntl := snd (pop_answer None (k_fcntl k))\<rparr>\<rparr>, drain)"
          by (simp add: accept_turn_def Let_def)
        with that(3) [OF _ r [unfolded st]] len show ?thesis by simp
      qed
    qed
  qed
qed

lemma accept_turn_script:
  "accept_turn cfg listener t drain now s = (s', True) \<Longrightarrow>
     length (k_accepts (el_kern s')) < length (k_accepts (el_kern s))"
  by (rule accept_turn_cases [of cfg listener t drain now s])
     (auto dest!: kernel_accept_cases split: if_splits)

function accept_ready ::
  "config \<Rightarrow> raw_fd \<Rightarrow> trigger \<Rightarrow> bool \<Rightarrow> instant \<Rightarrow> 'h epoll_loop \<Rightarrow> 'h epoll_loop" where
  "accept_ready cfg listener t drain now s =
     (case accept_turn cfg listener t drain now s of
        (s', again) \<Rightarrow> if again then accept_ready cfg listener t drain now s' else s')"
  by pat_completeness auto
termination
  by (relation "measure (\<lambda>(cfg, listener, t, drain, now, s). length (k_accepts (el_kern s)))")
     (auto dest: accept_turn_script [OF sym])

declare accept_ready.simps [simp del]

section \<open>Driving\<close>

definition matches_interest :: "interest option \<Rightarrow> interest \<Rightarrow> bool" where
  "matches_interest current next \<longleftrightarrow>
     (case (current, next) of
        (Some InterestRead, InterestRead) \<Rightarrow> True
      | (Some InterestWrite, InterestWrite) \<Rightarrow> True
      | (Some InterestReadWrite, InterestReadWrite) \<Rightarrow> True
      | _ \<Rightarrow> False)"

lemma matches_interest_iff: "matches_interest c i \<longleftrightarrow> c = Some i"
  by (cases i) (auto simp: matches_interest_def split: option.splits interest.splits)

definition epoll_drive ::
  "'h call \<Rightarrow> trigger \<Rightarrow> bool \<Rightarrow> instant \<Rightarrow> raw_fd \<Rightarrow> 'h epoll_loop \<Rightarrow> 'h epoll_loop" where
  "epoll_drive call t drain now f s =
     (case table_get (el_conns s) f of
        None \<Rightarrow> s
      | Some slot \<Rightarrow>
          (case drive_io call now READ_CHUNK drain (el_app s) slot of
             (a, slot', act) \<Rightarrow>
               let s = s\<lparr>el_app := a, el_conns := table_put f slot' (el_conns s)\<rparr> in
               if act = Close then epoll_drop_conn f s
               else
                 let next = interest_of act in
                 if matches_interest (hm_get (el_wants s) f) next then s
                 else
                   (case epoll_set f next t s of
                      (s, Some e) \<Rightarrow> epoll_drop_conn f s
                    | (s, None) \<Rightarrow> s\<lparr>el_wants := hm_insert f next (el_wants s)\<rparr>)))"

text \<open>One reported event.\<close>

definition epoll_event ::
  "'h call \<Rightarrow> config \<Rightarrow> raw_fd \<Rightarrow> trigger \<Rightarrow> bool \<Rightarrow> instant \<Rightarrow> event \<Rightarrow> 'h epoll_loop \<Rightarrow> 'h epoll_loop" where
  "epoll_event call cfg listener t drain now ev s =
     (let f = sint (ev_fd ev) in
      if f = listener then (if ev_readable ev then accept_ready cfg listener t drain now s else s)
      else if ev_error ev \<or> ev_hup ev then epoll_drop_conn f s
      else if ev_readable ev \<or> ev_writable ev then epoll_drive call t drain now f s
      else s)"

definition epoll_backpressure :: "config \<Rightarrow> raw_fd \<Rightarrow> trigger \<Rightarrow> 'h epoll_loop \<Rightarrow> 'h epoll_loop" where
  "epoll_backpressure cfg listener t s =
     (if listener_registered s \<and> table_len (el_conns s) \<ge> cfg_max_connections cfg
      then (epoll_delete listener s)\<lparr>listener_registered := False\<rparr>
      else if \<not> listener_registered s \<and> table_len (el_conns s) < cfg_max_connections cfg
      then (case epoll_set listener InterestRead t s of
              (s, Some e) \<Rightarrow> s
            | (s, None) \<Rightarrow> s\<lparr>listener_registered := True\<rparr>)
      else s)"

definition epoll_sweep :: "instant \<Rightarrow> 'h epoll_loop \<Rightarrow> 'h epoll_loop" where
  "epoll_sweep now s = fold epoll_drop_conn (expired now (el_conns s)) s"

text \<open>One iteration, given the kernel's answer to \<open>epoll_wait\<close> and the clock.\<close>

definition epoll_iteration ::
  "'h call \<Rightarrow> epoll_abi \<Rightarrow> config \<Rightarrow> raw_fd \<Rightarrow> trigger \<Rightarrow> bool \<Rightarrow>
     io_error + (32 word \<times> 64 word) list \<Rightarrow> instant \<Rightarrow> 'h epoll_loop \<Rightarrow> 'h epoll_loop" where
  "epoll_iteration call abi cfg listener t drain answer now s =
     (case epoll_wait abi answer of
        Inl e \<Rightarrow> s
      | Inr ready \<Rightarrow>
          epoll_sweep now (epoll_backpressure cfg listener t
            (fold (epoll_event call cfg listener t drain now) ready s)))"

record epoll_tick =
  et_shutdown :: bool
  et_kern :: kern
  et_deliver :: "raw_fd \<Rightarrow> rd list \<times> wr list"
  et_answer :: "io_error + (32 word \<times> 64 word) list"
  et_now :: instant

fun epoll_run ::
  "'h call \<Rightarrow> epoll_abi \<Rightarrow> config \<Rightarrow> raw_fd \<Rightarrow> trigger \<Rightarrow> bool \<Rightarrow> epoll_tick list \<Rightarrow>
     'h epoll_loop \<Rightarrow> 'h epoll_loop" where
  "epoll_run call abi cfg listener t drain [] s = s"
| "epoll_run call abi cfg listener t drain (k # ks) s =
     (if et_shutdown k then s
      else epoll_run call abi cfg listener t drain ks
        (epoll_iteration call abi cfg listener t drain (et_answer k) (et_now k)
          (s\<lparr>el_kern := et_kern k, el_conns := deliver (et_deliver k) (el_conns s)\<rparr>)))"

text \<open>The state the loop starts in, once the listener is registered.\<close>

definition epoll_start :: "'h app \<Rightarrow> kern \<Rightarrow> raw_fd \<Rightarrow> trigger \<Rightarrow> 'h epoll_loop" where
  "epoll_start a k listener t = \<lparr>
     el_conns = table_new, el_wants = hm_empty, el_app = a, el_kern = k,
     el_regs = hm_insert listener (InterestRead, t) hm_empty, listener_registered = True, el_closed = []\<rparr>"

section \<open>The loop meets its contract\<close>

interpretation el: event_loop call el_conns el_wants el_app el_closed epoll_drop_conn "epoll_drive call t drain" drain
  for call t drain
proof
  fix s :: "'a epoll_loop" and f sl now a' sl' act
  assume sl: "table_get (el_conns s) f = Some sl"
    and d: "drive_io call now READ_CHUNK drain (el_app s) sl = (a', sl', act)" and w: "hm_invar (el_wants s)"
  let ?s = "s\<lparr>el_app := a', el_conns := table_put f sl' (el_conns s)\<rparr>"
  obtain s2 r where r: "epoll_set f (interest_of act) t ?s = (s2, r)" by fastforce
  have s2: "el_conns s2 = el_conns ?s" "el_wants s2 = el_wants s" "el_app s2 = a'" "el_closed s2 = el_closed s"
    using epoll_set_simps(1-4) [of f "interest_of act" t ?s] r by auto
  show "el_app (epoll_drive call t drain now f s) = a' \<and>
      (el_conns (epoll_drive call t drain now f s) = table_remove f (table_put f sl' (el_conns s)) \<and>
       el_wants (epoll_drive call t drain now f s) = hm_remove f (el_wants s) \<and>
       el_closed (epoll_drive call t drain now f s) = el_closed s @ closed_slot f (table_put f sl' (el_conns s)) \<or>
       act \<noteq> Close \<and> el_conns (epoll_drive call t drain now f s) = table_put f sl' (el_conns s) \<and>
       hm_invar (el_wants (epoll_drive call t drain now f s)) \<and>
       hm_get (el_wants (epoll_drive call t drain now f s)) = (hm_get (el_wants s))(f \<mapsto> interest_of act) \<and>
       el_closed (epoll_drive call t drain now f s) = el_closed s)"
  proof (cases "act = Close \<or> matches_interest (hm_get (el_wants s) f) (interest_of act)")
    case True
    with sl d w show ?thesis
      by (auto simp: epoll_drive_def Let_def matches_interest_iff fun_upd_idem)
  next
    case False
    with sl d r have "epoll_drive call t drain now f s =
       (if r = None then s2\<lparr>el_wants := hm_insert f (interest_of act) (el_wants s)\<rparr> else epoll_drop_conn f s2)"
      by (auto simp: epoll_drive_def Let_def s2 split: option.splits)
    with False s2 w show ?thesis by (auto simp: fun_eq_iff hm.get_insert)
  qed
qed (simp_all add: epoll_drive_def)

text \<open>
  The invariant with the kernel's side: every live connection is registered for what it waits
  for, with the loop's trigger, and the listener's descriptor is not a connection.
\<close>

definition regs_ok :: "raw_fd \<Rightarrow> trigger \<Rightarrow> 'h epoll_loop \<Rightarrow> bool" where
  "regs_ok listener t s \<longleftrightarrow>
     hm_invar (el_regs s) \<and> table_get (el_conns s) listener = None \<and>
     (\<forall>f i. hm_get (el_wants s) f = Some i \<longrightarrow> hm_get (el_regs s) f = Some (i, t))"

definition epoll_ok :: "'h call \<Rightarrow> 'h app \<Rightarrow> usize \<Rightarrow> raw_fd \<Rightarrow> trigger \<Rightarrow> 'h epoll_loop \<Rightarrow> bool" where
  "epoll_ok call a cap listener t s \<longleftrightarrow>
     loop_ok call a cap (el_conns s) (el_wants s) \<and> app_same a (el_app s) \<and>
     new_streams (el_kern s) \<and> regs_ok listener t s \<and> list_all (answers call a) (el_closed s)"

lemma loop_okD:
  assumes "loop_ok call a cap t w"
  shows "wf_table t" "hm_invar w" "dom (hm_get w) = dom (table_get t)" "table_len t \<le> cap"
  using assms by (auto simp: loop_ok_def)

lemma regs_drop:
  "hm_invar (el_regs s) \<Longrightarrow>
     hm_invar (el_regs (epoll_drop_conn f s)) \<and>
     hm_get (el_regs (epoll_drop_conn f s)) g = (if g = f then None else hm_get (el_regs s) g)"
  by (auto simp: epoll_drop_conn_def epoll_delete_def Let_def hm.get_remove split: option.split)

lemma epoll_ok_drop:
  assumes "epoll_ok call a cap listener t s"
  shows "epoll_ok call a cap listener t (epoll_drop_conn f s)"
proof -
  have ok: "loop_ok call a cap (el_conns s) (el_wants s)" "regs_ok listener t s"
    using assms by (auto simp: epoll_ok_def)
  have "regs_ok listener t (epoll_drop_conn f s)"
    using ok(2) regs_drop [of s f] loop_okD(1,2) [OF ok(1)]
    by (auto simp: regs_ok_def hm.get_remove table_get_remove split: if_splits)
  with assms loop_ok_drop [OF ok(1)] loop_ok_answers [OF ok(1)] show ?thesis by (simp add: epoll_ok_def)
qed

lemma epoll_ok_drops:
  "epoll_ok call a cap listener t s \<Longrightarrow> epoll_ok call a cap listener t (fold epoll_drop_conn fs s)"
  by (induction fs arbitrary: s) (simp_all add: epoll_ok_drop)

lemma regs_ok_set:
  assumes "regs_ok listener t s" and "hm_invar (el_wants s)" and "snd (epoll_set f i t s) = None"
  shows "regs_ok listener t ((fst (epoll_set f i t s))\<lparr>el_wants := hm_insert f i (el_wants s)\<rparr>)"
  using assms by (auto simp: regs_ok_def hm.get_insert split: if_splits)

lemma regs_ok_cong:
  "regs_ok listener t s \<Longrightarrow> el_regs s' = el_regs s \<Longrightarrow> el_wants s' = el_wants s \<Longrightarrow>
     table_get (el_conns s') listener = None \<Longrightarrow> regs_ok listener t s'"
  by (simp add: regs_ok_def)

lemma epoll_ok_drive:
  assumes "counters_unread call" and ok: "epoll_ok call a cap listener t s"
  shows "epoll_ok call a cap listener t (epoll_drive call t drain now f s)"
proof (cases "table_get (el_conns s) f")
  case None
  with ok show ?thesis by (simp add: epoll_drive_def)
next
  case (Some sl)
  obtain a' sl' act where d: "drive_io call now READ_CHUNK drain (el_app s) sl = (a', sl', act)"
    by (cases "drive_io call now READ_CHUNK drain (el_app s) sl")
  let ?s = "s\<lparr>el_app := a', el_conns := table_put f sl' (el_conns s)\<rparr>"
  let ?n = "interest_of act"
  have lo: "loop_ok call a cap (el_conns s) (el_wants s)" and ro: "regs_ok listener t s"
    and ns: "new_streams (el_kern s)" using ok by (auto simp: epoll_ok_def)
  have "table_get (el_conns ?s) listener = None"
    using ro Some loop_okD(1) [OF lo] by (auto simp: regs_ok_def table_get_put)
  with ro have ro': "regs_ok listener t ?s" by (auto intro: regs_ok_cong)
  have "slot_ok call a (el_wants s) f sl" using lo Some by (simp add: loop_ok_def)
  then have "linked call (el_app s) sl" "cstate (slot_conn sl) \<noteq> Closed"
    using linked_same [OF assms(1), of a "el_app s"] ok by (auto simp: slot_ok_def epoll_ok_def)
  from drive_io_linked [OF this d] have "s_fd (slot_stream sl') = f"
    using loop_okD(1) [OF lo] Some by (simp add: wf_table_def)
  with loop_okD [OF lo] ro have wf': "hm_invar (el_wants s)" "wf_table (table_put f sl' (el_conns s))"
    by (auto intro: wf_table_put)
  have dropped: "regs_ok listener t (epoll_drop_conn f s')"
    if "regs_ok listener t s'" "wf_table (el_conns s')" "hm_invar (el_wants s')" for s' :: "'a epoll_loop"
    using that regs_drop [of s' f] by (auto simp: regs_ok_def hm.get_remove table_get_remove split: if_splits)
  obtain s2 r where r: "epoll_set f ?n t ?s = (s2, r)" by fastforce
  have s2: "el_conns s2 = el_conns ?s" "el_wants s2 = el_wants s" "new_streams (el_kern s2)"
      "r \<noteq> None \<Longrightarrow> el_regs s2 = el_regs s"
    using epoll_set_simps [of f ?n t ?s] r ns by auto
  have "regs_ok listener t (epoll_drive call t drain now f s) \<and> new_streams (el_kern (epoll_drive call t drain now f s))"
  proof (cases "act = Close \<or> matches_interest (hm_get (el_wants s) f) ?n")
    case True
    with Some d ro' ns dropped [OF ro'] wf' show ?thesis by (auto simp: epoll_drive_def Let_def)
  next
    case False
    then have e: "epoll_drive call t drain now f s =
       (if r = None then s2\<lparr>el_wants := hm_insert f ?n (el_wants s)\<rparr> else epoll_drop_conn f s2)"
      using Some d r by (auto simp: epoll_drive_def Let_def s2 split: option.splits)
    have "regs_ok listener t s2" if "r \<noteq> None" using ro' s2 that by (auto simp: regs_ok_def)
    then show ?thesis
      using e s2 dropped [of s2] wf' regs_ok_set [OF ro', of f ?n] r by auto
  qed
  with el.inv_drv [OF assms(1), of a cap s t drain now f] ok show ?thesis by (simp add: epoll_ok_def)
qed

text \<open>A new stream that is put into the table and registered, or taken out again when that fails.\<close>

lemma epoll_ok_new_stream:
  assumes ok: "epoll_ok call a (cfg_max_connections cfg) listener t s"
    and len: "table_len (el_conns s) < cfg_max_connections cfg"
    and new: "s_rcvd st = []" "s_sent st = []" "s_fd st \<noteq> listener" "table_get (el_conns s) (s_fd st) = None"
    and ks: "new_streams k"
    and s1: "s1 = s\<lparr>el_kern := k, el_conns := fst (table_insert st (conn_new now (cfg_read_timeout cfg)) (el_conns s))\<rparr>"
  shows "snd (epoll_set (s_fd st) InterestRead t s1) = None \<Longrightarrow>
      epoll_ok call a (cfg_max_connections cfg) listener t ((fst (epoll_set (s_fd st) InterestRead t s1))
        \<lparr>el_wants := hm_insert (s_fd st) InterestRead (el_wants s), el_app := count_connection (el_app s)\<rparr>)"
    and "snd (epoll_set (s_fd st) InterestRead t s1) \<noteq> None \<Longrightarrow>
      epoll_ok call a (cfg_max_connections cfg) listener t (close_slot (s_fd st) (fst (epoll_set (s_fd st) InterestRead t s1)))"
proof -
  have lo: "loop_ok call a (cfg_max_connections cfg) (el_conns s) (el_wants s)" and ro: "regs_ok listener t s"
    and same: "app_same a (el_app s)" and cl: "list_all (answers call a) (el_closed s)"
    using ok by (auto simp: epoll_ok_def)
  note wf = loop_okD [OF lo]
  have ns1: "new_streams (el_kern s1)" using ks by (simp add: s1)
  have ro1: "regs_ok listener t s1" using ro new(3) wf(1) by (simp add: s1 regs_ok_def table_get_insert)
  show "epoll_ok call a (cfg_max_connections cfg) listener t ((fst (epoll_set (s_fd st) InterestRead t s1))
        \<lparr>el_wants := hm_insert (s_fd st) InterestRead (el_wants s), el_app := count_connection (el_app s)\<rparr>)"
    if "snd (epoll_set (s_fd st) InterestRead t s1) = None"
    using that loop_ok_insert [OF lo len new(1,2)] regs_ok_set [OF ro1 _ that] wf(2) ns1 same cl
    by (auto simp: epoll_ok_def s1 regs_ok_def)
  show "epoll_ok call a (cfg_max_connections cfg) listener t (close_slot (s_fd st) (fst (epoll_set (s_fd st) InterestRead t s1)))"
    if "snd (epoll_set (s_fd st) InterestRead t s1) \<noteq> None"
  proof -
    have "hm_get (el_wants s) (s_fd st) = None" using wf(3) new(4) by (metis domIff)
    then have "regs_ok listener t (close_slot (s_fd st) (fst (epoll_set (s_fd st) InterestRead t s1)))"
      using ro1 that wf(1) new(3,4) by (auto simp: regs_ok_def hm.get_remove s1 table_get_simps)
    with loop_ok_insert_undo [OF lo len new(4)] answers_new [OF wf(1) new(1,2)] ns1 same cl show ?thesis
      by (simp add: epoll_ok_def s1)
  qed
qed

lemma epoll_ok_accept_turn:
  assumes ok: "epoll_ok call a (cfg_max_connections cfg) listener t s"
    and turn: "accept_turn cfg listener t drain now s = (s', again)"
  shows "epoll_ok call a (cfg_max_connections cfg) listener t s'"
proof -
  let ?used = "listener # map fst (hm_entries (el_conns s))"
  have ns: "new_streams (el_kern s)" and wf: "wf_table (el_conns s)"
    using ok by (auto simp: epoll_ok_def loop_ok_def)
  have fresh: "f \<noteq> listener \<and> table_get (el_conns s) f = None" if "f \<notin> set ?used" for f
    using that hm.entries_keys [of "el_conns s"] wf by (auto simp: wf_table_def table_get_def)
  show ?thesis
  proof (rule accept_turn_cases [of cfg listener t drain now s])
    fix r k assume "kernel_accept ?used (el_kern s) = (r, k)"
      "accept_turn cfg listener t drain now s = (s\<lparr>el_kern := k\<rparr>, False)"
    with turn ok kernel_accept_cases [of ?used "el_kern s" r k] show ?thesis
      by (auto simp: epoll_ok_def regs_ok_def)
  next
    fix st peer k assume "kernel_accept ?used (el_kern s) = (Inr (Some (st, peer)), k)"
      "accept_turn cfg listener t drain now s =
         (s\<lparr>el_kern := k\<lparr>k_fcntl := snd (pop_answer None (k_fcntl k))\<rparr>\<rparr>, drain)"
    with turn ok kernel_accept_cases [of ?used "el_kern s" _ k] show ?thesis
      by (auto simp: epoll_ok_def regs_ok_def)
  next
    fix st :: tcp_stream and peer k s1
    assume len: "table_len (el_conns s) < cfg_max_connections cfg"
      and acc: "kernel_accept ?used (el_kern s) = (Inr (Some (st, peer)), k)"
      and s1: "s1 = s\<lparr>el_kern := k\<lparr>k_fcntl := snd (pop_answer None (k_fcntl k))\<rparr>,
              el_conns := fst (table_insert st (conn_new now (cfg_read_timeout cfg)) (el_conns s))\<rparr>"
      and res: "accept_turn cfg listener t drain now s =
         (if snd (epoll_set (s_fd st) InterestRead t s1) = None
          then ((fst (epoll_set (s_fd st) InterestRead t s1))
                 \<lparr>el_wants := hm_insert (s_fd st) InterestRead (el_wants s),
                  el_app := count_connection (el_app s)\<rparr>, drain)
          else (close_slot (s_fd st) (fst (epoll_set (s_fd st) InterestRead t s1)), drain))"
    have "s_rcvd st = []" "s_sent st = []" "s_fd st \<noteq> listener" "table_get (el_conns s) (s_fd st) = None"
      "new_streams (k\<lparr>k_fcntl := snd (pop_answer None (k_fcntl k))\<rparr>)"
      using kernel_accept_cases [OF acc] ns fresh [of "s_fd st"] by auto
    from epoll_ok_new_stream [OF ok len this s1] res turn show ?thesis by (auto split: if_splits)
  qed (use turn ok in auto)
qed

lemma epoll_ok_accept:
  "epoll_ok call a (cfg_max_connections cfg) listener t s \<Longrightarrow>
     epoll_ok call a (cfg_max_connections cfg) listener t (accept_ready cfg listener t drain now s)"
proof (induction cfg listener t drain now s rule: accept_ready.induct)
  case (1 cfg listener t drain now s)
  obtain s' again where turn: "accept_turn cfg listener t drain now s = (s', again)" by fastforce
  from epoll_ok_accept_turn [OF "1.prems" turn] "1.IH" [OF turn [symmetric]] show ?case
    by (subst accept_ready.simps) (simp add: turn)
qed

lemma epoll_ok_events:
  "counters_unread call \<Longrightarrow> epoll_ok call a (cfg_max_connections cfg) listener t s \<Longrightarrow>
     epoll_ok call a (cfg_max_connections cfg) listener t
       (fold (epoll_event call cfg listener t drain now) evs s)"
  by (induction evs arbitrary: s)
     (simp_all add: epoll_event_def Let_def epoll_ok_accept epoll_ok_drop epoll_ok_drive)

lemma epoll_ok_registered:
  "epoll_ok call a cap listener t (s\<lparr>listener_registered := b\<rparr>) = epoll_ok call a cap listener t s"
  by (simp add: epoll_ok_def regs_ok_def)

lemma epoll_backpressure_eq:
  "epoll_backpressure cfg listener t s =
     (if listener_registered s \<and> table_len (el_conns s) \<ge> cfg_max_connections cfg
      then (epoll_delete listener s)\<lparr>listener_registered := False\<rparr>
      else if \<not> listener_registered s \<and> table_len (el_conns s) < cfg_max_connections cfg
      then (if snd (epoll_set listener InterestRead t s) = None
            then (fst (epoll_set listener InterestRead t s))\<lparr>listener_registered := True\<rparr>
            else fst (epoll_set listener InterestRead t s))
      else s)"
  by (auto simp: epoll_backpressure_def split: prod.splits option.splits)

lemma epoll_ok_backpressure:
  assumes "epoll_ok call a cap listener t s"
  shows "epoll_ok call a cap listener t (epoll_backpressure cfg listener t s)"
proof -
  have lo: "loop_ok call a cap (el_conns s) (el_wants s)" and ro: "regs_ok listener t s"
    using assms by (auto simp: epoll_ok_def)
  have "hm_get (el_wants s) listener = None"
    using loop_okD(3) [OF lo] ro by (metis domIff regs_ok_def)
  then have "regs_ok listener t (epoll_delete listener s)"
    "regs_ok listener t (fst (epoll_set listener InterestRead t s))"
    using ro by (auto simp: regs_ok_def epoll_delete_def hm.get_remove hm.get_insert split: option.splits if_splits)
  with assms have "epoll_ok call a cap listener t (epoll_delete listener s)"
    "epoll_ok call a cap listener t (fst (epoll_set listener InterestRead t s))"
    by (simp_all add: epoll_ok_def)
  with assms show ?thesis by (simp add: epoll_backpressure_eq epoll_ok_registered)
qed

lemma epoll_ok_iteration:
  assumes "counters_unread call" and "epoll_ok call a (cfg_max_connections cfg) listener t s"
  shows "epoll_ok call a (cfg_max_connections cfg) listener t
    (epoll_iteration call abi cfg listener t drain answer now s)"
  using assms
  by (auto simp: epoll_iteration_def epoll_sweep_def epoll_ok_drops epoll_ok_backpressure epoll_ok_events
      split: sum.split)

lemma epoll_ok_run:
  assumes "counters_unread call" and "list_all (\<lambda>k. new_streams (et_kern k)) ks"
    and "epoll_ok call a (cfg_max_connections cfg) listener t s"
  shows "epoll_ok call a (cfg_max_connections cfg) listener t (epoll_run call abi cfg listener t drain ks s)"
  using assms(2,3)
proof (induction ks arbitrary: s)
  case (Cons k ks)
  let ?s = "s\<lparr>el_kern := et_kern k, el_conns := deliver (et_deliver k) (el_conns s)\<rparr>"
  have "epoll_ok call a (cfg_max_connections cfg) listener t ?s"
    using Cons.prems loop_ok_deliver by (auto simp: epoll_ok_def regs_ok_def table_get_deliver)
  from epoll_ok_iteration [OF assms(1) this] Cons show ?case by simp
qed simp

lemma epoll_ok_start: "new_streams k \<Longrightarrow> epoll_ok call a cap listener t (epoll_start a k listener t)"
  by (simp add: epoll_ok_def epoll_start_def loop_ok_new regs_ok_def) (simp add: table_defs)

section \<open>Properties\<close>

text \<open>
  C20: the epoll models never wait for the wrong event: after any sequence of iterations, level-
  or edge-triggered, with any failures of the kernel calls, the kernel has every live connection
  registered with the loop's trigger, for writability exactly when it has bytes to send and for
  readability otherwise; there are at most \<open>max_connections\<close> of them, the listener is not among
  them, and each has sent a prefix of what its requests call for; so has every connection that was
  closed, and all of it when the connection was closed after its last response.
\<close>

theorem epoll_run_invariant:
  assumes "counters_unread call" and "new_streams k" and "list_all (\<lambda>k. new_streams (et_kern k)) ks"
    and "s = epoll_run call abi cfg listener t drain ks (epoll_start a k listener t)"
  shows "table_len (el_conns s) \<le> cfg_max_connections cfg \<and> table_get (el_conns s) listener = None \<and>
    (\<forall>f slot. table_get (el_conns s) f = Some slot \<longrightarrow>
       hm_get (el_regs s) f =
         Some (if pending_write (slot_conn slot) = [] then InterestRead else InterestWrite, t) \<and>
       prefix (s_sent (slot_stream slot)) (wire_spec (app_handle call a) (s_rcvd (slot_stream slot)))) \<and>
    list_all (answers call a) (el_closed s)"
proof -
  have "epoll_ok call a (cfg_max_connections cfg) listener t s"
    using epoll_ok_run [OF assms(1,3) epoll_ok_start [OF assms(2)]] assms(4) by simp
  then have ok: "loop_ok call a (cfg_max_connections cfg) (el_conns s) (el_wants s)" and r: "regs_ok listener t s"
    and cl: "list_all (answers call a) (el_closed s)"
    by (auto simp: epoll_ok_def)
  show ?thesis
    using loop_okD(4) [OF ok] r cl loop_ok_interest [OF ok] loop_ok_refines [OF ok]
    by (auto simp: regs_ok_def)
qed

definition listener_event :: "32 word \<times> 64 word" where
  "listener_event = (1, user_data 3)"

definition demo_epoll_tick :: epoll_tick where
  "demo_epoll_tick = \<lparr>et_shutdown = False, et_kern = demo_accepts [7, 7, 7], et_deliver = (\<lambda>f. ([], [])),
     et_answer = Inr [listener_event], et_now = 0\<rparr>"

theorem epoll_run_invariant_witness:
  "table_len (el_conns (epoll_run no_call linux_epoll demo_config 3 Edge True
      [demo_epoll_tick, demo_epoll_tick] (epoll_start empty_app idle_kern 3 Edge)))
     \<le> cfg_max_connections demo_config"
  using epoll_run_invariant [OF no_call_unread, of idle_kern "[demo_epoll_tick, demo_epoll_tick]" _
      linux_epoll demo_config 3 Edge True empty_app]
  by (simp add: demo_epoll_tick_def new_streams_demo) (simp add: new_streams_def idle_kern_def)

text \<open>
  C23: the expiry sweep of the epoll models is exact: after an iteration whose wait succeeded, a
  connection is live only if its read deadline is still ahead.
\<close>

theorem epoll_iteration_expires:
  assumes "counters_unread call" and "epoll_ok call a (cfg_max_connections cfg) listener t s"
    and "table_get (el_conns (epoll_iteration call abi cfg listener t drain (Inr evs) now s)) f = Some slot"
  shows "\<not> is_expired (slot_conn slot) now"
proof -
  let ?s = "epoll_backpressure cfg listener t
      (fold (epoll_event call cfg listener t drain now) (map (decode_event abi) evs) s)"
  have "epoll_ok call a (cfg_max_connections cfg) listener t ?s"
    using epoll_ok_backpressure [OF epoll_ok_events [OF assms(1,2)]] .
  then have "wf_table (el_conns ?s)" by (simp add: epoll_ok_def loop_ok_def)
  from el.sweep_exact [OF this, of now f] assms(3) show ?thesis
    by (simp add: epoll_iteration_def epoll_wait_def epoll_sweep_def split: option.splits if_splits)
qed

theorem epoll_iteration_expires_witness:
  "\<exists>slot. table_get (el_conns (epoll_iteration no_call linux_epoll demo_config 3 Edge True
      (Inr [listener_event]) 9 (epoll_start empty_app (demo_accepts [7, 8]) 3 Edge))) 7 = Some slot \<and>
     \<not> is_expired (slot_conn slot) 9"
proof -
  have "table_get (el_conns (epoll_iteration no_call linux_epoll demo_config 3 Edge True
      (Inr [listener_event]) 9 (epoll_start empty_app (demo_accepts [7, 8]) 3 Edge))) 7 \<noteq> None"
    by code_simp
  then obtain slot where slot: "table_get (el_conns (epoll_iteration no_call linux_epoll demo_config 3 Edge True
      (Inr [listener_event]) 9 (epoll_start empty_app (demo_accepts [7, 8]) 3 Edge))) 7 = Some slot" by blast
  have "\<not> is_expired (slot_conn slot) 9"
    using slot
    by (rule epoll_iteration_expires [OF no_call_unread, where a = empty_app and cfg = demo_config, rotated])
       (simp add: epoll_ok_start new_streams_demo)
  with slot show ?thesis by blast
qed


end
