(* ===== verification/Reactor.thy ===== *)
theory Reactor
  imports Epoll_Loop
begin

text \<open>
  The \<open>Reactor\<close> of \<open>server/src/reactor.rs\<close>, used once by the \<open>event-loop\<close> model and once per worker
  by \<open>multireactor\<close>. Its fields \<open>epoll\<close>, \<open>conns\<close>, \<open>wants\<close> and \<open>listener_registered\<close> are those of the
  state record of \<open>Epoll_Loop\<close>; its listener and its configuration are arguments. The main
  theorem is the claim of its documentation that it behaves as \<open>epoll-et\<close> does.
\<close>

section \<open>The reactor\<close>

text \<open>
  \<open>Reactor::new\<close>: the answers to making the listener non-blocking, to \<open>epoll_create1\<close> and to the
  registration of the listener.
\<close>

definition reactor_new ::
  "io_error option \<Rightarrow> io_error option \<Rightarrow> io_error option \<Rightarrow> 'h app \<Rightarrow> kern \<Rightarrow> raw_fd \<Rightarrow> io_error + 'h epoll_loop" where
  "reactor_new nonblocking create add a k listener =
     (case nonblocking of
        Some e \<Rightarrow> Inl e
      | None \<Rightarrow>
          (case create of
             Some e \<Rightarrow> Inl e
           | None \<Rightarrow>
               (case add of
                  Some e \<Rightarrow> Inl e
                | None \<Rightarrow>
                    Inr \<lparr>el_conns = table_new, el_wants = hm_empty, el_app = a, el_kern = k,
                         el_regs = hm_insert listener (InterestRead, Edge) hm_empty,
                         listener_registered = True, el_closed = []\<rparr>)))"

definition reactor_drop_conn :: "raw_fd \<Rightarrow> 'h epoll_loop \<Rightarrow> 'h epoll_loop" where
  "reactor_drop_conn f s =
     (let s = epoll_delete f s in close_slot f (s\<lparr>el_wants := hm_remove f (el_wants s)\<rparr>))"

text \<open>One turn of \<open>accept_ready\<close>; the second component says whether it goes round.\<close>

definition reactor_accept_turn ::
  "config \<Rightarrow> raw_fd \<Rightarrow> instant \<Rightarrow> 'h epoll_loop \<Rightarrow> 'h epoll_loop \<times> bool" where
  "reactor_accept_turn cfg listener now s =
     (if table_len (el_conns s) \<ge> cfg_max_connections cfg then (s, False)
      else
        (case kernel_accept (listener # map fst (hm_entries (el_conns s))) (el_kern s) of
           (Inr (Some (stream, peer)), k) \<Rightarrow>
             let nb = pop_answer None (k_fcntl k); s = s\<lparr>el_kern := k\<lparr>k_fcntl := snd nb\<rparr>\<rparr> in
             if fst nb \<noteq> None then (s, True)
             else
               (case table_insert stream (conn_new now (cfg_read_timeout cfg)) (el_conns s) of
                  (conns, f) \<Rightarrow>
                    (case epoll_set f InterestRead Edge (s\<lparr>el_conns := conns\<rparr>) of
                       (s, Some e) \<Rightarrow> (close_slot f s, True)
                     | (s, None) \<Rightarrow>
                         (s\<lparr>el_wants := hm_insert f InterestRead (el_wants s),
                            el_app := count_connection (el_app s)\<rparr>, True)))
         | (Inr None, k) \<Rightarrow> (s\<lparr>el_kern := k\<rparr>, False)
         | (Inl e, k) \<Rightarrow> (s\<lparr>el_kern := k\<rparr>, False)))"

lemma reactor_accept_turn_eq:
  "reactor_accept_turn cfg listener now s = accept_turn cfg listener Edge True now s"
  by (auto simp: reactor_accept_turn_def accept_turn_def Let_def
      split: prod.splits sum.splits option.splits)

function reactor_accept_ready :: "config \<Rightarrow> raw_fd \<Rightarrow> instant \<Rightarrow> 'h epoll_loop \<Rightarrow> 'h epoll_loop" where
  "reactor_accept_ready cfg listener now s =
     (case reactor_accept_turn cfg listener now s of
        (s', again) \<Rightarrow> if again then reactor_accept_ready cfg listener now s' else s')"
  by pat_completeness auto
termination
  by (relation "measure (\<lambda>(cfg, listener, now, s). length (k_accepts (el_kern s)))")
     (auto dest: accept_turn_script [OF sym] simp: reactor_accept_turn_eq)

declare reactor_accept_ready.simps [simp del]

definition reactor_drive :: "'h call \<Rightarrow> instant \<Rightarrow> raw_fd \<Rightarrow> 'h epoll_loop \<Rightarrow> 'h epoll_loop" where
  "reactor_drive call now f s =
     (case table_get (el_conns s) f of
        None \<Rightarrow> s
      | Some slot \<Rightarrow>
          (case drive_io call now READ_CHUNK True (el_app s) slot of
             (a, slot', act) \<Rightarrow>
               let s = s\<lparr>el_app := a, el_conns := table_put f slot' (el_conns s)\<rparr> in
               (case act of
                  Close \<Rightarrow> reactor_drop_conn f s
                | _ \<Rightarrow>
                    let next = (case act of WantRead \<Rightarrow> InterestRead | _ \<Rightarrow> InterestWrite) in
                    if \<not> matches_interest (hm_get (el_wants s) f) next
                    then (case epoll_set f next Edge s of
                            (s, Some e) \<Rightarrow> reactor_drop_conn f s
                          | (s, None) \<Rightarrow> s\<lparr>el_wants := hm_insert f next (el_wants s)\<rparr>)
                    else s)))"

definition apply_backpressure :: "config \<Rightarrow> raw_fd \<Rightarrow> 'h epoll_loop \<Rightarrow> 'h epoll_loop" where
  "apply_backpressure cfg listener s =
     (if listener_registered s \<and> table_len (el_conns s) \<ge> cfg_max_connections cfg
      then (epoll_delete listener s)\<lparr>listener_registered := False\<rparr>
      else if \<not> listener_registered s \<and> table_len (el_conns s) < cfg_max_connections cfg
      then (case epoll_set listener InterestRead Edge s of
              (s, None) \<Rightarrow> s\<lparr>listener_registered := True\<rparr>
            | (s, Some e) \<Rightarrow> s)
      else s)"

definition sweep_expired :: "instant \<Rightarrow> 'h epoll_loop \<Rightarrow> 'h epoll_loop" where
  "sweep_expired now s = fold reactor_drop_conn (expired now (el_conns s)) s"

definition reactor_event ::
  "'h call \<Rightarrow> config \<Rightarrow> raw_fd \<Rightarrow> instant \<Rightarrow> event \<Rightarrow> 'h epoll_loop \<Rightarrow> 'h epoll_loop" where
  "reactor_event call cfg listener now ev s =
     (let f = sint (ev_fd ev) in
      if f = listener then (if ev_readable ev then reactor_accept_ready cfg listener now s else s)
      else if ev_error ev \<or> ev_hup ev then reactor_drop_conn f s
      else if ev_readable ev \<or> ev_writable ev then reactor_drive call now f s
      else s)"

text \<open>\<open>Reactor::run\<close>, over what the kernel and the clock say at each turn.\<close>

fun reactor_run ::
  "'h call \<Rightarrow> epoll_abi \<Rightarrow> config \<Rightarrow> raw_fd \<Rightarrow> epoll_tick list \<Rightarrow> 'h epoll_loop \<Rightarrow> 'h epoll_loop" where
  "reactor_run call abi cfg listener [] s = s"
| "reactor_run call abi cfg listener (k # ks) s =
     (if et_shutdown k then s
      else
        let s = s\<lparr>el_kern := et_kern k, el_conns := deliver (et_deliver k) (el_conns s)\<rparr> in
        reactor_run call abi cfg listener ks
          (case epoll_wait abi (et_answer k) of
             Inl e \<Rightarrow> s
           | Inr ready \<Rightarrow>
               sweep_expired (et_now k) (apply_backpressure cfg listener
                 (fold (reactor_event call cfg listener (et_now k)) ready s))))"

section \<open>The reactor is epoll-et\<close>

lemma reactor_drop_conn_eq: "reactor_drop_conn = epoll_drop_conn"
  by (intro ext) (simp add: reactor_drop_conn_def epoll_drop_conn_def)

lemma reactor_accept_ready_eq:
  "reactor_accept_ready cfg listener now s = accept_ready cfg listener Edge True now s"
proof (induction cfg listener now s rule: reactor_accept_ready.induct)
  case (1 cfg listener now s)
  then show ?case
    by (subst reactor_accept_ready.simps, subst accept_ready.simps)
       (auto simp: reactor_accept_turn_eq split: prod.splits)
qed

lemma reactor_drive_eq: "reactor_drive call now f s = epoll_drive call Edge True now f s"
proof (cases "table_get (el_conns s) f")
  case None
  then show ?thesis by (simp add: reactor_drive_def epoll_drive_def)
next
  case (Some slot)
  obtain a slot' act where "drive_io call now READ_CHUNK True (el_app s) slot = (a, slot', act)"
    by (cases "drive_io call now READ_CHUNK True (el_app s) slot")
  with Some show ?thesis
    by (cases act)
       (simp_all add: reactor_drive_def epoll_drive_def reactor_drop_conn_eq interest_of_def Let_def)
qed

lemma reactor_event_eq:
  "reactor_event call cfg listener now = epoll_event call cfg listener Edge True now"
  by (intro ext)
     (simp add: reactor_event_def epoll_event_def reactor_drop_conn_eq reactor_accept_ready_eq reactor_drive_eq Let_def)

lemma reactor_tail_eq:
  "apply_backpressure cfg listener s = epoll_backpressure cfg listener Edge s"
  "sweep_expired now s = epoll_sweep now s"
  by (auto simp: apply_backpressure_def epoll_backpressure_def sweep_expired_def epoll_sweep_def
      reactor_drop_conn_eq split: prod.splits option.splits)

lemma reactor_run_eq:
  "reactor_run call abi cfg listener ks s = epoll_run call abi cfg listener Edge True ks s"
  by (induction ks arbitrary: s)
     (simp_all add: epoll_iteration_def reactor_event_eq reactor_tail_eq Let_def split: sum.split)

text \<open>
  C22: the reactor behaves as the edge-triggered epoll model does: from the same state, for every
  sequence of kernel answers, events and clock readings, both end in the same state, with the
  same connections, registrations, counters and bytes on every stream.
\<close>

theorem reactor_is_epoll_et:
  "reactor_run call abi cfg listener ks s = epoll_run call abi cfg listener Edge True ks s"
  by (rule reactor_run_eq)

section \<open>Many reactors\<close>

text \<open>
  \<open>Multireactor::serve\<close> after its workers are started: each worker ends with a result or panics
  (\<open>None\<close>), and the first error in the order of the workers is the server's.
\<close>

definition multireactor_workers :: "config \<Rightarrow> usize" where
  "multireactor_workers cfg = max (cfg_workers cfg) 1"

fun join_workers :: "io_error option \<Rightarrow> (io_error + unit) option list \<Rightarrow> io_error option" where
  "join_workers first_err [] = first_err"
| "join_workers first_err (r # rs) =
     (case r of
        Some (Inr u) \<Rightarrow> join_workers first_err rs
      | Some (Inl e) \<Rightarrow> join_workers (if first_err = None then Some e else first_err) rs
      | None \<Rightarrow> join_workers first_err rs)"

definition multireactor_result :: "(io_error + unit) option list \<Rightarrow> io_error + unit" where
  "multireactor_result rs = (case join_workers None rs of Some e \<Rightarrow> Inl e | None \<Rightarrow> Inr ())"

definition worker_error :: "(io_error + unit) option \<Rightarrow> io_error option" where
  "worker_error r = (case r of Some (Inl e) \<Rightarrow> Some e | _ \<Rightarrow> None)"

lemma join_workers_step:
  "join_workers first_err (r # rs) =
     join_workers (if first_err = None then worker_error r else first_err) rs"
proof (cases r)
  case (Some x)
  then show ?thesis by (cases x) (simp_all add: worker_error_def)
qed (simp add: worker_error_def)

lemma join_workers_Some: "join_workers (Some e) rs = Some e"
  by (induction rs) (simp_all only: join_workers_step, simp_all)

lemma join_workers_errors:
  "join_workers None rs = (case List.map_filter worker_error rs of [] \<Rightarrow> None | e # _ \<Rightarrow> Some e)"
proof (induction rs)
  case (Cons r rs)
  then show ?case
    by (cases "worker_error r")
       (simp_all only: join_workers_step, simp_all add: join_workers_Some List.map_filter_def)
qed (simp add: List.map_filter_def)

text \<open>
  Every worker of a multireactor is waited for, and the server fails exactly when one of them
  returned an error, with the error of the first such worker; a panic is not an error.
\<close>

theorem multireactor_result_first_error:
  "multireactor_result rs =
     (case List.map_filter worker_error rs of [] \<Rightarrow> Inr () | e # _ \<Rightarrow> Inl e)"
  by (simp add: multireactor_result_def join_workers_errors split: list.split)

end
