(* ===== verification/Uring_Runtime.thy ===== *)
theory Uring_Runtime
  imports Io_Uring
begin

text \<open>
  The completion loop of \<open>server/src/models/io_uring.rs\<close>: the \<open>Runtime\<close> and its handlers. The state
  holds the requests that were pushed and not yet completed (\<open>rt_inflight\<close>) and, for the theorems,
  those that were dropped because the submission queue stayed full (\<open>rt_lost\<close>) and the
  connections that were closed (\<open>rt_closed\<close>); a connection carries the bytes received and sent beside its state machine.
\<close>

section \<open>The runtime\<close>

definition RING_ENTRIES :: nat where
  "RING_ENTRIES = 1024"

datatype sqe = AcceptMulti raw_fd | Recv raw_fd | Send raw_fd bytes | CloseFd raw_fd

fun sqe_user_data :: "sqe \<Rightarrow> 64 word" where
  "sqe_user_data (AcceptMulti f) = pack OP_ACCEPT (word_of_int f)"
| "sqe_user_data (Recv f) = pack OP_RECV (word_of_int f)"
| "sqe_user_data (Send f bs) = pack OP_SEND (word_of_int f)"
| "sqe_user_data (CloseFd f) = pack OP_CLOSE (word_of_int f)"

record cqe =
  cq_user_data :: "64 word"
  cq_result :: int
  cq_more :: bool
  cq_buffer :: "16 word option"

record conn_state =
  uc_inner :: connection
  uc_rcvd :: bytes
  uc_sent :: bytes

record 'h runtime =
  rt_conns :: "(raw_fd, conn_state) hashmap"
  rt_br :: buf_ring
  rt_app :: "'h app"
  accept_armed :: bool
  rt_sq_len :: nat
  rt_inflight :: "sqe list"
  rt_lost :: "sqe list"
  rt_flush :: "bool list"
  rt_closed :: "conn_state list"

text \<open>
  \<open>push\<close>: a full queue is flushed once; \<open>rt_flush\<close> says whether the kernel takes the entries. The
  second component is false when there is still no room.
\<close>

definition rt_push :: "sqe \<Rightarrow> 'h runtime \<Rightarrow> 'h runtime \<times> bool" where
  "rt_push e s =
     (if rt_sq_len s < RING_ENTRIES
      then (s\<lparr>rt_sq_len := rt_sq_len s + 1, rt_inflight := rt_inflight s @ [e]\<rparr>, True)
      else
        let r = pop_answer True (rt_flush s);
            s = s\<lparr>rt_flush := snd r, rt_sq_len := (if fst r then 0 else rt_sq_len s)\<rparr> in
        if rt_sq_len s < RING_ENTRIES
        then (s\<lparr>rt_sq_len := rt_sq_len s + 1, rt_inflight := rt_inflight s @ [e]\<rparr>, True)
        else (s\<lparr>rt_lost := rt_lost s @ [e]\<rparr>, False))"

definition arm_accept :: "raw_fd \<Rightarrow> 'h runtime \<Rightarrow> 'h runtime" where
  "arm_accept listener s =
     (case rt_push (AcceptMulti listener) s of (s, ok) \<Rightarrow> if ok then s\<lparr>accept_armed := True\<rparr> else s)"

definition submit_recv :: "raw_fd \<Rightarrow> 'h runtime \<Rightarrow> 'h runtime" where
  "submit_recv f s = fst (rt_push (Recv f) s)"

definition submit_close :: "raw_fd \<Rightarrow> 'h runtime \<Rightarrow> 'h runtime" where
  "submit_close f s = fst (rt_push (CloseFd f) s)"

definition rt_drop_conn :: "raw_fd \<Rightarrow> 'h runtime \<Rightarrow> 'h runtime" where
  "rt_drop_conn f s =
     (case hm_get (rt_conns s) f of
        Some c \<Rightarrow>
          submit_close f (s\<lparr>rt_conns := hm_remove f (rt_conns s), rt_closed := rt_closed s @ [c]\<rparr>)
      | None \<Rightarrow> s)"

lemma on_written_drained:
  "pending_write c = [] \<Longrightarrow> snd (on_written now c 0) \<noteq> WantWrite"
  by (auto simp: on_written_def pending_write_def action_for_state_def Let_def split: cstate.splits)

text \<open>\<open>apply\<close> with \<open>submit_send\<close>, which calls it again when nothing is pending.\<close>

function rt_apply :: "instant \<Rightarrow> raw_fd \<Rightarrow> conn_action \<Rightarrow> 'h runtime \<Rightarrow> 'h runtime" where
  "rt_apply now f act s =
     (case act of
        WantRead \<Rightarrow> submit_recv f s
      | WantWrite \<Rightarrow>
          (case hm_get (rt_conns s) f of
             None \<Rightarrow> s
           | Some c \<Rightarrow>
               if pending_write (uc_inner c) = []
               then rt_apply now f (snd (on_written now (uc_inner c) 0))
                      (s\<lparr>rt_conns := hm_insert f (c\<lparr>uc_inner := fst (on_written now (uc_inner c) 0)\<rparr>)
                          (rt_conns s)\<rparr>)
               else fst (rt_push (Send f (pending_write (uc_inner c))) s))
      | Close \<Rightarrow> rt_drop_conn f s)"
  by pat_completeness auto
termination
  by (relation "measure (\<lambda>(now, f, act, s). if act = WantWrite then 1 else 0)")
     (auto dest: on_written_drained)

declare rt_apply.simps [simp del]

definition on_accept :: "config \<Rightarrow> instant \<Rightarrow> int \<Rightarrow> bool \<Rightarrow> 'h runtime \<Rightarrow> 'h runtime" where
  "on_accept cfg now result again s =
     (let s = (if again then s else s\<lparr>accept_armed := False\<rparr>) in
      if result < 0 then s
      else if hm_len (rt_conns s) \<ge> cfg_max_connections cfg then submit_close result s
      else
        submit_recv result
          (s\<lparr>rt_conns := hm_insert result
                \<lparr>uc_inner = conn_new now (cfg_read_timeout cfg), uc_rcvd = [], uc_sent = []\<rparr> (rt_conns s),
             rt_app := count_connection (rt_app s)\<rparr>))"

text \<open>\<open>pool\<close> is the content of the provided buffers when the completion is handled.\<close>

definition on_recv ::
  "'h call \<Rightarrow> instant \<Rightarrow> (16 word \<Rightarrow> bytes) \<Rightarrow> raw_fd \<Rightarrow> int \<Rightarrow> 16 word option \<Rightarrow> 'h runtime \<Rightarrow> 'h runtime" where
  "on_recv call now pool f result buffer s =
     (if result \<le> 0 then rt_drop_conn f s
      else
        (case buffer of
           None \<Rightarrow> rt_drop_conn f s
         | Some bid \<Rightarrow>
             (case hm_get (rt_conns s) f of
                None \<Rightarrow> s\<lparr>rt_br := recycle bid (rt_br s)\<rparr>
              | Some c \<Rightarrow>
                  let bs = take (nat result) (pool bid);
                      r = on_bytes call (rt_app s) (uc_inner c) bs in
                  rt_apply now f (snd r)
                    (s\<lparr>rt_conns := hm_insert f (c\<lparr>uc_inner := fst r, uc_rcvd := uc_rcvd c @ bs\<rparr>) (rt_conns s),
                       rt_br := recycle bid (rt_br s)\<rparr>))))"

definition on_send :: "instant \<Rightarrow> raw_fd \<Rightarrow> int \<Rightarrow> 'h runtime \<Rightarrow> 'h runtime" where
  "on_send now f result s =
     (if result < 0 then rt_drop_conn f s
      else
        (case hm_get (rt_conns s) f of
           None \<Rightarrow> s
         | Some c \<Rightarrow>
             let r = on_written now (uc_inner c) (nat result) in
             rt_apply now f (snd r)
               (s\<lparr>rt_conns := hm_insert f (c\<lparr>uc_inner := fst r,
                    uc_sent := uc_sent c @ take (nat result) (pending_write (uc_inner c))\<rparr>) (rt_conns s)\<rparr>)))"

text \<open>
  One completion, and all that were collected. A completion ends the request it belongs to,
  unless the kernel says that more will follow.
\<close>

fun retire :: "64 word \<Rightarrow> sqe list \<Rightarrow> sqe list" where
  "retire ud [] = []"
| "retire ud (e # es) = (if sqe_user_data e = ud then es else e # retire ud es)"

definition handle_cqe ::
  "'h call \<Rightarrow> config \<Rightarrow> instant \<Rightarrow> (16 word \<Rightarrow> bytes) \<Rightarrow> cqe \<Rightarrow> 'h runtime \<Rightarrow> 'h runtime" where
  "handle_cqe call cfg now pool c s =
     (let op = fst (unpack (cq_user_data c)); f = sint (snd (unpack (cq_user_data c)));
          s = (if cq_more c then s else s\<lparr>rt_inflight := retire (cq_user_data c) (rt_inflight s)\<rparr>) in
      if op = OP_ACCEPT then on_accept cfg now (cq_result c) (cq_more c) s
      else if op = OP_RECV then on_recv call now pool f (cq_result c) (cq_buffer c) s
      else if op = OP_SEND then on_send now f (cq_result c) s
      else s)"

definition drain_cqes ::
  "'h call \<Rightarrow> config \<Rightarrow> instant \<Rightarrow> (16 word \<Rightarrow> bytes) \<Rightarrow> cqe list \<Rightarrow> 'h runtime \<Rightarrow> 'h runtime" where
  "drain_cqes call cfg now pool cqes s = fold (handle_cqe call cfg now pool) cqes s"

definition runtime_new :: "'h app \<Rightarrow> 'h runtime" where
  "runtime_new a = \<lparr>
     rt_conns = hm_empty, rt_br = buf_ring_new NUM_BUFS, rt_app = a, accept_armed = False,
     rt_sq_len = 0, rt_inflight = [], rt_lost = [], rt_flush = [], rt_closed = []\<rparr>"

text \<open>
  The body of \<open>run\<close>'s loop before the completions are handled: the accept is armed again if it
  ended, and the queue is submitted. \<open>answer\<close> is the error of the submission, if any; the wait
  running into its time limit is not one.
\<close>

definition runtime_submit :: "raw_fd \<Rightarrow> io_error option \<Rightarrow> 'h runtime \<Rightarrow> 'h runtime \<times> bool" where
  "runtime_submit listener answer s =
     (let s = (if accept_armed s then s else arm_accept listener s) in
      case answer of
        None \<Rightarrow> (s\<lparr>rt_sq_len := 0\<rparr>, True)
      | Some TimedOut \<Rightarrow> (s\<lparr>rt_sq_len := 0\<rparr>, True)
      | Some e \<Rightarrow> (s, False))"

definition runtime_turn ::
  "'h call \<Rightarrow> config \<Rightarrow> raw_fd \<Rightarrow> io_error option \<Rightarrow> instant \<Rightarrow> (16 word \<Rightarrow> bytes) \<Rightarrow> cqe list \<Rightarrow>
     'h runtime \<Rightarrow> 'h runtime" where
  "runtime_turn call cfg listener answer now pool cqes s =
     (case runtime_submit listener answer s of
        (s, waited) \<Rightarrow> if waited then drain_cqes call cfg now pool cqes s else s)"

text \<open>
  \<open>run\<close>, over what happens at each turn: the shutdown flag, the answers to the flushes of a full
  queue, the answer of the submission, the clock, the buffers and the completions.
\<close>

record uring_tick =
  ut_shutdown :: bool
  ut_flush :: "bool list"
  ut_answer :: "io_error option"
  ut_now :: instant
  ut_pool :: "16 word \<Rightarrow> bytes"
  ut_cqes :: "cqe list"

definition uring_turn :: "'h call \<Rightarrow> config \<Rightarrow> raw_fd \<Rightarrow> uring_tick \<Rightarrow> 'h runtime \<Rightarrow> 'h runtime" where
  "uring_turn call cfg listener t s =
     runtime_turn call cfg listener (ut_answer t) (ut_now t) (ut_pool t) (ut_cqes t)
       (s\<lparr>rt_flush := ut_flush t\<rparr>)"

fun runtime_loop :: "'h call \<Rightarrow> config \<Rightarrow> raw_fd \<Rightarrow> uring_tick list \<Rightarrow> 'h runtime \<Rightarrow> 'h runtime" where
  "runtime_loop call cfg listener [] s = s"
| "runtime_loop call cfg listener (t # ts) s =
     (if ut_shutdown t then s else runtime_loop call cfg listener ts (uring_turn call cfg listener t s))"

definition runtime_run :: "'h call \<Rightarrow> config \<Rightarrow> raw_fd \<Rightarrow> uring_tick list \<Rightarrow> 'h runtime \<Rightarrow> 'h runtime" where
  "runtime_run call cfg listener ts s = runtime_loop call cfg listener ts (arm_accept listener s)"

section \<open>Requests and their connections\<close>

text \<open>All requests that were pushed and are not completed, whether the kernel has them or not.\<close>

definition rt_ops :: "'h runtime \<Rightarrow> sqe multiset" where
  "rt_ops s = mset (rt_inflight s) + mset (rt_lost s)"

fun conn_op :: "raw_fd \<Rightarrow> sqe \<Rightarrow> bool" where
  "conn_op f (Recv g) \<longleftrightarrow> g = f"
| "conn_op f (Send g bs) \<longleftrightarrow> g = f"
| "conn_op f (AcceptMulti g) \<longleftrightarrow> False"
| "conn_op f (CloseFd g) \<longleftrightarrow> False"

fun sqe_fd :: "sqe \<Rightarrow> raw_fd" where
  "sqe_fd (AcceptMulti f) = f"
| "sqe_fd (Recv f) = f"
| "sqe_fd (Send f bs) = f"
| "sqe_fd (CloseFd f) = f"

definition fd_ok :: "raw_fd \<Rightarrow> bool" where
  "fd_ok f \<longleftrightarrow> 0 \<le> f \<and> f < 2 ^ 31"

text \<open>The request a connection waits for: the pending bytes sent, or more bytes received.\<close>

definition wanted :: "raw_fd \<Rightarrow> connection \<Rightarrow> sqe" where
  "wanted f c = (if pending_write c = [] then Recv f else Send f (pending_write c))"

definition conn_reqs :: "raw_fd \<Rightarrow> sqe multiset \<Rightarrow> sqe multiset" where
  "conn_reqs f ops = filter_mset (conn_op f) ops"

text \<open>
  The invariant; the connections in \<open>X\<close> are being served and have no request.
\<close>

definition uc_run :: "'h call \<Rightarrow> 'h app \<Rightarrow> conn_state \<Rightarrow> bool" where
  "uc_run call a c \<longleftrightarrow> conn_run call a (uc_inner c) (uc_rcvd c) (uc_sent c)"

definition conn_ok :: "'h call \<Rightarrow> 'h app \<Rightarrow> raw_fd set \<Rightarrow> sqe multiset \<Rightarrow> raw_fd \<Rightarrow> conn_state \<Rightarrow> bool" where
  "conn_ok call a X ops f c \<longleftrightarrow>
     conn_run call a (uc_inner c) (uc_rcvd c) (uc_sent c) \<and> CloseFd f \<notin># ops \<and> fd_ok f \<and>
     (if f \<in> X then conn_reqs f ops = {#}
      else cstate (uc_inner c) \<noteq> Closed \<and> conn_reqs f ops = {#wanted f (uc_inner c)#})"

definition rt_inv :: "'h call \<Rightarrow> 'h app \<Rightarrow> usize \<Rightarrow> raw_fd set \<Rightarrow> 'h runtime \<Rightarrow> bool" where
  "rt_inv call a cap X s \<longleftrightarrow>
     hm_invar (rt_conns s) \<and> hm_len (rt_conns s) \<le> cap \<and> app_same a (rt_app s) \<and>
     (\<forall>e \<in># rt_ops s. fd_ok (sqe_fd e)) \<and>
     (\<forall>f. hm_get (rt_conns s) f = None \<longrightarrow> conn_reqs f (rt_ops s) = {#}) \<and>
     (\<forall>f c. hm_get (rt_conns s) f = Some c \<longrightarrow> conn_ok call a X (rt_ops s) f c) \<and>
     list_all (uc_run call a) (rt_closed s)"

lemma rt_inv_None: "rt_inv call a cap X s \<Longrightarrow> hm_get (rt_conns s) f = None \<Longrightarrow> conn_reqs f (rt_ops s) = {#}"
  by (simp add: rt_inv_def)

lemma rt_inv_Some:
  "rt_inv call a cap X s \<Longrightarrow> hm_get (rt_conns s) f = Some c \<Longrightarrow> conn_ok call a X (rt_ops s) f c"
  by (simp add: rt_inv_def)

lemma rt_inv_rest:
  "rt_inv call a cap X s \<Longrightarrow> hm_len (rt_conns s) \<le> cap"
  "rt_inv call a cap X s \<Longrightarrow> app_same a (rt_app s)"
  "rt_inv call a cap X s \<Longrightarrow> e \<in># rt_ops s \<Longrightarrow> fd_ok (sqe_fd e)"
  "rt_inv call a cap X s \<Longrightarrow> list_all (uc_run call a) (rt_closed s)"
  by (simp_all add: rt_inv_def)

lemma rt_invI:
  assumes "hm_invar (rt_conns s)" and "hm_len (rt_conns s) \<le> cap" and "app_same a (rt_app s)"
    and "\<And>e. e \<in># rt_ops s \<Longrightarrow> fd_ok (sqe_fd e)"
    and "\<And>f. hm_get (rt_conns s) f = None \<Longrightarrow> conn_reqs f (rt_ops s) = {#}"
    and "\<And>f c. hm_get (rt_conns s) f = Some c \<Longrightarrow> conn_ok call a X (rt_ops s) f c"
    and "list_all (uc_run call a) (rt_closed s)"
  shows "rt_inv call a cap X s"
  using assms by (simp add: rt_inv_def)

lemma rt_inv_hm [simp]: "rt_inv call a cap X s \<Longrightarrow> hm_invar (rt_conns s)"
  by (simp add: rt_inv_def)

subsection \<open>Pushing a request\<close>

lemma rt_push_effect:
  "rt_conns (fst (rt_push e s)) = rt_conns s" "rt_app (fst (rt_push e s)) = rt_app s"
  "rt_br (fst (rt_push e s)) = rt_br s" "rt_closed (fst (rt_push e s)) = rt_closed s"
  "rt_ops (fst (rt_push e s)) = add_mset e (rt_ops s)"
  by (simp_all add: rt_push_def rt_ops_def Let_def)

lemma conn_reqs_push:
  "conn_reqs f (add_mset e ops) = (if conn_op f e then add_mset e (conn_reqs f ops) else conn_reqs f ops)"
  by (simp add: conn_reqs_def)

text \<open>Field updates that the invariant does not look at.\<close>

lemma rt_inv_update [simp]:
  "rt_inv call a cap X (s\<lparr>rt_br := b\<rparr>) = rt_inv call a cap X s"
  "rt_inv call a cap X (s\<lparr>accept_armed := x\<rparr>) = rt_inv call a cap X s"
  "rt_inv call a cap X (s\<lparr>rt_sq_len := n\<rparr>) = rt_inv call a cap X s"
  "rt_inv call a cap X (s\<lparr>rt_flush := fl\<rparr>) = rt_inv call a cap X s"
  by (simp_all add: rt_inv_def rt_ops_def)

lemma rt_inv_push_other:
  assumes inv: "rt_inv call a cap X s" and e: "fd_ok (sqe_fd e)" "\<And>f. \<not> conn_op f e"
    and close: "\<And>f. e = CloseFd f \<Longrightarrow> hm_get (rt_conns s) f = None"
  shows "rt_inv call a cap X (fst (rt_push e s))"
proof (rule rt_invI, unfold rt_push_effect)
  show "conn_ok call a X (add_mset e (rt_ops s)) f c" if "hm_get (rt_conns s) f = Some c" for f c
    using rt_inv_Some [OF inv that] e(2) [of f] close [of f] that
    by (auto simp: conn_ok_def conn_reqs_push)
  show "conn_reqs f (add_mset e (rt_ops s)) = {#}" if "hm_get (rt_conns s) f = None" for f
    using rt_inv_None [OF inv that] e(2) [of f] by (simp add: conn_reqs_push)
qed (use inv e(1) rt_inv_rest [OF inv] in auto)

lemma rt_inv_push_wanted:
  assumes inv: "rt_inv call a cap {f} s" and c: "hm_get (rt_conns s) f = Some c" "cstate (uc_inner c) \<noteq> Closed"
  shows "rt_inv call a cap {} (fst (rt_push (wanted f (uc_inner c)) s))"
proof (rule rt_invI, unfold rt_push_effect)
  let ?e = "wanted f (uc_inner c)"
  have e: "conn_op g ?e \<longleftrightarrow> g = f" "sqe_fd ?e = f" "CloseFd g \<noteq> ?e" for g by (auto simp: wanted_def)
  show "conn_ok call a {} (add_mset ?e (rt_ops s)) g d" if "hm_get (rt_conns s) g = Some d" for g d
    using rt_inv_Some [OF inv that] c that e(1,3) [of g]
    by (cases "g = f") (simp_all add: conn_ok_def conn_reqs_push)
  show "conn_reqs g (add_mset ?e (rt_ops s)) = {#}" if "hm_get (rt_conns s) g = None" for g
    using rt_inv_None [OF inv that] that c(1) e(1) [of g] by (auto simp: conn_reqs_push)
  show "fd_ok (sqe_fd e')" if "e' \<in># add_mset ?e (rt_ops s)" for e'
    using that rt_inv_rest(3) [OF inv] rt_inv_Some [OF inv c(1)] e(2) by (auto simp: conn_ok_def)
qed (use inv rt_inv_rest [OF inv] in auto)

subsection \<open>Changing the table\<close>

lemma rt_ops_update [simp]: "rt_ops (s\<lparr>rt_conns := m\<rparr>) = rt_ops s" "rt_ops (s\<lparr>rt_app := b\<rparr>) = rt_ops s"
  "rt_ops (s\<lparr>rt_closed := cs\<rparr>) = rt_ops s"
  by (simp_all add: rt_ops_def)

lemma rt_inv_store:
  assumes inv: "rt_inv call a cap {f} s" and c: "hm_get (rt_conns s) f = Some c"
    and run: "conn_run call a (uc_inner c') (uc_rcvd c') (uc_sent c')"
  shows "rt_inv call a cap {f} (s\<lparr>rt_conns := hm_insert f c' (rt_conns s)\<rparr>)" (is "rt_inv _ _ _ _ ?s")
proof (rule rt_invI)
  show "hm_len (rt_conns ?s) \<le> cap"
    using inv c hm.len_insert_old [of "rt_conns s" f c c'] rt_inv_rest(1) [OF inv] by simp
  show "conn_reqs g (rt_ops ?s) = {#}" if "hm_get (rt_conns ?s) g = None" for g
    using that rt_inv_None [OF inv, of g] inv by (simp add: hm.get_insert split: if_splits)
  show "conn_ok call a {f} (rt_ops ?s) g d" if "hm_get (rt_conns ?s) g = Some d" for g d
    using that rt_inv_Some [OF inv, of g] rt_inv_Some [OF inv c] run inv
    by (cases "g = f") (simp_all add: hm.get_insert conn_ok_def)
qed (use inv rt_inv_rest [OF inv] in simp_all)

lemma rt_inv_remove:
  assumes inv: "rt_inv call a cap {f} s" and c: "hm_get (rt_conns s) f = Some c"
  shows "rt_inv call a cap {} (s\<lparr>rt_conns := hm_remove f (rt_conns s), rt_closed := rt_closed s @ [c]\<rparr>)"
    (is "rt_inv _ _ _ _ ?s")
proof (rule rt_invI)
  show "list_all (uc_run call a) (rt_closed ?s)"
    using rt_inv_rest(4) [OF inv] rt_inv_Some [OF inv c] by (simp add: conn_ok_def uc_run_def)
  show "hm_len (rt_conns ?s) \<le> cap"
    using inv hm.len_remove_le [of "rt_conns s" f] rt_inv_rest(1) [OF inv] by simp
  show "conn_reqs g (rt_ops ?s) = {#}" if "hm_get (rt_conns ?s) g = None" for g
    using that rt_inv_None [OF inv, of g] rt_inv_Some [OF inv, of g] inv
    by (cases "hm_get (rt_conns s) g") (auto simp: hm.get_remove conn_ok_def split: if_splits)
  show "conn_ok call a {} (rt_ops ?s) g d" if "hm_get (rt_conns ?s) g = Some d" for g d
    using that rt_inv_Some [OF inv, of g] inv
    by (cases "g = f") (simp_all add: hm.get_remove conn_ok_def)
qed (use inv rt_inv_rest [OF inv] in simp_all)

lemma rt_inv_add:
  assumes inv: "rt_inv call a cap {} s" and new: "hm_get (rt_conns s) f = None" "hm_len (rt_conns s) < cap"
    and run: "conn_run call a (uc_inner c) (uc_rcvd c) (uc_sent c)" and f: "fd_ok f" "CloseFd f \<notin># rt_ops s"
  shows "rt_inv call a cap {f} (s\<lparr>rt_conns := hm_insert f c (rt_conns s), rt_app := count_connection (rt_app s)\<rparr>)"
    (is "rt_inv _ _ _ _ ?s")
proof (rule rt_invI)
  show "hm_len (rt_conns ?s) \<le> cap"
    using inv new hm.len_insert_new [of "rt_conns s" f c] by simp
  show "conn_reqs g (rt_ops ?s) = {#}" if "hm_get (rt_conns ?s) g = None" for g
    using that rt_inv_None [OF inv, of g] inv by (simp add: hm.get_insert split: if_splits)
  show "conn_ok call a {f} (rt_ops ?s) g d" if "hm_get (rt_conns ?s) g = Some d" for g d
    using that rt_inv_Some [OF inv, of g] rt_inv_None [OF inv new(1)] run f inv
    by (cases "g = f") (simp_all add: hm.get_insert conn_ok_def)
qed (use inv rt_inv_rest [OF inv] in simp_all)

text \<open>The end of a connection's request.\<close>

lemma rt_inv_retire:
  assumes inv: "rt_inv call a cap {} s" and e: "e \<in> set (rt_inflight s)" and f: "conn_op f e"
    and s': "rt_conns s' = rt_conns s" "rt_app s' = rt_app s" "rt_closed s' = rt_closed s"
      "rt_ops s' = rt_ops s - {#e#}"
  shows "rt_inv call a cap {f} s' \<and> (\<exists>c. hm_get (rt_conns s) f = Some c \<and> e = wanted f (uc_inner c))"
proof -
  have mem: "e \<in># rt_ops s" using e by (simp add: rt_ops_def)
  then have inreqs: "e \<in># conn_reqs f (rt_ops s)" using f by (simp add: conn_reqs_def)
  then obtain c where c: "hm_get (rt_conns s) f = Some c"
    using rt_inv_None [OF inv, of f] by (cases "hm_get (rt_conns s) f") auto
  with rt_inv_Some [OF inv this] inreqs have w: "e = wanted f (uc_inner c)" by (simp add: conn_ok_def)
  have fe: "conn_op g e \<longleftrightarrow> g = f" for g using f by (cases e) auto
  have reqs: "conn_reqs g (rt_ops s - {#e#}) = (if g = f then conn_reqs g (rt_ops s) - {#e#} else conn_reqs g (rt_ops s))" for g
    using fe [of g] by (simp add: conn_reqs_def)
  have "rt_inv call a cap {f} s'"
  proof (rule rt_invI, unfold s')
    show "conn_reqs g (rt_ops s - {#e#}) = {#}" if "hm_get (rt_conns s) g = None" for g
      using rt_inv_None [OF inv that] reqs [of g] by (cases "g = f") simp_all
    show "conn_ok call a {f} (rt_ops s - {#e#}) g d" if "hm_get (rt_conns s) g = Some d" for g d
      using rt_inv_Some [OF inv that] reqs [of g] w c that
      by (auto simp: conn_ok_def dest: in_diffD)
  qed (use inv rt_inv_rest [OF inv] in \<open>auto dest: in_diffD\<close>)
  with c w show ?thesis by blast
qed

lemma rt_inv_retire_other:
  assumes inv: "rt_inv call a cap X s" and e: "\<And>f. \<not> conn_op f e"
    and s': "rt_conns s' = rt_conns s" "rt_app s' = rt_app s" "rt_closed s' = rt_closed s"
      "rt_ops s' = rt_ops s - {#e#}"
  shows "rt_inv call a cap X s'"
proof (rule rt_invI, unfold s')
  have reqs: "conn_reqs g (rt_ops s - {#e#}) = conn_reqs g (rt_ops s)" for g
    using e [of g] by (simp add: conn_reqs_def)
  show "conn_reqs g (rt_ops s - {#e#}) = {#}" if "hm_get (rt_conns s) g = None" for g
    using rt_inv_None [OF inv that] reqs [of g] by simp
  show "conn_ok call a X (rt_ops s - {#e#}) g d" if "hm_get (rt_conns s) g = Some d" for g d
    using rt_inv_Some [OF inv that] reqs [of g] by (auto simp: conn_ok_def dest: in_diffD)
qed (use inv rt_inv_rest [OF inv] in \<open>auto dest: in_diffD\<close>)

section \<open>The handlers keep the invariant\<close>

lemma drop_conn_inv: "rt_inv call a cap {f} s \<Longrightarrow> rt_inv call a cap {} (rt_drop_conn f s)"
proof (cases "hm_get (rt_conns s) f")
  case None
  assume inv: "rt_inv call a cap {f} s"
  have "rt_inv call a cap {} s"
  proof (rule rt_invI)
    show "conn_ok call a {} (rt_ops s) g c" if "hm_get (rt_conns s) g = Some c" for g c
      using rt_inv_Some [OF inv that] that None by (cases "g = f") (simp_all add: conn_ok_def)
  qed (use inv rt_inv_rest [OF inv] rt_inv_None [OF inv] in simp_all)
  with None show ?thesis by (simp add: rt_drop_conn_def)
next
  case (Some c)
  assume inv: "rt_inv call a cap {f} s"
  have "fd_ok f" using rt_inv_Some [OF inv Some] by (simp add: conn_ok_def)
  then show ?thesis
    using Some inv rt_inv_push_other [OF rt_inv_remove [OF inv Some], of "CloseFd f"]
    by (simp add: rt_drop_conn_def submit_close_def hm.get_remove)
qed

lemma apply_inv:
  assumes inv: "rt_inv call a cap {f} s" and c: "hm_get (rt_conns s) f = Some c"
    and act: "act = action_for_state (uc_inner c)"
  shows "rt_inv call a cap {} (rt_apply now f act s)"
proof -
  have sim: "conn_sim (app_handle call a) (uc_inner c) (uc_rcvd c) (uc_sent c)"
    using rt_inv_Some [OF inv c] by (auto simp: conn_ok_def intro: conn_run_sim)
  show ?thesis
  proof (cases "cstate (uc_inner c)")
    case Reading
    then have "wanted f (uc_inner c) = Recv f" by (simp add: wanted_def pending_write_def)
    with Reading rt_inv_push_wanted [OF inv c] act show ?thesis
      by (simp add: rt_apply.simps [of now f WantRead s] action_for_state_def submit_recv_def)
  next
    case Writing
    then have "pending_write (uc_inner c) \<noteq> []" using conn_sim_Writing [OF sim] by simp
    with Writing rt_inv_push_wanted [OF inv c] act c show ?thesis
      by (simp add: rt_apply.simps [of now f WantWrite s] action_for_state_def wanted_def)
  next
    case Closed
    with drop_conn_inv [OF inv] act show ?thesis
      by (simp add: rt_apply.simps [of now f Close s] action_for_state_def)
  qed
qed

lemma on_recv_inv:
  assumes unread: "counters_unread call" and inv: "rt_inv call a cap {f} s"
    and c: "hm_get (rt_conns s) f = Some c" and rd: "cstate (uc_inner c) = Reading"
  shows "rt_inv call a cap {} (on_recv call now pool f res bufid s)"
proof (cases "res \<le> 0 \<or> bufid = None")
  case True
  then show ?thesis using drop_conn_inv [OF inv] by (auto simp: on_recv_def split: option.split)
next
  case False
  then obtain bid where bid: "bufid = Some bid" by auto
  let ?bs = "take (nat res) (pool bid)"
  have same: "on_bytes call (rt_app s) (uc_inner c) bs = on_bytes call a (uc_inner c) bs" for bs
    by (rule on_bytes_cong) (use app_handle_same [OF unread] rt_inv_rest(2) [OF inv] in auto)
  obtain d act where d: "on_bytes call a (uc_inner c) ?bs = (d, act)"
    by (cases "on_bytes call a (uc_inner c) ?bs")
  let ?c = "c\<lparr>uc_inner := d, uc_rcvd := uc_rcvd c @ ?bs\<rparr>"
  have "conn_run call a (uc_inner c) (uc_rcvd c) (uc_sent c)"
    using rt_inv_Some [OF inv c] by (simp add: conn_ok_def)
  from run_read [OF this rd, of ?bs] d
  have st: "rt_inv call a cap {f} (s\<lparr>rt_conns := hm_insert f ?c (rt_conns s)\<rparr>)"
    by (intro rt_inv_store [OF inv c]) simp
  have "rt_inv call a cap {}
      (rt_apply now f act (s\<lparr>rt_conns := hm_insert f ?c (rt_conns s), rt_br := recycle bid (rt_br s)\<rparr>))"
    by (rule apply_inv [where c = ?c])
       (use st inv on_bytes_action [OF d] in \<open>simp_all add: hm.get_insert\<close>)
  with False bid c d same show ?thesis by (simp add: on_recv_def Let_def)
qed

lemma on_send_inv:
  assumes inv: "rt_inv call a cap {f} s" and c: "hm_get (rt_conns s) f = Some c"
    and wr: "cstate (uc_inner c) = Writing" and n: "res \<le> int (length (pending_write (uc_inner c)))"
  shows "rt_inv call a cap {} (on_send now f res s)"
proof (cases "res < 0")
  case True
  then show ?thesis using drop_conn_inv [OF inv] by (simp add: on_send_def)
next
  case False
  let ?p = "pending_write (uc_inner c)"
  obtain d act where d: "on_written now (uc_inner c) (nat res) = (d, act)"
    by (cases "on_written now (uc_inner c) (nat res)")
  let ?c = "c\<lparr>uc_inner := d, uc_sent := uc_sent c @ take (nat res) ?p\<rparr>"
  have "conn_run call a (uc_inner c) (uc_rcvd c) (uc_sent c)"
    using rt_inv_Some [OF inv c] by (simp add: conn_ok_def)
  from run_write [OF this wr, of "nat res" now] n d
  have st: "rt_inv call a cap {f} (s\<lparr>rt_conns := hm_insert f ?c (rt_conns s)\<rparr>)"
    by (intro rt_inv_store [OF inv c]) simp
  have "rt_inv call a cap {} (rt_apply now f act (s\<lparr>rt_conns := hm_insert f ?c (rt_conns s)\<rparr>))"
    by (rule apply_inv [where c = ?c])
       (use st inv on_written_action [OF d] in \<open>simp_all add: hm.get_insert\<close>)
  with False c d show ?thesis by (simp add: on_send_def Let_def)
qed

lemma on_accept_inv:
  assumes inv: "rt_inv call a (cfg_max_connections cfg) {} s"
    and new: "0 \<le> res \<Longrightarrow> fd_ok res \<and> hm_get (rt_conns s) res = None \<and> CloseFd res \<notin># rt_ops s"
  shows "rt_inv call a (cfg_max_connections cfg) {} (on_accept cfg now res again s)"
proof -
  define s1 where "s1 = (if again then s else s\<lparr>accept_armed := False\<rparr>)"
  have inv1: "rt_inv call a (cfg_max_connections cfg) {} s1"
    and same: "rt_conns s1 = rt_conns s" "rt_ops s1 = rt_ops s"
    using inv by (auto simp: s1_def rt_ops_def)
  note def = on_accept_def [of cfg now res again s, folded s1_def, unfolded Let_def]
  consider "res < 0" | "0 \<le> res" "hm_len (rt_conns s) \<ge> cfg_max_connections cfg"
    | "0 \<le> res" "hm_len (rt_conns s) < cfg_max_connections cfg" by linarith
  then show ?thesis
  proof cases
    case 1
    with inv1 show ?thesis by (simp add: def)
  next
    case 2
    with new rt_inv_push_other [OF inv1, of "CloseFd res"] show ?thesis
      by (simp add: def same submit_close_def)
  next
    case 3
    let ?c = "\<lparr>uc_inner = conn_new now (cfg_read_timeout cfg), uc_rcvd = [], uc_sent = []\<rparr>"
    have "rt_inv call a (cfg_max_connections cfg) {res}
        (s1\<lparr>rt_conns := hm_insert res ?c (rt_conns s1), rt_app := count_connection (rt_app s1)\<rparr>)"
      by (rule rt_inv_add [OF inv1]) (use new [OF 3(1)] 3 same run_new in simp_all)
    from rt_inv_push_wanted [OF this, of ?c] 3 inv same show ?thesis
      by (simp add: def submit_recv_def hm.get_insert wanted_def pending_write_def conn_new_def)
  qed
qed

section \<open>What the kernel promises\<close>

text \<open>
  A completion belongs to a request in flight. A send reports at most the bytes it was given,
  an accept a descriptor that is not open, and only the accept may announce more completions.
\<close>

definition cqe_ok :: "cqe \<Rightarrow> 'h runtime \<Rightarrow> bool" where
  "cqe_ok c s \<longleftrightarrow>
     list_ex (\<lambda>e. sqe_user_data e = cq_user_data c \<and>
       (case e of
          AcceptMulti l \<Rightarrow> 0 \<le> cq_result c \<longrightarrow>
            fd_ok (cq_result c) \<and> hm_get (rt_conns s) (cq_result c) = None \<and>
            CloseFd (cq_result c) \<notin> set (rt_inflight s @ rt_lost s)
        | Recv f \<Rightarrow> \<not> cq_more c
        | Send f bs \<Rightarrow> \<not> cq_more c \<and> cq_result c \<le> int (length bs)
        | CloseFd f \<Rightarrow> \<not> cq_more c)) (rt_inflight s)"

fun sqe_op :: "sqe \<Rightarrow> 64 word" where
  "sqe_op (AcceptMulti f) = OP_ACCEPT"
| "sqe_op (Recv f) = OP_RECV"
| "sqe_op (Send f bs) = OP_SEND"
| "sqe_op (CloseFd f) = OP_CLOSE"

lemma sqe_unpack:
  assumes "fd_ok (sqe_fd e)"
  shows "fst (unpack (sqe_user_data e)) = sqe_op e" "sint (snd (unpack (sqe_user_data e))) = sqe_fd e"
proof -
  have "sqe_user_data e = pack (sqe_op e) (word_of_int (sqe_fd e))" by (cases e) simp_all
  moreover have "sqe_op e AND 0xff = sqe_op e" by (cases e) (simp_all add: op_defs)
  moreover have "sint (word_of_int (sqe_fd e) :: 32 word) = sqe_fd e"
    using assms by (simp add: fd_ok_def signed_of_int signed_take_bit_int_eq_self_iff)
  ultimately show "fst (unpack (sqe_user_data e)) = sqe_op e" "sint (snd (unpack (sqe_user_data e))) = sqe_fd e"
    by (simp_all add: unpack_pack_word)
qed

lemma op_distinct [simp]:
  "OP_ACCEPT \<noteq> OP_RECV" "OP_ACCEPT \<noteq> OP_SEND" "OP_ACCEPT \<noteq> OP_CLOSE" "OP_RECV \<noteq> OP_ACCEPT"
  "OP_RECV \<noteq> OP_SEND" "OP_RECV \<noteq> OP_CLOSE" "OP_SEND \<noteq> OP_ACCEPT" "OP_SEND \<noteq> OP_RECV"
  "OP_SEND \<noteq> OP_CLOSE" "OP_CLOSE \<noteq> OP_ACCEPT" "OP_CLOSE \<noteq> OP_RECV" "OP_CLOSE \<noteq> OP_SEND"
  by (simp_all add: op_defs)

lemma retire_mset:
  assumes "\<exists>e \<in> set es. sqe_user_data e = ud"
  shows "\<exists>e \<in> set es. sqe_user_data e = ud \<and> mset (retire ud es) = mset es - {#e#}"
  using assms
proof (induction es)
  case (Cons e es)
  then show ?case
  proof (cases "sqe_user_data e = ud")
    case False
    with Cons obtain e' where "e' \<in> set es" "sqe_user_data e' = ud" "mset (retire ud es) = mset es - {#e'#}"
      by auto
    with False show ?thesis by (intro bexI [of _ e']) auto
  qed auto
qed simp

text \<open>The completion that is handled ends the request the kernel meant.\<close>

lemma retire_ops:
  assumes inv: "rt_inv call a cap {} s" and e: "e \<in> set (rt_inflight s)"
  shows "\<exists>e' \<in> set (rt_inflight s). sqe_op e' = sqe_op e \<and> sqe_fd e' = sqe_fd e \<and>
    rt_ops (s\<lparr>rt_inflight := retire (sqe_user_data e) (rt_inflight s)\<rparr>) = rt_ops s - {#e'#}"
proof -
  obtain e' where e': "e' \<in> set (rt_inflight s)" "sqe_user_data e' = sqe_user_data e"
      "mset (retire (sqe_user_data e) (rt_inflight s)) = mset (rt_inflight s) - {#e'#}"
    using retire_mset [of "rt_inflight s" "sqe_user_data e"] e by blast
  have ok: "fd_ok (sqe_fd e)" "fd_ok (sqe_fd e')"
    using rt_inv_rest(3) [OF inv] e e'(1) by (simp_all add: rt_ops_def)
  have "sqe_op e' = sqe_op e" "sqe_fd e' = sqe_fd e"
    using sqe_unpack [OF ok(1)] sqe_unpack [OF ok(2)] e'(2) by simp_all
  moreover have "mset (rt_inflight s) - {#e'#} + mset (rt_lost s) = mset (rt_inflight s) + mset (rt_lost s) - {#e'#}"
    using e'(1) by simp
  ultimately show ?thesis using e' by (intro bexI [of _ e']) (simp_all add: rt_ops_def)
qed

lemma wanted_state:
  assumes inv: "rt_inv call a cap {} s" and d: "hm_get (rt_conns s) f = Some d"
  shows "Recv f = wanted f (uc_inner d) \<Longrightarrow> cstate (uc_inner d) = Reading"
    and "Send f bs = wanted f (uc_inner d) \<Longrightarrow> cstate (uc_inner d) = Writing \<and> bs = pending_write (uc_inner d)"
proof -
  have "cstate (uc_inner d) \<noteq> Closed" using rt_inv_Some [OF inv d] by (simp add: conn_ok_def)
  moreover have "conn_sim (app_handle call a) (uc_inner d) (uc_rcvd d) (uc_sent d)"
    using rt_inv_Some [OF inv d] by (auto simp: conn_ok_def intro: conn_run_sim)
  ultimately show "cstate (uc_inner d) = Reading" if "Recv f = wanted f (uc_inner d)"
    using that conn_sim_Writing by (cases "cstate (uc_inner d)") (auto simp: wanted_def split: if_splits)
  show "cstate (uc_inner d) = Writing \<and> bs = pending_write (uc_inner d)" if "Send f bs = wanted f (uc_inner d)"
    using that pending_write_not_Writing [of "uc_inner d"] by (auto simp: wanted_def split: if_splits)
qed

lemma handle_cqe_inv:
  assumes unread: "counters_unread call" and inv: "rt_inv call a (cfg_max_connections cfg) {} s"
    and ok: "cqe_ok c s"
  shows "rt_inv call a (cfg_max_connections cfg) {} (handle_cqe call cfg now pool c s)"
proof -
  obtain e where e: "e \<in> set (rt_inflight s)" "sqe_user_data e = cq_user_data c"
    and law: "case e of
          AcceptMulti l \<Rightarrow> 0 \<le> cq_result c \<longrightarrow>
            fd_ok (cq_result c) \<and> hm_get (rt_conns s) (cq_result c) = None \<and>
            CloseFd (cq_result c) \<notin> set (rt_inflight s @ rt_lost s)
        | Recv f \<Rightarrow> \<not> cq_more c
        | Send f bs \<Rightarrow> \<not> cq_more c \<and> cq_result c \<le> int (length bs)
        | CloseFd f \<Rightarrow> \<not> cq_more c"
    using ok by (auto simp: cqe_ok_def list_ex_iff)
  have fd: "fd_ok (sqe_fd e)" using rt_inv_rest(3) [OF inv] e(1) by (simp add: rt_ops_def)
  have ud: "fst (unpack (cq_user_data c)) = sqe_op e" "sint (snd (unpack (cq_user_data c))) = sqe_fd e"
    using sqe_unpack [OF fd] e(2) by simp_all
  define s1 where "s1 = s\<lparr>rt_inflight := retire (cq_user_data c) (rt_inflight s)\<rparr>"
  obtain e' where e': "e' \<in> set (rt_inflight s)" "sqe_op e' = sqe_op e" "sqe_fd e' = sqe_fd e"
      "rt_ops s1 = rt_ops s - {#e'#}"
    using retire_ops [OF inv e(1)] e(2) by (auto simp: s1_def)
  have same: "rt_conns s1 = rt_conns s" "rt_app s1 = rt_app s" "rt_closed s1 = rt_closed s" by (simp_all add: s1_def)
  note def = handle_cqe_def [of call cfg now pool c s, folded s1_def, unfolded Let_def ud]
  have served: "rt_inv call a (cfg_max_connections cfg) {f} s1 \<and>
      (\<exists>d. hm_get (rt_conns s) f = Some d \<and> e = wanted f (uc_inner d))" if "conn_op f e" for f
  proof -
    have "conn_op f e'" using that e'(2,3) by (cases e; cases e') simp_all
    from rt_inv_retire [OF inv e'(1) this same e'(4)] rt_inv_retire [OF inv e(1) that, of "s\<lparr>rt_inflight := remove1 e (rt_inflight s)\<rparr>"] e(1)
    show ?thesis by (simp add: rt_ops_def)
  qed
  show ?thesis
  proof (cases e)
    case (AcceptMulti l)
    then have e'a: "\<not> conn_op f e'" "e' \<noteq> CloseFd f" for f using e'(2) by (cases e'; simp)+
    define s2 where "s2 = (if cq_more c then s else s1)"
    have inv2: "rt_inv call a (cfg_max_connections cfg) {} s2" "rt_conns s2 = rt_conns s"
      "CloseFd f \<in># rt_ops s2 \<Longrightarrow> CloseFd f \<in># rt_ops s" for f
      using inv same rt_inv_retire_other [OF inv e'a(1) same e'(4)] e'(4)
      by (auto simp: s2_def dest: in_diffD split: if_splits)
    have "rt_inv call a (cfg_max_connections cfg) {} (on_accept cfg now (cq_result c) (cq_more c) s2)"
      by (rule on_accept_inv [OF inv2(1)])
         (use law AcceptMulti inv2(2,3) in \<open>auto simp: rt_ops_def [of s]\<close>)
    with AcceptMulti show ?thesis by (simp add: def s2_def)
  next
    case (Recv f)
    with served [of f] obtain d where inv1: "rt_inv call a (cfg_max_connections cfg) {f} s1"
      and d: "hm_get (rt_conns s) f = Some d" "Recv f = wanted f (uc_inner d)" by auto
    from on_recv_inv [OF unread inv1] wanted_state(1) [OF inv d] d(1) Recv law same show ?thesis
      by (simp add: def)
  next
    case (Send f bs)
    with served [of f] obtain d where inv1: "rt_inv call a (cfg_max_connections cfg) {f} s1"
      and d: "hm_get (rt_conns s) f = Some d" "Send f bs = wanted f (uc_inner d)" by auto
    from on_send_inv [OF inv1] wanted_state(2) [OF inv d] d(1) Send law same show ?thesis by (simp add: def)
  next
    case (CloseFd f)
    then have e'a: "\<not> conn_op g e'" for g using e'(2) by (cases e') simp_all
    from rt_inv_retire_other [OF inv this same e'(4)] CloseFd law show ?thesis by (simp add: def)
  qed
qed

section \<open>Every run keeps the invariant\<close>

text \<open>The completions of a batch are lawful, each in the state it is handled in.\<close>

fun cqes_ok :: "'h call \<Rightarrow> config \<Rightarrow> instant \<Rightarrow> (16 word \<Rightarrow> bytes) \<Rightarrow> cqe list \<Rightarrow> 'h runtime \<Rightarrow> bool" where
  "cqes_ok call cfg now pool [] s \<longleftrightarrow> True"
| "cqes_ok call cfg now pool (c # cs) s \<longleftrightarrow>
     cqe_ok c s \<and> cqes_ok call cfg now pool cs (handle_cqe call cfg now pool c s)"

lemma drain_cqes_inv:
  assumes "counters_unread call" and "rt_inv call a (cfg_max_connections cfg) {} s"
    and "cqes_ok call cfg now pool cqes s"
  shows "rt_inv call a (cfg_max_connections cfg) {} (drain_cqes call cfg now pool cqes s)"
  using assms(2,3)
  by (induction cqes arbitrary: s) (simp_all add: drain_cqes_def handle_cqe_inv [OF assms(1)])

lemma arm_accept_inv:
  assumes "fd_ok listener" and "rt_inv call a cap {} s"
  shows "rt_inv call a cap {} (arm_accept listener s)"
  using rt_inv_push_other [OF assms(2), of "AcceptMulti listener"] assms(1)
  by (cases "rt_push (AcceptMulti listener) s") (simp add: arm_accept_def)

lemma runtime_submit_inv:
  assumes "fd_ok listener" and "rt_inv call a cap {} s"
  shows "rt_inv call a cap {} (fst (runtime_submit listener answer s))"
  using arm_accept_inv [OF assms] assms(2)
  by (auto simp: runtime_submit_def Let_def split: option.split io_error.split)

lemma runtime_new_inv: "rt_inv call a cap {} (runtime_new a)"
  by (rule rt_invI)
     (simp_all add: runtime_new_def rt_ops_def conn_reqs_def, simp add: hm_len_def hm_empty_def)

text \<open>What the kernel does in a turn is lawful, and in every turn of a run.\<close>

definition tick_ok :: "'h call \<Rightarrow> config \<Rightarrow> raw_fd \<Rightarrow> uring_tick \<Rightarrow> 'h runtime \<Rightarrow> bool" where
  "tick_ok call cfg listener t s \<longleftrightarrow>
     cqes_ok call cfg (ut_now t) (ut_pool t) (ut_cqes t)
       (fst (runtime_submit listener (ut_answer t) (s\<lparr>rt_flush := ut_flush t\<rparr>)))"

fun ticks_ok :: "'h call \<Rightarrow> config \<Rightarrow> raw_fd \<Rightarrow> uring_tick list \<Rightarrow> 'h runtime \<Rightarrow> bool" where
  "ticks_ok call cfg listener [] s \<longleftrightarrow> True"
| "ticks_ok call cfg listener (t # ts) s \<longleftrightarrow>
     tick_ok call cfg listener t s \<and> ticks_ok call cfg listener ts (uring_turn call cfg listener t s)"

lemma uring_turn_inv:
  assumes "counters_unread call" and "fd_ok listener" and "rt_inv call a (cfg_max_connections cfg) {} s"
    and "tick_ok call cfg listener t s"
  shows "rt_inv call a (cfg_max_connections cfg) {} (uring_turn call cfg listener t s)"
proof -
  let ?s = "s\<lparr>rt_flush := ut_flush t\<rparr>"
  have "rt_inv call a (cfg_max_connections cfg) {} ?s" using assms(3) by simp
  from runtime_submit_inv [OF assms(2) this]
  have inv: "rt_inv call a (cfg_max_connections cfg) {} (fst (runtime_submit listener (ut_answer t) ?s))" .
  obtain s1 w where s1: "runtime_submit listener (ut_answer t) ?s = (s1, w)"
    by (cases "runtime_submit listener (ut_answer t) ?s")
  with inv assms(4) drain_cqes_inv [OF assms(1), of a cfg s1] show ?thesis
    by (simp add: uring_turn_def runtime_turn_def tick_ok_def)
qed

lemma runtime_loop_inv:
  assumes "counters_unread call" and "fd_ok listener" and "rt_inv call a (cfg_max_connections cfg) {} s"
    and "ticks_ok call cfg listener ts s"
  shows "rt_inv call a (cfg_max_connections cfg) {} (runtime_loop call cfg listener ts s)"
  using assms(3,4)
  by (induction ts arbitrary: s) (simp_all add: uring_turn_inv [OF assms(1,2)])

lemma runtime_run_inv:
  assumes "counters_unread call" and "fd_ok listener"
    and "ticks_ok call cfg listener ts (arm_accept listener (runtime_new a))"
  shows "rt_inv call a (cfg_max_connections cfg) {} (runtime_run call cfg listener ts (runtime_new a))"
  unfolding runtime_run_def
  by (rule runtime_loop_inv [OF assms(1,2) arm_accept_inv [OF assms(2) runtime_new_inv] assms(3)])

lemma conn_reqs_list: "conn_reqs f (rt_ops s) = mset (filter (conn_op f) (rt_inflight s @ rt_lost s))"
  by (simp add: conn_reqs_def rt_ops_def)

text \<open>What the bytes of a connection satisfy, live or closed.\<close>

definition uc_answers :: "'h call \<Rightarrow> 'h app \<Rightarrow> conn_state \<Rightarrow> bool" where
  "uc_answers call a c \<longleftrightarrow>
     prefix (uc_sent c) (wire_spec (app_handle call a) (uc_rcvd c)) \<and>
     (owes_nothing (uc_inner c) \<longrightarrow> uc_sent c = wire_spec (app_handle call a) (uc_rcvd c))"

lemma uc_run_answers:
  assumes "uc_run call a c"
  shows "uc_answers call a c"
proof -
  have "conn_sim (app_handle call a) (uc_inner c) (uc_rcvd c) (uc_sent c)"
    using assms by (auto simp: uc_run_def intro: conn_run_sim)
  from conn_sim_prefix [OF this] conn_sim_done [OF this] show ?thesis
    by (auto simp: uc_answers_def owes_nothing_def dest: append_prefixD)
qed


definition demo_uring_tick :: uring_tick where
  "demo_uring_tick = \<lparr>ut_shutdown = False, ut_flush = [], ut_answer = None, ut_now = 0,
     ut_pool = (\<lambda>b. get_root),
     ut_cqes = [\<lparr>cq_user_data = pack OP_ACCEPT 3, cq_result = 7, cq_more = True, cq_buffer = None\<rparr>]\<rparr>"

lemma demo_uring_run:
  "ticks_ok no_call demo_config 3 [demo_uring_tick] (arm_accept 3 (runtime_new empty_app))"
  "hm_get (rt_conns (runtime_run no_call demo_config 3 [demo_uring_tick] (runtime_new empty_app))) 7 \<noteq> None"
  by (simp_all add: demo_uring_tick_def demo_config_def runtime_run_def arm_accept_def runtime_new_def
      rt_push_def RING_ENTRIES_def tick_ok_def runtime_submit_def uring_turn_def runtime_turn_def
      drain_cqes_def handle_cqe_def on_accept_def submit_recv_def cqe_ok_def unpack_pack_word fd_ok_def
      OP_ACCEPT_def hm_len_def hm_empty_def hm_get_def hm_insert_def Let_def)


end
