(* ===== verification/Process_Models.thy ===== *)
theory Process_Models
  imports Service
begin

text \<open>
  The models that use processes: \<open>forking\<close> (\<open>server/src/models/forking.rs\<close>) with the reaper of
  \<open>server/src/sys/signal.rs\<close>, and \<open>preforked\<close> (\<open>server/src/models/preforked.rs\<close>). The parent of the
  forking model is interrupted by the reaper between any two of its accesses to the counter of
  live children, which is a word that wraps.
\<close>

section \<open>The forking model\<close>

text \<open>
  Where the parent is: waiting for a stream, about to compare the counter with the limit, about
  to reserve a place, about to fork, or about to give the place back after a fork failed.
\<close>

datatype fk_pc =
  FkAccepting
| FkAccepted tcp_stream
| FkReserving tcp_stream
| FkReserved tcp_stream
| FkFailed tcp_stream

text \<open>
  A running child has its copy of the application as it was at the fork. A child that exited is a
  zombie until it is reaped.
\<close>

record 'h forking =
  fk_pc :: fk_pc
  fk_app :: "'h app"
  live_children :: "64 word"
  fk_running :: "(int \<times> tcp_stream \<times> 'h app) list"
  fk_zombies :: "int list"
  fk_rejected :: "tcp_stream list"
  fk_served :: "(tcp_stream \<times> slot) list"

datatype fk_event =
  FkAccept "io_error + tcp_stream"
| FkCheck
| FkReserve
| FkFork "int option"
| FkRelease
| FkExit int serve_env
| FkSigchld "int list" int

definition fk_pids :: "'h forking \<Rightarrow> int list" where
  "fk_pids s = map fst (fk_running s) @ fk_zombies s"

lemma fk_pids_update [simp]:
  "fk_pids (s\<lparr>fk_pc := x\<rparr>) = fk_pids s" "fk_pids (s\<lparr>fk_app := b\<rparr>) = fk_pids s"
  "fk_pids (s\<lparr>live_children := n\<rparr>) = fk_pids s" "fk_pids (s\<lparr>fk_rejected := ys\<rparr>) = fk_pids s"
  "fk_pids (s\<lparr>fk_served := sv\<rparr>) = fk_pids s" "fk_pids (s\<lparr>fk_pc := x, fk_running := y # fk_running s\<rparr>) = fst y # fk_pids s"
  by (simp_all add: fk_pids_def)

definition forking_start :: "'h app \<Rightarrow> 'h forking" where
  "forking_start a = \<lparr>fk_pc = FkAccepting, fk_app = a, live_children = 0, fk_running = [],
     fk_zombies = [], fk_rejected = [], fk_served = []\<rparr>"

fun forking_step :: "'h call \<Rightarrow> config \<Rightarrow> fk_event \<Rightarrow> 'h forking \<Rightarrow> 'h forking option" where
  "forking_step call cfg (FkAccept (Inl e)) s = (if fk_pc s = FkAccepting then Some s else None)"
| "forking_step call cfg (FkAccept (Inr st)) s =
     (if fk_pc s = FkAccepting
      then Some (s\<lparr>fk_pc := FkAccepted st, fk_app := count_connection (fk_app s)\<rparr>) else None)"
| "forking_step call cfg FkCheck s =
     (case fk_pc s of
        FkAccepted st \<Rightarrow>
          if unat (live_children s) \<ge> cfg_max_connections cfg
          then Some (s\<lparr>fk_pc := FkAccepting, fk_app := count_error (fk_app s), fk_rejected := fk_rejected s @ [st]\<rparr>)
          else Some (s\<lparr>fk_pc := FkReserving st\<rparr>)
      | _ \<Rightarrow> None)"
| "forking_step call cfg FkReserve s =
     (case fk_pc s of
        FkReserving st \<Rightarrow> Some (s\<lparr>fk_pc := FkReserved st, live_children := live_children s + 1\<rparr>)
      | _ \<Rightarrow> None)"
| "forking_step call cfg (FkFork None) s =
     (case fk_pc s of FkReserved st \<Rightarrow> Some (s\<lparr>fk_pc := FkFailed st\<rparr>) | _ \<Rightarrow> None)"
| "forking_step call cfg (FkFork (Some pid)) s =
     (case fk_pc s of
        FkReserved st \<Rightarrow>
          if pid > 0 \<and> pid \<notin> set (fk_pids s)
          then Some (s\<lparr>fk_pc := FkAccepting, fk_running := (pid, st, fk_app s) # fk_running s\<rparr>) else None
      | _ \<Rightarrow> None)"
| "forking_step call cfg FkRelease s =
     (case fk_pc s of
        FkFailed st \<Rightarrow>
          Some (s\<lparr>fk_pc := FkAccepting, live_children := live_children s - 1,
                 fk_app := count_error (fk_app s), fk_rejected := fk_rejected s @ [st]\<rparr>)
      | _ \<Rightarrow> None)"
| "forking_step call cfg (FkExit pid e) s =
     (case map_of (fk_running s) pid of
        None \<Rightarrow> None
      | Some (st, a) \<Rightarrow>
          Some (s\<lparr>fk_running := AList.delete pid (fk_running s), fk_zombies := pid # fk_zombies s,
                 fk_served := (st, fst (serve_stream call cfg e a st)) # fk_served s\<rparr>))"
| "forking_step call cfg (FkSigchld pids r) s =
     (if distinct pids \<and> set pids \<subseteq> set (fk_zombies s) \<and> r \<le> 0
      then
        (case sigchld_handler (pids @ [r]) (Some (live_children s)) of
           Some n \<Rightarrow> Some (s\<lparr>live_children := n, fk_zombies := filter (\<lambda>p. p \<notin> set pids) (fk_zombies s)\<rparr>)
         | None \<Rightarrow> None)
      else None)"

lemma fk_event_cases [case_names accept_error accept check reserve fork_failed fork release exit sigchld]:
  obtains e where "ev = FkAccept (Inl e)" | st where "ev = FkAccept (Inr st)" | "ev = FkCheck" | "ev = FkReserve"
    | "ev = FkFork None" | pid where "ev = FkFork (Some pid)" | "ev = FkRelease"
    | pid env where "ev = FkExit pid env" | pids r where "ev = FkSigchld pids r"
proof (cases ev)
  case (FkAccept x)
  then show ?thesis using that(1,2) by (cases x) auto
next
  case (FkFork x)
  then show ?thesis using that(5,6) by (cases x) auto
qed (use that in auto)

lemma forking_exitD:
  "forking_step call cfg (FkExit pid env) s = Some s' \<Longrightarrow>
     \<exists>st a. map_of (fk_running s) pid = Some (st, a) \<and>
       s' = s\<lparr>fk_running := AList.delete pid (fk_running s), fk_zombies := pid # fk_zombies s,
         fk_served := (st, fst (serve_stream call cfg env a st)) # fk_served s\<rparr>"
  by (auto split: option.splits)

lemma forking_sigchldD:
  "forking_step call cfg (FkSigchld pids r) s = Some s' \<Longrightarrow>
     distinct pids \<and> set pids \<subseteq> set (fk_zombies s) \<and> r \<le> 0 \<and>
     s' = s\<lparr>live_children := reap_loop (pids @ [r]) (live_children s),
       fk_zombies := filter (\<lambda>p. p \<notin> set pids) (fk_zombies s)\<rparr>"
  by (auto simp: sigchld_handler_def split: if_splits)

text \<open>The place the parent has reserved for a child that is not there yet, and the stream it holds.\<close>

fun reserved :: "fk_pc \<Rightarrow> nat" where
  "reserved (FkReserved st) = 1"
| "reserved (FkFailed st) = 1"
| "reserved _ = 0"

fun pc_stream :: "fk_pc \<Rightarrow> tcp_stream list" where
  "pc_stream FkAccepting = []"
| "pc_stream (FkAccepted st) = [st]"
| "pc_stream (FkReserving st) = [st]"
| "pc_stream (FkReserved st) = [st]"
| "pc_stream (FkFailed st) = [st]"

definition fk_good :: "fk_event \<Rightarrow> bool" where
  "fk_good e \<longleftrightarrow> (case e of FkAccept (Inr st) \<Rightarrow> new_stream st | _ \<Rightarrow> True)"

definition fk_intake :: "fk_event \<Rightarrow> tcp_stream multiset" where
  "fk_intake e = (case e of FkAccept (Inr st) \<Rightarrow> {#st#} | _ \<Rightarrow> {#})"

definition fk_held :: "'h forking \<Rightarrow> tcp_stream multiset" where
  "fk_held s = mset (pc_stream (fk_pc s)) + mset (map (\<lambda>x. fst (snd x)) (fk_running s))"

definition fk_ended :: "'h forking \<Rightarrow> tcp_stream multiset" where
  "fk_ended s = mset (fk_rejected s) + mset (map fst (fk_served s))"

definition fk_pids_ok :: "'h forking \<Rightarrow> bool" where
  "fk_pids_ok s \<longleftrightarrow> distinct (fk_pids s) \<and> list_all (\<lambda>p. p > 0) (fk_pids s)"

lemma fk_pids_okD:
  "fk_pids_ok s \<Longrightarrow> distinct (map fst (fk_running s))" "fk_pids_ok s \<Longrightarrow> distinct (fk_zombies s)"
  "fk_pids_ok s \<Longrightarrow> p \<in> set (fk_zombies s) \<Longrightarrow> p > 0"
  by (auto simp: fk_pids_ok_def fk_pids_def list_all_iff)

definition fk_count_ok :: "usize \<Rightarrow> 'h forking \<Rightarrow> bool" where
  "fk_count_ok cap s \<longleftrightarrow>
     unat (live_children s) = length (fk_running s) + length (fk_zombies s) + reserved (fk_pc s) \<and>
     unat (live_children s) \<le> cap \<and>
     ((\<exists>st. fk_pc s = FkReserving st) \<longrightarrow> unat (live_children s) < cap)"

definition fk_streams_ok :: "'h call \<Rightarrow> 'h app \<Rightarrow> 'h forking \<Rightarrow> bool" where
  "fk_streams_ok call a s \<longleftrightarrow>
     app_same a (fk_app s) \<and> list_all new_stream (pc_stream (fk_pc s)) \<and>
     list_all (\<lambda>(p, st, b). new_stream st \<and> app_same a b) (fk_running s) \<and>
     list_all (\<lambda>(st, sl). answers call a sl) (fk_served s)"

subsection \<open>The reaper\<close>

lemma reap_loop_pids:
  "\<forall>p \<in> set pids. p > 0 \<Longrightarrow> r \<le> 0 \<Longrightarrow> reap_loop (pids @ [r]) c = c - word_of_nat (length pids)"
  by (induction pids arbitrary: c) (simp_all add: algebra_simps)

lemma unat_sub_le: "n \<le> unat (c :: 64 word) \<Longrightarrow> unat (c - word_of_nat n) = unat c - n"
proof -
  assume n: "n \<le> unat c"
  then have "n < 2 ^ 64" using unsigned_less [of c] le_less_trans by fastforce
  then have "unat (word_of_nat n :: 64 word) = n" by (simp add: unsigned_of_nat take_bit_nat_eq_self)
  with n show ?thesis by (simp add: unat_sub word_le_nat_alt)
qed

lemma length_filter_out:
  "distinct xs \<Longrightarrow> distinct ys \<Longrightarrow> set ys \<subseteq> set xs \<Longrightarrow>
     length (filter (\<lambda>x. x \<notin> set ys) xs) + length ys = length xs"
proof -
  assume a: "distinct xs" "distinct ys" "set ys \<subseteq> set xs"
  have "set (filter (\<lambda>x. x \<notin> set ys) xs) = set xs - set ys" by auto
  then have "length (filter (\<lambda>x. x \<notin> set ys) xs) = card (set xs - set ys)"
    using a(1) by (metis distinct_card distinct_filter)
  with a show ?thesis by (simp add: card_Diff_subset distinct_card card_mono flip: distinct_card)
qed

subsection \<open>Every step keeps the counter exact\<close>

lemma delete_present:
  "distinct (map fst xs) \<Longrightarrow> map_of xs k = Some v \<Longrightarrow> mset xs = add_mset (k, v) (mset (AList.delete k xs))"
proof (induction xs)
  case (Cons x xs)
  show ?case
  proof (cases "fst x = k")
    case True
    then have "k \<notin> fst ` set xs" using Cons.prems(1) by (cases x) auto
    then have "AList.delete k xs = xs" by (simp add: delete_id)
    with True Cons.prems(2) show ?thesis by (cases x) simp
  next
    case False
    with Cons show ?thesis by (cases x) simp
  qed
qed simp

lemma length_delete:
  "distinct (map fst xs) \<Longrightarrow> map_of xs k = Some v \<Longrightarrow> Suc (length (AList.delete k xs)) = length xs"
  using delete_present [of xs k v] by (metis size_add_mset size_mset)

lemma fk_pids_step:
  assumes ok: "fk_pids_ok s" and step: "forking_step call cfg e s = Some s'"
  shows "fk_pids_ok s'"
proof (cases e rule: fk_event_cases)
  case (exit pid env)
  with step obtain st a where st: "map_of (fk_running s) pid = Some (st, a)"
    and s': "fk_running s' = AList.delete pid (fk_running s)" "fk_zombies s' = pid # fk_zombies s"
    by (auto dest: forking_exitD simp del: forking_step.simps)
  have "mset (fk_pids s') = mset (fk_pids s)"
    using delete_present [OF fk_pids_okD(1) [OF ok] st] by (simp add: fk_pids_def s')
  with ok show ?thesis
    by (metis fk_pids_ok_def mset_eq_imp_distinct_iff list_all_iff mset_eq_setD)
next
  case (sigchld pids r)
  with step have "fk_running s' = fk_running s" "fk_zombies s' = filter (\<lambda>p. p \<notin> set pids) (fk_zombies s)"
    by (auto simp del: forking_step.simps dest!: forking_sigchldD)
  with ok show ?thesis unfolding fk_pids_ok_def fk_pids_def list_all_iff by (simp, blast)
qed (use step ok in \<open>auto simp: fk_pids_ok_def split: fk_pc.splits if_splits\<close>)

lemma fk_count_step:
  assumes pids: "fk_pids_ok s" and ok: "fk_count_ok cap s" and cap: "cap = cfg_max_connections cfg" "cap < 2 ^ 64"
    and step: "forking_step call cfg e s = Some s'"
  shows "fk_count_ok cap s'"
proof (cases e rule: fk_event_cases)
  case reserve
  with step obtain st where st: "fk_pc s = FkReserving st"
    and s': "s' = s\<lparr>fk_pc := FkReserved st, live_children := live_children s + 1\<rparr>"
    by (auto split: fk_pc.splits)
  have "unat (live_children s) + 1 < 2 ^ 64" using st ok cap(2) by (auto simp: fk_count_ok_def)
  then have "unat (live_children s + 1) = unat (live_children s) + 1" by (simp add: unat_word_ariths)
  with st s' ok show ?thesis by (auto simp: fk_count_ok_def)
next
  case release
  with step obtain st where st: "fk_pc s = FkFailed st" "fk_pc s' = FkAccepting"
    and s': "live_children s' = live_children s - word_of_nat 1" "fk_running s' = fk_running s" "fk_zombies s' = fk_zombies s"
    by (auto split: fk_pc.splits)
  have "1 \<le> unat (live_children s)" using st(1) ok by (simp add: fk_count_ok_def)
  from unat_sub_le [OF this] st s' ok show ?thesis by (auto simp: fk_count_ok_def)
next
  case (exit pid env)
  with step obtain st a where st: "map_of (fk_running s) pid = Some (st, a)"
    and s': "fk_running s' = AList.delete pid (fk_running s)" "fk_zombies s' = pid # fk_zombies s"
      "live_children s' = live_children s" "fk_pc s' = fk_pc s"
    by (auto dest: forking_exitD simp del: forking_step.simps)
  from length_delete [OF fk_pids_okD(1) [OF pids] st] have "Suc (length (fk_running s')) = length (fk_running s)"
    by (simp add: s')
  with s' ok show ?thesis by (auto simp: fk_count_ok_def)
next
  case (sigchld ps r)
  with step have g: "distinct ps" "set ps \<subseteq> set (fk_zombies s)" "r \<le> 0"
    and s': "s' = s\<lparr>live_children := reap_loop (ps @ [r]) (live_children s),
       fk_zombies := filter (\<lambda>p. p \<notin> set ps) (fk_zombies s)\<rparr>"
    by (simp_all del: forking_step.simps) (use forking_sigchldD in blast)+
  have pos: "\<forall>p \<in> set ps. p > 0" using g(2) fk_pids_okD(3) [OF pids] by blast
  have len: "length (fk_zombies s') + length ps = length (fk_zombies s)"
    using length_filter_out [of "fk_zombies s" ps] g fk_pids_okD(2) [OF pids] s' by simp
  with ok have "length ps \<le> unat (live_children s)" by (simp add: fk_count_ok_def)
  from unat_sub_le [OF this] len reap_loop_pids [OF pos g(3)] s' ok show ?thesis
    by (auto simp: fk_count_ok_def)
qed (use step ok cap in \<open>auto simp: fk_count_ok_def split: fk_pc.splits if_splits\<close>)

lemma list_all_delete: "list_all P xs \<Longrightarrow> list_all P (AList.delete k xs)"
  by (auto simp: list_all_iff AList.delete_eq)

lemma fk_streams_step:
  assumes unread: "counters_unread call" and ok: "fk_streams_ok call a s" and "fk_good e"
    and step: "forking_step call cfg e s = Some s'"
  shows "fk_streams_ok call a s'"
proof (cases e rule: fk_event_cases)
  case (exit pid env)
  with step obtain st b where st: "map_of (fk_running s) pid = Some (st, b)"
    and s': "s' = s\<lparr>fk_running := AList.delete pid (fk_running s), fk_zombies := pid # fk_zombies s,
                 fk_served := (st, fst (serve_stream call cfg env b st)) # fk_served s\<rparr>"
    using forking_exitD by blast
  have "new_stream st" "app_same a b"
    using map_of_SomeD [OF st] ok by (auto simp: fk_streams_ok_def list_all_iff)
  then show ?thesis
    using ok serve_stream_answers [OF unread] by (simp add: fk_streams_ok_def s' list_all_delete)
next
  case (sigchld pids r)
  with step ok show ?thesis
    by (auto simp: fk_streams_ok_def simp del: forking_step.simps dest!: forking_sigchldD)
qed (use ok assms(3) step in \<open>auto simp: fk_streams_ok_def fk_good_def split: fk_pc.splits if_splits\<close>)

lemma fk_conserves_step:
  assumes pids: "fk_pids_ok s" and step: "forking_step call cfg e s = Some s'"
  shows "fk_held s' + fk_ended s' = fk_held s + fk_ended s + fk_intake e"
proof (cases e rule: fk_event_cases)
  case (exit pid env)
  with step obtain st b where st: "map_of (fk_running s) pid = Some (st, b)"
    and s': "s' = s\<lparr>fk_running := AList.delete pid (fk_running s), fk_zombies := pid # fk_zombies s,
                 fk_served := (st, fst (serve_stream call cfg env b st)) # fk_served s\<rparr>"
    using forking_exitD by blast
  have "mset (fk_running s) = add_mset (pid, st, b) (mset (AList.delete pid (fk_running s)))"
    using delete_present [OF fk_pids_okD(1) [OF pids] st] .
  with exit show ?thesis by (simp add: fk_held_def fk_ended_def fk_intake_def s')
next
  case (sigchld pids r)
  with step show ?thesis
    by (auto simp: fk_held_def fk_ended_def fk_intake_def simp del: forking_step.simps dest!: forking_sigchldD)
qed (use step in \<open>auto simp: fk_held_def fk_ended_def fk_intake_def split: fk_pc.splits if_splits\<close>)

definition fk_inv :: "'h call \<Rightarrow> config \<Rightarrow> 'h app \<Rightarrow> 'h forking \<Rightarrow> bool" where
  "fk_inv call cfg a s \<longleftrightarrow>
     counters_unread call \<and> cfg_max_connections cfg < 2 ^ 64 \<and> fk_pids_ok s \<and>
     fk_count_ok (cfg_max_connections cfg) s \<and> fk_streams_ok call a s"

interpretation fk: dispatcher "forking_step call cfg" fk_good "fk_inv call cfg a" fk_intake fk_held fk_ended
  for call :: "'h call" and cfg a
proof
  show "fk_inv call cfg a s'" if "fk_inv call cfg a s" "fk_good e" "forking_step call cfg e s = Some s'" for s e s'
    using that fk_pids_step [OF _ that(3)] fk_count_step [OF _ _ refl _ that(3)] fk_streams_step [OF _ _ that(2,3)]
    by (simp add: fk_inv_def)
  show "fk_held s' + fk_ended s' = fk_held s + fk_ended s + fk_intake e"
    if "fk_inv call cfg a s" "forking_step call cfg e s = Some s'" for s e s'
    using fk_conserves_step [OF _ that(2)] that(1) by (simp add: fk_inv_def)
qed

lemma fk_inv_start:
  "counters_unread call \<Longrightarrow> cfg_max_connections cfg < 2 ^ 64 \<Longrightarrow> fk_inv call cfg a (forking_start a)"
  by (simp add: fk_inv_def fk_pids_ok_def fk_pids_def fk_count_ok_def fk_streams_ok_def forking_start_def)

text \<open>
  C28: the forking model is no fork bomb and its counter does not drift. In every interleaving of
  the parent with the exits of its children and the reaper, with failing forks and several exits
  reaped by one signal: the counter is exactly the number of children not yet reaped and the
  place being reserved, it does not wrap below zero and never exceeds the limit, so there are
  never more processes than connections allowed; every accepted stream is held by exactly one
  process, was served or was rejected; and each served one got a prefix of its responses, all of
  them when the server closed it.
\<close>

theorem forking_counter_exact:
  assumes "counters_unread call" and "cfg_max_connections cfg < 2 ^ 64" and "list_all fk_good es"
    and "run_events (forking_step call cfg) es (forking_start a) = Some s"
  shows "unat (live_children s) = length (fk_running s) + length (fk_zombies s) + reserved (fk_pc s) \<and>
    unat (live_children s) \<le> cfg_max_connections cfg \<and>
    fk_held s + fk_ended s = sum_list (map fk_intake es) \<and>
    list_all (\<lambda>(st, sl). answers call a sl) (fk_served s)"
proof -
  have "fk_inv call cfg a s"
    using fk.run_inv [OF assms(4) fk_inv_start [OF assms(1,2)] assms(3)] .
  moreover have "fk_held s + fk_ended s = sum_list (map fk_intake es)"
    using fk.run_conserves [OF assms(4) fk_inv_start [OF assms(1,2)] assms(3)]
    by (simp add: forking_start_def fk_held_def fk_ended_def)
  ultimately show ?thesis by (simp add: fk_inv_def fk_count_ok_def fk_streams_ok_def)
qed

definition demo_fk_events :: "fk_event list" where
  "demo_fk_events =
     [FkAccept (Inr (stream_new 5 [] [])), FkCheck, FkReserve, FkFork (Some 100), FkExit 100 demo_env,
      FkAccept (Inr (stream_new 6 [] [])), FkCheck, FkSigchld [100] 0, FkReserve, FkFork None, FkRelease]"

theorem forking_counter_exact_witness:
  "\<exists>s. run_events (forking_step no_call demo_config) demo_fk_events (forking_start empty_app) = Some s \<and>
     unat (live_children s) \<le> 2 \<and> fk_held s + fk_ended s = {#stream_new 5 [] [], stream_new 6 [] []#}"
proof -
  have "run_events (forking_step no_call demo_config) demo_fk_events (forking_start empty_app) \<noteq> None"
    by code_simp
  then obtain s where s: "run_events (forking_step no_call demo_config) demo_fk_events (forking_start empty_app) = Some s"
    by blast
  have "list_all fk_good demo_fk_events"
    by (simp add: demo_fk_events_def fk_good_def new_stream_def stream_new_def)
  from forking_counter_exact [OF no_call_unread _ this s] s show ?thesis
    by (simp add: demo_config_def) (simp add: demo_fk_events_def fk_intake_def)
qed

section \<open>The preforked model\<close>

text \<open>
  \<open>child_main\<close>: the answers of binding the listener and of setting its time-out, then for each turn
  the shutdown flag and the answer of \<open>accept\<close>. The result is the exit code, 0 when the loop was
  left at a shutdown; \<open>None\<close> when the worker is still in its loop at the end of the list.
\<close>

fun worker_turns ::
  "'h call \<Rightarrow> config \<Rightarrow> (bool \<times> (io_error + (tcp_stream \<times> serve_env))) list \<Rightarrow> 'h app \<times> slot list \<Rightarrow>
     nat option \<times> 'h app \<times> slot list" where
  "worker_turns call cfg [] s = (None, s)"
| "worker_turns call cfg ((shutdown, ans) # ts) s =
     (if shutdown then (Some 0, s) else worker_turns call cfg ts (worker_turn call cfg ans s))"

definition child_main ::
  "'h call \<Rightarrow> config \<Rightarrow> (sock_call \<Rightarrow> io_error option) \<Rightarrow> io_error option \<Rightarrow>
     (bool \<times> (io_error + (tcp_stream \<times> serve_env))) list \<Rightarrow> 'h app \<Rightarrow> nat option \<times> 'h app \<times> slot list" where
  "child_main call cfg answer set_timeout ts a =
     (case snd (bind_listener answer True) of
        Inl e \<Rightarrow> (Some 1, a, [])
      | Inr u \<Rightarrow>
          (case set_timeout of Some e \<Rightarrow> (Some 1, a, []) | None \<Rightarrow> worker_turns call cfg ts (a, [])))"

text \<open>What the parent asks the kernel to do with its children.\<close>

datatype proc_call = Kill int | WaitPid int

definition forward_signal :: "int list \<Rightarrow> proc_call list" where
  "forward_signal pids = map Kill pids"

definition reap :: "int list \<Rightarrow> proc_call list" where
  "reap pids = map WaitPid pids"

text \<open>
  The parent's view of \<open>Preforked::serve\<close>: the answers of \<open>fork\<close>, then the values of the shutdown
  flag it reads. \<open>None\<close> when the flag is not set within the list, or the list of answers is too
  short.
\<close>

fun fork_workers :: "nat \<Rightarrow> (io_error + int) list \<Rightarrow> int list \<Rightarrow> (int list \<times> (io_error + unit)) option" where
  "fork_workers 0 forks pids = Some (pids, Inr ())"
| "fork_workers (Suc n) [] pids = None"
| "fork_workers (Suc n) (Inl e # forks) pids = Some (pids, Inl e)"
| "fork_workers (Suc n) (Inr pid # forks) pids = fork_workers n forks (pids @ [pid])"

definition preforked_serve ::
  "config \<Rightarrow> (io_error + int) list \<Rightarrow> bool list \<Rightarrow> (proc_call list \<times> (io_error + unit)) option" where
  "preforked_serve cfg forks flags =
     (case fork_workers (max (cfg_workers cfg) 1) forks [] of
        None \<Rightarrow> None
      | Some (pids, Inl e) \<Rightarrow> Some (forward_signal pids @ reap pids, Inl e)
      | Some (pids, Inr u) \<Rightarrow>
          if True \<in> set flags then Some (forward_signal pids @ reap pids, Inr ()) else None)"

text \<open>The children that were started: the answers of \<open>fork\<close> up to the first error.\<close>

fun started :: "nat \<Rightarrow> (io_error + int) list \<Rightarrow> int list" where
  "started (Suc n) (Inr pid # forks) = pid # started n forks"
| "started n forks = []"

lemma fork_workers_started:
  "fork_workers n forks pids = Some (ps, r) \<Longrightarrow>
     ps = pids @ started n forks \<and> (r = Inr () \<longrightarrow> length (started n forks) = n)"
  by (induction n forks pids rule: fork_workers.induct) auto

text \<open>
  The calls of the parent of the preforked server alone: whenever it returns, because of a
  shutdown or because a fork failed part of the way, it has sent the signal to every worker it
  started and then waited for each of them, once; without an error it had started exactly the
  configured number, and at least one.
\<close>

theorem preforked_no_orphans:
  assumes "preforked_serve cfg forks flags = Some (calls, r)"
  shows "calls = map Kill (started (max (cfg_workers cfg) 1) forks) @
      map WaitPid (started (max (cfg_workers cfg) 1) forks) \<and>
    (r = Inr () \<longrightarrow> length (started (max (cfg_workers cfg) 1) forks) = max (cfg_workers cfg) 1 \<and> True \<in> set flags)"
proof -
  obtain ps x where f: "fork_workers (max (cfg_workers cfg) 1) forks [] = Some (ps, x)"
    using assms by (cases "fork_workers (max (cfg_workers cfg) 1) forks []") (auto simp: preforked_serve_def)
  from fork_workers_started [OF this] assms f show ?thesis
    by (auto simp: preforked_serve_def forward_signal_def reap_def split: sum.splits if_splits)
qed

theorem preforked_no_orphans_witness:
  "preforked_serve ((config_default None)\<lparr>cfg_workers := 2\<rparr>) [Inr 100, Inl (OsError 11)] [] =
     Some ([Kill 100, WaitPid 100], Inl (OsError 11))"
proof -
  obtain calls r where c: "preforked_serve ((config_default None)\<lparr>cfg_workers := 2\<rparr>) [Inr 100, Inl (OsError 11)] [] =
      Some (calls, r)" and r: "r = Inl (OsError 11)"
    by (auto simp: preforked_serve_def numeral_2_eq_2)
  from preforked_no_orphans [OF c] c r show ?thesis by (simp add: numeral_2_eq_2)
qed

text \<open>
  A worker ends with code 0 exactly at the first turn that sees the flag, and what it served
  until then is right.
\<close>

lemma worker_turns_fold:
  "worker_turns call cfg ts s =
     (if \<exists>t \<in> set ts. fst t then Some 0 else None,
      fold (worker_turn call cfg) (map snd (takeWhile (\<lambda>t. \<not> fst t) ts)) s)"
  by (induction call cfg ts s rule: worker_turns.induct) auto

lemma accepted_takeWhile:
  "list_all new_stream (accepted (map snd ts)) \<Longrightarrow> list_all new_stream (accepted (map snd (takeWhile P ts)))"
proof (induction ts)
  case (Cons t ts)
  then show ?case
    using accepted_Cons [of "snd t" "map snd ts"] accepted_Cons [of "snd t" "map snd (takeWhile P ts)"]
    by auto
qed simp

lemma preforked_worker_serves:
  assumes "counters_unread call" and "list_all new_stream (accepted (map snd ts))"
    and "child_main call cfg answer None ts a = (Some 0, b, served)"
  shows "list_all (answers call a) served \<and> map (\<lambda>sl. s_fd (slot_stream sl)) served =
       map s_fd (accepted (map snd (takeWhile (\<lambda>t. \<not> fst t) ts)))"
  using assms(3) worker_fold_ok [OF assms(1) _ accepted_takeWhile [OF assms(2)], of a "[]" "(a, [])" "\<lambda>t. \<not> fst t" cfg]
  by (auto simp: child_main_def worker_turns_fold turns_ok_def split: sum.splits if_splits)

end
