(* ===== verification/Preforked_Group.thy ===== *)
theory Preforked_Group
  imports Process_Models "HOL-Library.Sublist"
begin

text \<open>
  The processes of the preforked model (\<open>server/src/models/preforked.rs\<close>) together: the parent, its
  workers, and the signals between them. Every process takes its steps when the scheduler lets it, and
  a signal can arrive between any two of them; the properties hold for every interleaving. A
  worker's steps are those of \<open>child_main\<close>, and the parent's are those of \<open>Preforked::serve\<close>
  with \<open>forward_signal\<close> and \<open>reap\<close>.
\<close>

section \<open>A worker\<close>

text \<open>
  Where a worker is: about to bind its listener, to set the time-out of \<open>accept\<close>, to read the
  shutdown flag, or in \<open>accept\<close> and the connection it returns; or it has exited with a code.
\<close>

datatype pw_pc = PwBinding | PwTiming | PwChecking | PwAccepting | PwExited nat

record 'h pworker =
  pw_pc :: pw_pc
  pw_flag :: bool
  pw_state :: "'h app \<times> slot list"

text \<open>
  What happens to a worker: the answers to its calls, the read of the flag, and a signal, whose
  handler raises the flag the worker has inherited.
\<close>

datatype pw_event =
  PwBind "sock_call \<Rightarrow> io_error option"
| PwTimeout "io_error option"
| PwCheck
| PwAccept "io_error + (tcp_stream \<times> serve_env)"
| PwSignal

definition pworker_new :: "bool \<Rightarrow> 'h app \<Rightarrow> 'h pworker" where
  "pworker_new flag a = \<lparr>pw_pc = PwBinding, pw_flag = flag, pw_state = (a, [])\<rparr>"

definition pw_exited :: "'h pworker \<Rightarrow> bool" where
  "pw_exited w \<longleftrightarrow> (case pw_pc w of PwExited code \<Rightarrow> True | _ \<Rightarrow> False)"

fun pworker_step :: "'h call \<Rightarrow> config \<Rightarrow> pw_event \<Rightarrow> 'h pworker \<Rightarrow> 'h pworker option" where
  "pworker_step call cfg (PwBind answer) w =
     (if pw_pc w = PwBinding
      then Some (w\<lparr>pw_pc := (case snd (bind_listener answer True) of Inl e \<Rightarrow> PwExited 1 | Inr u \<Rightarrow> PwTiming)\<rparr>)
      else None)"
| "pworker_step call cfg (PwTimeout answer) w =
     (if pw_pc w = PwTiming
      then Some (w\<lparr>pw_pc := (case answer of Some e \<Rightarrow> PwExited 1 | None \<Rightarrow> PwChecking)\<rparr>) else None)"
| "pworker_step call cfg PwCheck w =
     (if pw_pc w = PwChecking then Some (w\<lparr>pw_pc := (if pw_flag w then PwExited 0 else PwAccepting)\<rparr>) else None)"
| "pworker_step call cfg (PwAccept ans) w =
     (if pw_pc w = PwAccepting
      then Some (w\<lparr>pw_pc := PwChecking, pw_state := worker_turn call cfg ans (pw_state w)\<rparr>) else None)"
| "pworker_step call cfg PwSignal w = (if pw_exited w then None else Some (w\<lparr>pw_flag := True\<rparr>))"

text \<open>
  Run by itself, a worker is \<open>child_main\<close>: the signal comes before the turn that finds the flag raised.
\<close>

fun turn_events :: "bool \<times> (io_error + (tcp_stream \<times> serve_env)) \<Rightarrow> pw_event list" where
  "turn_events (shutdown, ans) = (if shutdown then [PwSignal, PwCheck] else [PwCheck, PwAccept ans])"

fun loop_events :: "(bool \<times> (io_error + (tcp_stream \<times> serve_env))) list \<Rightarrow> pw_event list" where
  "loop_events [] = []"
| "loop_events (t # ts) = turn_events t @ (if fst t then [] else loop_events ts)"

lemma run_events_append:
  "run_events step (es @ fs) s = (case run_events step es s of None \<Rightarrow> None | Some s' \<Rightarrow> run_events step fs s')"
  by (induction es arbitrary: s) (auto split: option.split)

lemma worker_turns_steps:
  "pw_pc w = PwChecking \<Longrightarrow> \<not> pw_flag w \<Longrightarrow>
     \<exists>w'. run_events (pworker_step call cfg) (loop_events ts) w = Some w' \<and>
       worker_turns call cfg ts (pw_state w) =
         ((case pw_pc w' of PwExited code \<Rightarrow> Some code | _ \<Rightarrow> None), pw_state w')"
proof (induction ts arbitrary: w)
  case (Cons t ts)
  show ?case
  proof (cases "fst t")
    case False
    with Cons.IH [of "w\<lparr>pw_pc := PwChecking, pw_state := worker_turn call cfg (snd t) (pw_state w)\<rparr>"] Cons.prems
    show ?thesis by (cases t) simp
  qed (use Cons.prems in \<open>cases t; simp add: pw_exited_def\<close>)
qed simp

lemma child_main_steps:
  assumes "snd (bind_listener answer True) = Inr ()"
  shows "\<exists>w. run_events (pworker_step call cfg) (PwBind answer # PwTimeout None # loop_events ts) (pworker_new False a) = Some w \<and>
    child_main call cfg answer None ts a = ((case pw_pc w of PwExited code \<Rightarrow> Some code | _ \<Rightarrow> None), pw_state w)"
  using worker_turns_steps [of "\<lparr>pw_pc = PwChecking, pw_flag = False, pw_state = (a, [])\<rparr>" call cfg ts] assms
  by (simp add: pworker_new_def child_main_def)

section \<open>The parent and its workers\<close>

text \<open>
  Where the parent is: with some workers still to fork, idle, with some workers still to signal or to
  wait for, or back from \<open>serve\<close>. A worker stays in the list after its exit: the process table has it
  until the parent has waited for it, and what it served is kept.
\<close>

datatype pf_pc = PfForking nat | PfIdle | PfKilling "int list" | PfReaping "int list" | PfReturned

record 'h preforked =
  pf_pc :: pf_pc
  pf_flag :: bool
  pf_result :: "io_error + unit"
  pf_app :: "'h app"
  pf_workers :: "(int \<times> 'h pworker) list"
  pf_reaped :: "int list"

text \<open>
  The events: the answer of a \<open>fork\<close>, a read of the flag, the next \<open>kill\<close> or \<open>waitpid\<close> (or the end of
  their loop), a signal to the parent, a signal to the parent that is inside \<open>waitpid\<close>, which then
  returns at once because the handlers are installed without \<open>SA_RESTART\<close>, and an event of a worker.
\<close>

datatype pf_event =
  PfFork "io_error + int"
| PfPoll
| PfKill
| PfWait
| PfSignal
| PfInterrupt
| PfWorker int pw_event

definition preforked_start :: "config \<Rightarrow> 'h app \<Rightarrow> 'h preforked" where
  "preforked_start cfg a = \<lparr>pf_pc = PfForking (max (cfg_workers cfg) 1), pf_flag = False, pf_result = Inr (),
     pf_app = a, pf_workers = [], pf_reaped = []\<rparr>"

definition pf_children :: "'h preforked \<Rightarrow> int list" where
  "pf_children s = map fst (pf_workers s)"

definition set_worker :: "int \<Rightarrow> 'h pworker \<Rightarrow> 'h preforked \<Rightarrow> 'h preforked" where
  "set_worker pid w s = s\<lparr>pf_workers := map (\<lambda>(p, v). (p, if p = pid then w else v)) (pf_workers s)\<rparr>"

text \<open>\<open>kill\<close> on a worker; one that has exited and was not waited for takes the signal without effect.\<close>

definition pf_kill :: "'h call \<Rightarrow> config \<Rightarrow> int \<Rightarrow> 'h preforked \<Rightarrow> 'h preforked" where
  "pf_kill call cfg pid s =
     (case map_of (pf_workers s) pid of
        None \<Rightarrow> s
      | Some w \<Rightarrow> (case pworker_step call cfg PwSignal w of None \<Rightarrow> s | Some w' \<Rightarrow> set_worker pid w' s))"

fun preforked_step :: "'h call \<Rightarrow> config \<Rightarrow> pf_event \<Rightarrow> 'h preforked \<Rightarrow> 'h preforked option" where
  "preforked_step call cfg (PfFork ans) s =
     (case pf_pc s of
        PfForking n \<Rightarrow>
          (case ans of
             Inl e \<Rightarrow> Some (s\<lparr>pf_pc := PfKilling (pf_children s), pf_result := Inl e\<rparr>)
           | Inr pid \<Rightarrow>
               if 0 < pid \<and> pid \<notin> set (pf_children s)
               then Some (s\<lparr>pf_pc := (if n \<le> 1 then PfIdle else PfForking (n - 1)),
                            pf_workers := pf_workers s @ [(pid, pworker_new (pf_flag s) (pf_app s))]\<rparr>)
               else None)
      | _ \<Rightarrow> None)"
| "preforked_step call cfg PfPoll s =
     (case pf_pc s of
        PfIdle \<Rightarrow> Some (if pf_flag s then s\<lparr>pf_pc := PfKilling (pf_children s)\<rparr> else s)
      | _ \<Rightarrow> None)"
| "preforked_step call cfg PfKill s =
     (case pf_pc s of
        PfKilling [] \<Rightarrow> Some (s\<lparr>pf_pc := PfReaping (pf_children s)\<rparr>)
      | PfKilling (pid # pids) \<Rightarrow> Some ((pf_kill call cfg pid s)\<lparr>pf_pc := PfKilling pids\<rparr>)
      | _ \<Rightarrow> None)"
| "preforked_step call cfg PfWait s =
     (case pf_pc s of
        PfReaping [] \<Rightarrow> Some (s\<lparr>pf_pc := PfReturned\<rparr>)
      | PfReaping (pid # pids) \<Rightarrow>
          (case map_of (pf_workers s) pid of
             None \<Rightarrow> None
           | Some w \<Rightarrow>
               if pw_exited w then Some (s\<lparr>pf_pc := PfReaping pids, pf_reaped := pf_reaped s @ [pid]\<rparr>) else None)
      | _ \<Rightarrow> None)"
| "preforked_step call cfg PfSignal s = (if pf_pc s = PfReturned then None else Some (s\<lparr>pf_flag := True\<rparr>))"
| "preforked_step call cfg PfInterrupt s =
     (case pf_pc s of
        PfReaping (pid # pids) \<Rightarrow> Some (s\<lparr>pf_pc := PfReaping pids, pf_flag := True\<rparr>)
      | _ \<Rightarrow> None)"
| "preforked_step call cfg (PfWorker pid ev) s =
     (case map_of (pf_workers s) pid of
        None \<Rightarrow> None
      | Some w \<Rightarrow> map_option (\<lambda>w'. set_worker pid w' s) (pworker_step call cfg ev w))"

section \<open>The invariant\<close>

text \<open>A worker that was told to stop: it has exited, or it will when it next reads its flag.\<close>

definition pw_told :: "'h pworker \<Rightarrow> bool" where
  "pw_told w \<longleftrightarrow> pw_flag w \<or> pw_exited w"

definition told :: "'h preforked \<Rightarrow> int list \<Rightarrow> bool" where
  "told s pids \<longleftrightarrow> list_all (\<lambda>(p, w). p \<in> set pids \<longrightarrow> pw_told w) (pf_workers s)"

definition gone :: "'h preforked \<Rightarrow> int list \<Rightarrow> bool" where
  "gone s pids \<longleftrightarrow> list_all (\<lambda>(p, w). p \<in> set pids \<longrightarrow> pw_exited w) (pf_workers s)"

text \<open>How many workers there should be: all of them unless a fork failed.\<close>

definition full_house :: "config \<Rightarrow> 'h preforked \<Rightarrow> bool" where
  "full_house cfg s \<longleftrightarrow>
     length (pf_children s) \<le> max (cfg_workers cfg) 1 \<and>
     (pf_result s = Inr () \<longrightarrow> length (pf_children s) = max (cfg_workers cfg) 1 \<and> pf_flag s)"

fun pc_ok :: "config \<Rightarrow> 'h preforked \<Rightarrow> pf_pc \<Rightarrow> bool" where
  "pc_ok cfg s (PfForking n) \<longleftrightarrow>
     0 < n \<and> n + length (pf_children s) = max (cfg_workers cfg) 1 \<and> pf_reaped s = [] \<and> pf_result s = Inr ()"
| "pc_ok cfg s PfIdle \<longleftrightarrow>
     length (pf_children s) = max (cfg_workers cfg) 1 \<and> pf_reaped s = [] \<and> pf_result s = Inr ()"
| "pc_ok cfg s (PfKilling pids) \<longleftrightarrow>
     full_house cfg s \<and> pf_reaped s = [] \<and> (\<exists>done. pf_children s = done @ pids \<and> told s done)"
| "pc_ok cfg s (PfReaping pids) \<longleftrightarrow>
     full_house cfg s \<and> told s (pf_children s) \<and> gone s (pf_reaped s) \<and>
     (\<exists>done. pf_children s = done @ pids \<and> subseq (pf_reaped s) done)"
| "pc_ok cfg s PfReturned \<longleftrightarrow>
     full_house cfg s \<and> told s (pf_children s) \<and> gone s (pf_reaped s) \<and> subseq (pf_reaped s) (pf_children s)"

definition pf_inv :: "config \<Rightarrow> 'h preforked \<Rightarrow> bool" where
  "pf_inv cfg s \<longleftrightarrow>
     distinct (pf_children s) \<and> list_all (\<lambda>p. 0 < p) (pf_children s) \<and> pc_ok cfg s (pf_pc s)"

lemma pworker_step_told:
  "pworker_step call cfg ev w = Some w' \<Longrightarrow> pw_told w \<Longrightarrow> pw_told w'"
  by (cases ev) (auto simp: pw_told_def pw_exited_def split: if_splits)

lemma pworker_step_gone:
  "pworker_step call cfg ev w = Some w' \<Longrightarrow> pw_exited w \<Longrightarrow> False"
  by (cases ev) (auto simp: pw_exited_def split: if_splits)

lemma set_worker_simps [simp]:
  "pf_children (set_worker pid w s) = pf_children s" "pf_pc (set_worker pid w s) = pf_pc s"
  "pf_flag (set_worker pid w s) = pf_flag s" "pf_result (set_worker pid w s) = pf_result s"
  "pf_reaped (set_worker pid w s) = pf_reaped s" "full_house cfg (set_worker pid w s) = full_house cfg s"
  by (auto simp: set_worker_def pf_children_def full_house_def)

lemma pf_children_update [simp]:
  "pf_children (s\<lparr>pf_pc := x\<rparr>) = pf_children s" "pf_children (s\<lparr>pf_flag := b\<rparr>) = pf_children s"
  "pf_children (s\<lparr>pf_result := r\<rparr>) = pf_children s" "pf_children (s\<lparr>pf_reaped := ps\<rparr>) = pf_children s"
  by (simp_all add: pf_children_def)

lemma told_update [simp]:
  "told (s\<lparr>pf_pc := x\<rparr>) ps = told s ps" "told (s\<lparr>pf_flag := b\<rparr>) ps = told s ps"
  "told (s\<lparr>pf_result := r\<rparr>) ps = told s ps" "told (s\<lparr>pf_reaped := qs\<rparr>) ps = told s ps"
  "gone (s\<lparr>pf_pc := x\<rparr>) ps = gone s ps" "gone (s\<lparr>pf_flag := b\<rparr>) ps = gone s ps"
  "gone (s\<lparr>pf_result := r\<rparr>) ps = gone s ps" "gone (s\<lparr>pf_reaped := qs\<rparr>) ps = gone s ps"
  "told s []" "gone s []"
  by (simp_all add: told_def gone_def list_all_iff)

lemma told_set_worker:
  assumes "map_of (pf_workers s) pid = Some w" and "told s ps" and "pw_told w \<Longrightarrow> pw_told w'"
  shows "told (set_worker pid w' s) ps"
proof -
  have "pw_told w'" if "pid \<in> set ps" using assms(2,3) that map_of_SomeD [OF assms(1)] by (auto simp: told_def list_all_iff)
  with assms(2) show ?thesis by (auto simp: told_def set_worker_def list_all_iff)
qed

lemma told_set_worker_more:
  assumes "told s ps" and "pw_told w'"
  shows "told (set_worker pid w' s) (ps @ [pid])"
  using assms by (auto simp: told_def set_worker_def list_all_iff)

lemma gone_set_worker:
  assumes "map_of (pf_workers s) pid = Some w" and "gone s ps" and "\<not> pw_exited w"
  shows "gone (set_worker pid w' s) ps"
proof -
  have "pid \<notin> set ps" using assms map_of_SomeD [OF assms(1)] by (auto simp: gone_def list_all_iff)
  with assms(2) show ?thesis by (auto simp: gone_def set_worker_def list_all_iff)
qed

lemma full_house_update [simp]:
  "full_house cfg (s\<lparr>pf_pc := x\<rparr>) = full_house cfg s" "full_house cfg (s\<lparr>pf_reaped := ps\<rparr>) = full_house cfg s"
  "full_house cfg s \<Longrightarrow> full_house cfg (s\<lparr>pf_flag := True\<rparr>)"
  by (simp_all add: full_house_def)

lemma pc_ok_pc [simp]: "pc_ok cfg (s\<lparr>pf_pc := x\<rparr>) y = pc_ok cfg s y"
  by (cases y) simp_all

lemma pc_ok_flag: "pc_ok cfg s y \<Longrightarrow> pc_ok cfg (s\<lparr>pf_flag := True\<rparr>) y"
  by (cases y) simp_all

lemma pc_ok_set_worker:
  assumes "map_of (pf_workers s) pid = Some w" and "pworker_step call cfg ev w = Some w'" and "pc_ok cfg' s y"
  shows "pc_ok cfg' (set_worker pid w' s) y"
  using assms told_set_worker [OF assms(1)] gone_set_worker [OF assms(1)]
    pworker_step_told [OF assms(2)] pworker_step_gone [OF assms(2)]
  by (cases y) auto

lemma pf_kill_cases:
  assumes "distinct (pf_children s)"
  obtains "pf_kill call cfg pid s = s" and "\<forall>w. (pid, w) \<in> set (pf_workers s) \<longrightarrow> pw_exited w"
  | w where "map_of (pf_workers s) pid = Some w" and "pworker_step call cfg PwSignal w = Some (w\<lparr>pw_flag := True\<rparr>)"
      and "pf_kill call cfg pid s = set_worker pid (w\<lparr>pw_flag := True\<rparr>) s"
proof (cases "map_of (pf_workers s) pid")
  case None
  then have "(pid, w) \<notin> set (pf_workers s)" for w by (force simp: map_of_eq_None_iff)
  with None show ?thesis using that(1) by (simp add: pf_kill_def)
next
  case (Some w)
  have "v = w" if "(pid, v) \<in> set (pf_workers s)" for v
    using Some that assms by (metis map_of_is_SomeI option.inject pf_children_def)
  with that Some show ?thesis by (cases "pw_exited w") (auto simp: pf_kill_def)
qed

lemma pf_kill_ok:
  assumes "distinct (pf_children s)" and "pc_ok cfg s (PfKilling (pid # pids))"
  shows "pc_ok cfg (pf_kill call cfg pid s) (PfKilling pids)" "pf_children (pf_kill call cfg pid s) = pf_children s"
proof -
  obtain told_pids where t: "pf_children s = told_pids @ pid # pids" "told s told_pids" using assms(2) by auto
  show "pf_children (pf_kill call cfg pid s) = pf_children s"
    by (rule pf_kill_cases [OF assms(1), of call cfg pid]) simp_all
  show "pc_ok cfg (pf_kill call cfg pid s) (PfKilling pids)"
  proof (rule pf_kill_cases [OF assms(1), of call cfg pid])
    assume "pf_kill call cfg pid s = s" "\<forall>w. (pid, w) \<in> set (pf_workers s) \<longrightarrow> pw_exited w"
    moreover from this(2) t(2) have "told s (told_pids @ [pid])" by (auto simp: told_def list_all_iff pw_told_def)
    ultimately show ?thesis using assms(2) t(1) by (auto intro!: exI [of _ "told_pids @ [pid]"])
  next
    fix w
    assume "pf_kill call cfg pid s = set_worker pid (w\<lparr>pw_flag := True\<rparr>) s"
    moreover have "told (set_worker pid (w\<lparr>pw_flag := True\<rparr>) s) (told_pids @ [pid])"
      by (rule told_set_worker_more [OF t(2)]) (simp add: pw_told_def)
    ultimately show ?thesis using assms(2) t(1) by (auto intro!: exI [of _ "told_pids @ [pid]"])
  qed
qed

lemma pf_inv_start: "pf_inv cfg (preforked_start cfg a)"
  by (simp add: pf_inv_def preforked_start_def pf_children_def)

lemma pf_inv_fork:
  assumes "pf_inv cfg s" and "preforked_step call cfg (PfFork ans) s = Some s'"
  shows "pf_inv cfg s'"
proof -
  obtain n where n: "pf_pc s = PfForking n" using assms(2) by (cases "pf_pc s") auto
  with assms show ?thesis
    by (auto simp: pf_inv_def full_house_def pf_children_def split: sum.splits if_splits)
qed

lemma pf_inv_reap:
  assumes "pf_inv cfg s" and "pf_pc s = PfReaping (pid # pids)"
  shows "pf_inv cfg (s\<lparr>pf_pc := PfReaping pids, pf_flag := True\<rparr>)"
    and "map_of (pf_workers s) pid = Some w \<Longrightarrow> pw_exited w \<Longrightarrow>
      pf_inv cfg (s\<lparr>pf_pc := PfReaping pids, pf_reaped := pf_reaped s @ [pid]\<rparr>)"
proof -
  obtain waited where w: "pf_children s = waited @ pid # pids" "subseq (pf_reaped s) waited"
    and ok: "distinct (pf_children s)" "list_all (\<lambda>p. 0 < p) (pf_children s)" "full_house cfg s"
      "told s (pf_children s)" "gone s (pf_reaped s)"
    using assms by (auto simp: pf_inv_def)
  have sub: "subseq (pf_reaped s) (waited @ [pid])" "subseq (pf_reaped s @ [pid]) (waited @ [pid])"
    using w(2) by (auto intro: list_emb_append2 list_emb_append_mono subseq_order.trans)
  with ok w(1) show "pf_inv cfg (s\<lparr>pf_pc := PfReaping pids, pf_flag := True\<rparr>)"
    by (auto simp: pf_inv_def intro!: exI [of _ "waited @ [pid]"])
  assume pid: "map_of (pf_workers s) pid = Some w" "pw_exited w"
  have "v = w" if "(pid, v) \<in> set (pf_workers s)" for v
    using pid(1) that ok(1) by (metis map_of_is_SomeI option.inject pf_children_def)
  with ok(5) pid have "gone s (pf_reaped s @ [pid])" by (auto simp: gone_def list_all_iff)
  with ok w(1) sub(2) show "pf_inv cfg (s\<lparr>pf_pc := PfReaping pids, pf_reaped := pf_reaped s @ [pid]\<rparr>)"
    by (auto simp: pf_inv_def intro!: exI [of _ "waited @ [pid]"])
qed

lemma pf_inv_wait:
  assumes "pf_inv cfg s" and "preforked_step call cfg PfWait s = Some s'"
  shows "pf_inv cfg s'"
proof -
  obtain pids where pc: "pf_pc s = PfReaping pids" using assms(2) by (cases "pf_pc s") auto
  show ?thesis
  proof (cases pids)
    case Nil
    with assms pc show ?thesis by (auto simp: pf_inv_def)
  next
    case (Cons pid pids')
    with assms pc pf_inv_reap(2) [OF assms(1)] show ?thesis by (auto split: option.splits if_splits)
  qed
qed

lemma pf_inv_kill:
  assumes "pf_inv cfg s" and "preforked_step call cfg PfKill s = Some s'"
  shows "pf_inv cfg s'"
proof -
  obtain pids where pc: "pf_pc s = PfKilling pids" using assms(2) by (cases "pf_pc s") auto
  show ?thesis
  proof (cases pids)
    case Nil
    with assms pc show ?thesis by (auto simp: pf_inv_def)
  next
    case (Cons pid pids')
    have "distinct (pf_children s)" "pc_ok cfg s (PfKilling (pid # pids'))" using assms(1) pc Cons by (simp_all add: pf_inv_def)
    note kill = pf_kill_ok [OF this, of call]
    have "pf_inv cfg ((pf_kill call cfg pid s)\<lparr>pf_pc := PfKilling pids'\<rparr>)"
      using kill assms(1) by (simp add: pf_inv_def del: pc_ok.simps)
    with assms(2) pc Cons show ?thesis by simp
  qed
qed

lemma pf_inv_step:
  assumes "pf_inv cfg s" and "preforked_step call cfg e s = Some s'"
  shows "pf_inv cfg s'"
proof (cases e)
  case PfPoll
  with assms show ?thesis by (auto simp: pf_inv_def full_house_def split: pf_pc.splits)
next
  case PfSignal
  with assms pc_ok_flag [of cfg s] show ?thesis by (auto simp: pf_inv_def split: if_splits)
next
  case PfInterrupt
  with assms(2) pf_inv_reap(1) [OF assms(1)] show ?thesis by (auto split: pf_pc.splits list.splits)
next
  case (PfWorker pid ev)
  with assms(2) obtain w w' where w: "map_of (pf_workers s) pid = Some w" "pworker_step call cfg ev w = Some w'"
    "s' = set_worker pid w' s" by (auto split: option.splits)
  with pc_ok_set_worker [OF w(1,2)] assms(1) show ?thesis by (simp add: pf_inv_def)
qed (use assms pf_inv_fork pf_inv_wait pf_inv_kill in blast)+

section \<open>The streams of all workers\<close>

definition pf_served :: "'h preforked \<Rightarrow> slot list" where
  "pf_served s = concat (map (\<lambda>(p, w). snd (pw_state w)) (pf_workers s))"

definition pf_good :: "pf_event \<Rightarrow> bool" where
  "pf_good e \<longleftrightarrow> (case e of PfWorker pid (PwAccept (Inr (st, env))) \<Rightarrow> new_stream st | _ \<Rightarrow> True)"

definition pf_intake :: "pf_event \<Rightarrow> raw_fd multiset" where
  "pf_intake e = (case e of PfWorker pid (PwAccept (Inr (st, env))) \<Rightarrow> {#s_fd st#} | _ \<Rightarrow> {#})"

definition pf_ended :: "'h preforked \<Rightarrow> raw_fd multiset" where
  "pf_ended s = mset (map (\<lambda>sl. s_fd (slot_stream sl)) (pf_served s))"

definition pw_answers :: "'h call \<Rightarrow> 'h app \<Rightarrow> 'h pworker \<Rightarrow> bool" where
  "pw_answers call a w \<longleftrightarrow> app_same a (fst (pw_state w)) \<and> list_all (answers call a) (snd (pw_state w))"

definition pf_answers :: "'h call \<Rightarrow> 'h app \<Rightarrow> 'h preforked \<Rightarrow> bool" where
  "pf_answers call a s \<longleftrightarrow> app_same a (pf_app s) \<and>
     list_all (\<lambda>(p, w). pw_answers call a w) (pf_workers s)"

definition slot_fds :: "slot list \<Rightarrow> raw_fd multiset" where
  "slot_fds sls = mset (map (\<lambda>sl. s_fd (slot_stream sl)) sls)"

text \<open>What an event of a worker does to its streams.\<close>

lemma pworker_step_fds:
  assumes "pworker_step call cfg ev w = Some w'"
  shows "slot_fds (snd (pw_state w')) = slot_fds (snd (pw_state w)) + pf_intake (PfWorker pid ev)"
proof (cases ev)
  case (PwAccept ans)
  with assms show ?thesis
    by (cases ans) (auto simp: slot_fds_def pf_intake_def worker_turn_def serve_stream_fd Let_def split: if_splits)
qed (use assms in \<open>auto simp: pf_intake_def split: if_splits\<close>)

lemma pworker_step_answers:
  assumes "pworker_step call cfg ev w = Some w'" and "counters_unread call" and "pf_good (PfWorker pid ev)"
    and "pw_answers call a w"
  shows "pw_answers call a w'"
proof (cases ev)
  case (PwAccept ans)
  with assms show ?thesis
    by (cases ans)
       (auto simp: pw_answers_def pf_good_def worker_turn_def serve_stream_answers Let_def split: if_splits)
qed (use assms in \<open>auto simp: pw_answers_def split: if_splits\<close>)

lemma pf_answers_set_worker:
  assumes "pf_answers call a s" and "pw_answers call a w"
  shows "pf_answers call a (set_worker pid w s)"
  using assms by (auto simp: pf_answers_def set_worker_def list_all_iff)

lemma pf_answers_worker: "pf_answers call a s \<Longrightarrow> map_of (pf_workers s) pid = Some w \<Longrightarrow> pw_answers call a w"
  by (auto simp: pf_answers_def list_all_iff dest!: map_of_SomeD)

lemma map_other_id: "pid \<notin> set (map fst ws) \<Longrightarrow> map (\<lambda>(p, v). (p, if p = pid then w else v)) ws = ws"
  by (intro map_idI) (auto simp: rev_image_eqI)

lemma map_worker_fds:
  "distinct (map fst ws) \<Longrightarrow> map_of ws pid = Some w \<Longrightarrow>
     slot_fds (snd (pw_state w')) = slot_fds (snd (pw_state w)) + x \<Longrightarrow>
     slot_fds (concat (map (\<lambda>(p, w). snd (pw_state w)) (map (\<lambda>(p, v). (p, if p = pid then w' else v)) ws))) =
     slot_fds (concat (map (\<lambda>(p, w). snd (pw_state w)) ws)) + x"
proof (induction ws)
  case (Cons v ws)
  show ?case
  proof (cases "fst v = pid")
    case True
    with Cons.prems(1) have "map (\<lambda>(p, v). (p, if p = pid then w' else v)) ws = ws" by (simp add: map_other_id)
    with True Cons.prems show ?thesis by (cases v) (auto simp: slot_fds_def)
  next
    case False
    with Cons show ?thesis by (cases v) (auto simp: slot_fds_def)
  qed
qed simp

lemma pf_ended_set_worker:
  assumes "distinct (pf_children s)" and "map_of (pf_workers s) pid = Some w"
    and "slot_fds (snd (pw_state w')) = slot_fds (snd (pw_state w)) + x"
  shows "pf_ended (set_worker pid w' s) = pf_ended s + x"
  using map_worker_fds [OF assms(1) [unfolded pf_children_def] assms(2,3)]
  by (simp add: pf_ended_def pf_served_def set_worker_def slot_fds_def)

lemma pf_kill_streams:
  assumes "distinct (pf_children s)"
  shows "pf_ended (pf_kill call cfg pid s) = pf_ended s" and "pf_answers call a s \<Longrightarrow> pf_answers call a (pf_kill call cfg pid s)"
proof -
  show "pf_ended (pf_kill call cfg pid s) = pf_ended s"
    by (rule pf_kill_cases [OF assms, of call cfg pid]) (use pf_ended_set_worker [OF assms, of pid _ _ "{#}"] in auto)
  assume a: "pf_answers call a s"
  show "pf_answers call a (pf_kill call cfg pid s)"
  proof (rule pf_kill_cases [OF assms, of call cfg pid])
    fix w assume "map_of (pf_workers s) pid = Some w" "pf_kill call cfg pid s = set_worker pid (w\<lparr>pw_flag := True\<rparr>) s"
    with pf_answers_worker [OF a] pf_answers_set_worker [OF a] show ?thesis by (simp add: pw_answers_def)
  qed (use a in simp)
qed

lemma pf_ended_step:
  assumes "preforked_step call cfg e s = Some s'" and "distinct (pf_children s)"
  shows "pf_ended s' = pf_ended s + pf_intake e"
proof (cases e)
  case (PfWorker pid ev)
  with assms obtain w w' where w: "map_of (pf_workers s) pid = Some w" "pworker_step call cfg ev w = Some w'"
    "s' = set_worker pid w' s" by (auto split: option.splits)
  with pf_ended_set_worker [OF assms(2) w(1) pworker_step_fds [OF w(2)]] PfWorker show ?thesis by simp
next
  case PfKill
  with assms pf_kill_streams(1) [OF assms(2), of call cfg] show ?thesis
    by (auto simp: pf_intake_def pf_ended_def pf_served_def split: pf_pc.splits list.splits)
qed (use assms in \<open>auto simp: pf_intake_def pf_ended_def pf_served_def pworker_new_def
  split: pf_pc.splits sum.splits list.splits option.splits if_splits\<close>)

lemma pf_answers_step:
  assumes "preforked_step call cfg e s = Some s'" and "distinct (pf_children s)"
    and "counters_unread call" and "pf_answers call a s" and "pf_good e"
  shows "pf_answers call a s'"
proof (cases e)
  case (PfWorker pid ev)
  with assms obtain w w' where w: "map_of (pf_workers s) pid = Some w" "pworker_step call cfg ev w = Some w'"
    "s' = set_worker pid w' s" by (auto split: option.splits)
  have "pw_answers call a w'"
    by (rule pworker_step_answers [OF w(2) assms(3) _ pf_answers_worker [OF assms(4) w(1)]]) (use assms(5) PfWorker in simp)
  with w(3) assms(4) show ?thesis by (simp add: pf_answers_set_worker)
next
  case PfKill
  with assms pf_kill_streams(2) [OF assms(2,4), of cfg] show ?thesis
    by (auto simp: pf_answers_def split: pf_pc.splits list.splits)
qed (use assms in \<open>auto simp: pf_answers_def pw_answers_def pworker_new_def
  split: pf_pc.splits sum.splits list.splits option.splits if_splits\<close>)

definition pf_all_ok :: "'h call \<Rightarrow> config \<Rightarrow> 'h app \<Rightarrow> 'h preforked \<Rightarrow> bool" where
  "pf_all_ok call cfg a s \<longleftrightarrow> pf_inv cfg s \<and> (counters_unread call \<longrightarrow> pf_answers call a s)"

lemma pf_inv_distinct: "pf_inv cfg s \<Longrightarrow> distinct (pf_children s)"
  by (simp add: pf_inv_def)

interpretation pf: dispatcher "preforked_step call cfg" pf_good "pf_all_ok call cfg a" pf_intake "\<lambda>s. {#}" pf_ended
  for call cfg a
  by unfold_locales (auto simp: pf_all_ok_def dest: pf_inv_step pf_ended_step pf_answers_step pf_inv_distinct)

lemma pf_all_ok_start: "pf_all_ok call cfg a (preforked_start cfg a)"
  using pf_inv_start by (simp add: pf_all_ok_def pf_answers_def preforked_start_def)

section \<open>Nothing is left behind\<close>

text \<open>The workers the parent went past in \<open>reap\<close> without having waited for them.\<close>

definition pf_missed :: "'h preforked \<Rightarrow> nat" where
  "pf_missed s =
     (case pf_pc s of
        PfReaping pids \<Rightarrow> length (pf_children s) - length pids - length (pf_reaped s)
      | PfReturned \<Rightarrow> length (pf_children s) - length (pf_reaped s)
      | _ \<Rightarrow> 0)"

lemma pf_missed_step:
  assumes "pf_inv cfg s" and "preforked_step call cfg e s = Some s'"
  shows "pf_missed s' = pf_missed s + (if e = PfInterrupt then 1 else 0)"
proof (cases e)
  case PfKill
  with assms show ?thesis by (auto simp: pf_missed_def pf_inv_def split: pf_pc.splits list.splits)
next
  case (PfWorker pid ev)
  with assms show ?thesis by (auto simp: pf_missed_def split: option.splits pf_pc.splits)
qed (use assms in \<open>auto simp: pf_missed_def pf_inv_def split: pf_pc.splits sum.splits list.splits option.splits if_splits
  dest!: list_emb_length\<close>)

lemma pf_missed_run:
  "run_events (preforked_step call cfg) es s = Some s' \<Longrightarrow> pf_inv cfg s \<Longrightarrow>
     pf_missed s' = pf_missed s + count_list es PfInterrupt"
proof (induction es arbitrary: s)
  case (Cons e es)
  then obtain s1 where s1: "preforked_step call cfg e s = Some s1" "run_events (preforked_step call cfg) es s1 = Some s'"
    by (auto split: option.splits)
  with Cons.IH [OF s1(2)] pf_inv_step [OF Cons.prems(2) s1(1)] pf_missed_step [OF Cons.prems(2) s1(1)]
  show ?case by simp
qed simp

lemma pf_run_inv:
  assumes "run_events (preforked_step call cfg) es (preforked_start cfg a) = Some s"
  shows "pf_inv cfg s"
proof -
  have "run_events (preforked_step call cfg) es t = Some s \<Longrightarrow> pf_inv cfg t \<Longrightarrow> pf_inv cfg s" for t
    by (induction es arbitrary: t) (auto split: option.splits dest: pf_inv_step)
  with assms pf_inv_start show ?thesis by blast
qed

lemma pf_workers_children: "(p, w) \<in> set (pf_workers s) \<Longrightarrow> p \<in> set (pf_children s)"
  by (force simp: pf_children_def)

lemma returned_count:
  assumes "run_events (preforked_step call cfg) es (preforked_start cfg a) = Some s" and "pf_pc s = PfReturned"
  shows "length (pf_children s) = length (pf_reaped s) + count_list es PfInterrupt" and "subseq (pf_reaped s) (pf_children s)"
proof -
  show sub: "subseq (pf_reaped s) (pf_children s)" using pf_run_inv [OF assms(1)] assms(2) by (simp add: pf_inv_def)
  have "pf_missed (preforked_start cfg a) = 0" by (simp add: pf_missed_def preforked_start_def)
  then have "pf_missed s = count_list es PfInterrupt" using pf_missed_run [OF assms(1) pf_inv_start] by simp
  then show "length (pf_children s) = length (pf_reaped s) + count_list es PfInterrupt"
    using list_emb_length [OF sub] assms(2) by (simp add: pf_missed_def)
qed

lemma returned_all_reaped:
  assumes "run_events (preforked_step call cfg) es (preforked_start cfg a) = Some s" and "pf_pc s = PfReturned"
    and "PfInterrupt \<notin> set es"
  shows "pf_reaped s = pf_children s" and "list_all (\<lambda>(pid, w). pw_exited w) (pf_workers s)"
proof -
  have "length (pf_reaped s) = length (pf_children s)" using returned_count(1) [OF assms(1,2)] assms(3) by (simp add: count_list_0_iff)
  then show all: "pf_reaped s = pf_children s" using returned_count(2) [OF assms(1,2)] subseq_same_length by blast
  have "gone s (pf_reaped s)" using pf_run_inv [OF assms(1)] assms(2) by (simp add: pf_inv_def)
  with all show "list_all (\<lambda>(pid, w). pw_exited w) (pf_workers s)"
    using pf_workers_children by (fastforce simp: gone_def list_all_iff)
qed

text \<open>
  C29: the preforked server leaves no worker behind, in any interleaving of its processes and of the
  signals that arrive. When \<open>serve\<close> returns, every worker that was ever started has exited or
  has its shutdown flag raised; unless a signal broke into one of the calls of \<open>waitpid\<close>, every one has
  exited and was waited for once, in order; and each call a signal broke into costs at most one.
  Without an error the configured number of workers was started, and at least one.
\<close>

theorem preforked_group_no_orphans:
  assumes "run_events (preforked_step call cfg) es (preforked_start cfg a) = Some s" and "pf_pc s = PfReturned"
  shows "list_all (\<lambda>(pid, w). pw_flag w \<or> pw_exited w) (pf_workers s) \<and>
    length (pf_children s) = length (pf_reaped s) + count_list es PfInterrupt \<and>
    (PfInterrupt \<notin> set es \<longrightarrow> pf_reaped s = pf_children s \<and> list_all (\<lambda>(pid, w). pw_exited w) (pf_workers s)) \<and>
    (pf_result s = Inr () \<longrightarrow> length (pf_children s) = max (cfg_workers cfg) 1)"
proof -
  have inv: "full_house cfg s" "told s (pf_children s)" using pf_run_inv [OF assms(1)] assms(2) by (simp_all add: pf_inv_def)
  have "list_all (\<lambda>(pid, w). pw_flag w \<or> pw_exited w) (pf_workers s)"
    using inv(2) pf_workers_children by (fastforce simp: told_def pw_told_def list_all_iff)
  with inv(1) returned_count(1) [OF assms] returned_all_reaped [OF assms] show ?thesis by (simp add: full_house_def)
qed

definition demo_pf_events :: "pf_event list" where
  "demo_pf_events = [PfFork (Inr 100), PfFork (Inr 101), PfWorker 101 (PwBind (\<lambda>c. None)), PfPoll, PfSignal, PfPoll, PfKill,
     PfWorker 100 (PwBind (\<lambda>c. Some (OsError 98))), PfKill, PfKill, PfWait, PfWorker 101 (PwTimeout None),
     PfWorker 101 PwCheck, PfWait, PfWait]"

theorem preforked_group_no_orphans_witness:
  "map_option (\<lambda>s. (pf_reaped s, map (pw_pc \<circ> snd) (pf_workers s)))
     (run_events (preforked_step no_call (demo_config\<lparr>cfg_workers := 2\<rparr>)) demo_pf_events
        (preforked_start (demo_config\<lparr>cfg_workers := 2\<rparr>) empty_app)) = Some ([100, 101], [PwExited 1, PwExited 0])"
proof -
  let ?cfg = "demo_config\<lparr>cfg_workers := 2\<rparr>"
  let ?s = "run_events (preforked_step no_call ?cfg) demo_pf_events (preforked_start ?cfg empty_app)"
  have r: "map_option (\<lambda>s. (pf_pc s, map (pw_pc \<circ> snd) (pf_workers s), pf_children s)) ?s =
    Some (PfReturned, [PwExited 1, PwExited 0], [100, 101])" by code_simp
  then obtain s where s: "?s = Some s" "pf_pc s = PfReturned" "map (pw_pc \<circ> snd) (pf_workers s) = [PwExited 1, PwExited 0]"
    "pf_children s = [100, 101]" by auto
  have "PfInterrupt \<notin> set demo_pf_events" by (simp add: demo_pf_events_def)
  with preforked_group_no_orphans [OF s(1,2)] s show ?thesis by simp
qed

text \<open>
  A signal during \<open>waitpid\<close>: the call is not repeated, and the parent returns from \<open>serve\<close> with a
  worker that is still in \<open>accept\<close> and that nobody waits for.
\<close>

theorem second_signal_leaves_worker:
  "map_option (\<lambda>s. (pf_pc s, pf_reaped s, map (pw_pc \<circ> snd) (pf_workers s)))
     (run_events (preforked_step no_call (demo_config\<lparr>cfg_workers := 1\<rparr>))
       [PfFork (Inr 100), PfWorker 100 (PwBind (\<lambda>c. None)), PfWorker 100 (PwTimeout None), PfWorker 100 PwCheck,
        PfSignal, PfPoll, PfKill, PfKill, PfInterrupt, PfWait]
       (preforked_start (demo_config\<lparr>cfg_workers := 1\<rparr>) empty_app)) = Some (PfReturned, [], [PwAccepting])"
  by code_simp

text \<open>
  Workers that could not bind the address are gone, and the parent does not notice: without a
  signal it stays idle however often it looks at its flag.
\<close>

lemma dead_workers_unnoticed:
  "\<exists>s. run_events (preforked_step no_call (demo_config\<lparr>cfg_workers := 1\<rparr>))
      ([PfFork (Inr 100), PfWorker 100 (PwBind (\<lambda>c. if c = Bind then Some (OsError 98) else None))] @ replicate n PfPoll)
      (preforked_start (demo_config\<lparr>cfg_workers := 1\<rparr>) empty_app) = Some s \<and>
    pf_pc s = PfIdle \<and> list_all (\<lambda>(pid, w). pw_pc w = PwExited 1) (pf_workers s)"
proof -
  have idle: "pf_pc s = PfIdle \<Longrightarrow> \<not> pf_flag s \<Longrightarrow> run_events (preforked_step call cfg) (replicate n PfPoll) s = Some s"
    for call :: "unit call" and cfg s
    by (induction n) simp_all
  show ?thesis
    by (simp add: run_events_append preforked_start_def pf_children_def pworker_new_def set_worker_def bind_listener_def idle)
qed

section \<open>A shutdown comes to its end\<close>

text \<open>How many steps a process has left once it was told to stop.\<close>

fun pw_rank :: "pw_pc \<Rightarrow> nat" where
  "pw_rank PwBinding = 3"
| "pw_rank PwTiming = 2"
| "pw_rank PwChecking = 1"
| "pw_rank PwAccepting = 2"
| "pw_rank (PwExited code) = 0"

definition workers_rank :: "(int \<times> 'h pworker) list \<Rightarrow> nat" where
  "workers_rank ws = (\<Sum>(p, w)\<leftarrow>ws. pw_rank (pw_pc w))"

fun parent_rank :: "nat \<Rightarrow> pf_pc \<Rightarrow> nat" where
  "parent_rank m (PfForking n) = 2 * m + 6 * n + 3"
| "parent_rank m PfIdle = 2 * m + 3"
| "parent_rank m (PfKilling pids) = length pids + m + 2"
| "parent_rank m (PfReaping pids) = length pids + 1"
| "parent_rank m PfReturned = 0"

definition pf_rank :: "'h preforked \<Rightarrow> nat" where
  "pf_rank s = workers_rank (pf_workers s) + parent_rank (length (pf_workers s)) (pf_pc s)"

definition stopping :: "'h preforked \<Rightarrow> bool" where
  "stopping s \<longleftrightarrow> pf_flag s \<or> pf_result s \<noteq> Inr ()"

lemma workers_rank_le: "workers_rank ws \<le> 3 * length ws"
proof -
  have "pw_rank x \<le> 3" for x by (cases x) simp_all
  then show ?thesis by (induction ws) (auto simp: workers_rank_def intro: add_mono)
qed

lemma suffix_shorter: "map fst ws = xs @ ys \<Longrightarrow> length ys \<le> length ws"
  by (metis le_add2 length_append length_map)

lemma pf_rank_le: "pf_inv cfg s \<Longrightarrow> pf_rank s \<le> 6 * max (cfg_workers cfg) 1 + 3"
  using workers_rank_le [of "pf_workers s"]
  by (cases "pf_pc s") (auto simp: pf_inv_def pf_rank_def pf_children_def full_house_def dest: suffix_shorter)

lemma workers_rank_set:
  "distinct (map fst ws) \<Longrightarrow> map_of ws pid = Some w \<Longrightarrow>
     workers_rank (map (\<lambda>(p, v). (p, if p = pid then w' else v)) ws) + pw_rank (pw_pc w) =
     workers_rank ws + pw_rank (pw_pc w')"
proof (induction ws)
  case (Cons v ws)
  show ?case
  proof (cases "fst v = pid")
    case True
    with Cons.prems(1) have "map (\<lambda>(p, v). (p, if p = pid then w' else v)) ws = ws" by (simp add: map_other_id)
    with True Cons.prems show ?thesis by (cases v) (auto simp: workers_rank_def)
  next
    case False
    with Cons show ?thesis by (cases v) (auto simp: workers_rank_def)
  qed
qed simp

lemma pf_rank_set_worker:
  assumes "distinct (pf_children s)" and "map_of (pf_workers s) pid = Some w"
  shows "pf_rank (set_worker pid w' s) + pw_rank (pw_pc w) = pf_rank s + pw_rank (pw_pc w')"
  using workers_rank_set [OF assms(1) [unfolded pf_children_def] assms(2), of w']
  by (simp add: pf_rank_def) (simp add: set_worker_def)

text \<open>A worker that was told to stop can always go on towards its exit; the time-out of \<open>accept\<close> sees to it.\<close>

lemma told_worker_next:
  assumes "pw_told w" and "\<not> pw_exited w"
  shows "\<exists>ev w'. pworker_step call cfg ev w = Some w' \<and> pw_rank (pw_pc w') < pw_rank (pw_pc w)"
proof (cases "pw_pc w")
  case PwBinding
  then show ?thesis by (intro exI [of _ "PwBind (\<lambda>c. None)"]) (simp split: sum.split)
next
  case PwTiming
  then show ?thesis by (intro exI [of _ "PwTimeout None"]) simp
next
  case PwChecking
  with assms show ?thesis by (intro exI [of _ PwCheck]) (simp add: pw_told_def)
next
  case PwAccepting
  then show ?thesis by (intro exI [of _ "PwAccept (Inl WouldBlock)"]) simp
qed (use assms(2) in \<open>simp add: pw_exited_def\<close>)

lemma pf_kill_rank:
  assumes "distinct (pf_children s)"
  shows "pf_rank (pf_kill call cfg pid s) = pf_rank s" "stopping (pf_kill call cfg pid s) = stopping s"
    "length (pf_workers (pf_kill call cfg pid s)) = length (pf_workers s)" "pf_pc (pf_kill call cfg pid s) = pf_pc s"
proof -
  have "pf_rank (pf_kill call cfg pid s) = pf_rank s \<and> stopping (pf_kill call cfg pid s) = stopping s \<and>
    length (pf_workers (pf_kill call cfg pid s)) = length (pf_workers s) \<and> pf_pc (pf_kill call cfg pid s) = pf_pc s"
  proof (rule pf_kill_cases [OF assms, of call cfg pid])
    fix w assume w: "map_of (pf_workers s) pid = Some w" and k: "pf_kill call cfg pid s = set_worker pid (w\<lparr>pw_flag := True\<rparr>) s"
    show ?thesis using pf_rank_set_worker [OF assms w, of "w\<lparr>pw_flag := True\<rparr>"]
      unfolding k by (simp add: stopping_def) (simp add: set_worker_def)
  qed simp
  then show "pf_rank (pf_kill call cfg pid s) = pf_rank s" "stopping (pf_kill call cfg pid s) = stopping s"
    "length (pf_workers (pf_kill call cfg pid s)) = length (pf_workers s)" "pf_pc (pf_kill call cfg pid s) = pf_pc s"
    by blast+
qed

text \<open>The worker the parent waits for was told to stop: it can be waited for, or go on towards its exit.\<close>

lemma awaited_worker:
  assumes "pf_inv cfg s" and "pf_pc s = PfReaping (pid # pids)"
  obtains w where "map_of (pf_workers s) pid = Some w" and "pw_told w"
proof -
  have told: "told s (pf_children s)" and pid: "pid \<in> set (pf_children s)" using assms by (auto simp: pf_inv_def)
  then obtain w where w: "map_of (pf_workers s) pid = Some w"
    by (metis domD dom_map_of_conv_image_fst pf_children_def set_map)
  with told pid have "pw_told w" by (auto simp: told_def list_all_iff dest!: map_of_SomeD)
  with w show ?thesis by (rule that)
qed

lemma reaping_next:
  assumes "pf_inv cfg s" and "pf_pc s = PfReaping (pid # pids)" and "stopping s"
  shows "\<exists>e s'. e \<noteq> PfInterrupt \<and> preforked_step call cfg e s = Some s' \<and> pf_rank s' < pf_rank s \<and> stopping s'"
proof -
  obtain w where w: "map_of (pf_workers s) pid = Some w" and told: "pw_told w" by (rule awaited_worker [OF assms(1,2)])
  show ?thesis
  proof (cases "pw_exited w")
    case True
    with w assms(2,3) show ?thesis by (intro exI [of _ PfWait]) (simp add: pf_rank_def stopping_def)
  next
    case False
    from told_worker_next [OF told this] obtain ev w' where
      ev: "pworker_step call cfg ev w = Some w'" "pw_rank (pw_pc w') < pw_rank (pw_pc w)" by blast
    with w pf_rank_set_worker [OF pf_inv_distinct [OF assms(1)] w, of w'] assms(3) show ?thesis
      by (intro exI [of _ "PfWorker pid ev"]) (simp add: stopping_def)
  qed
qed

text \<open>Until \<open>serve\<close> has returned, the parent or the worker it waits for can take a step towards the end.\<close>

lemma stopping_next:
  assumes "pf_inv cfg s" and "stopping s" and "pf_pc s \<noteq> PfReturned"
  shows "\<exists>e s'. e \<noteq> PfInterrupt \<and> preforked_step call cfg e s = Some s' \<and> pf_rank s' < pf_rank s \<and> stopping s'"
proof (cases "pf_pc s")
  case (PfForking n)
  define pid where "pid = Max (insert 0 (set (pf_children s))) + 1"
  have "p < pid" if "p \<in> insert 0 (set (pf_children s))" for p using that by (simp add: pid_def)
  then have "0 < pid" "pid \<notin> set (pf_children s)" by auto
  with assms PfForking show ?thesis
    by (intro exI [of _ "PfFork (Inr pid)"])
       (auto simp: pf_inv_def stopping_def pf_rank_def workers_rank_def pworker_new_def)
next
  case PfIdle
  with assms show ?thesis
    by (intro exI [of _ PfPoll]) (auto simp: pf_inv_def stopping_def pf_rank_def pf_children_def)
next
  case (PfKilling pids)
  note kill = pf_kill_rank [OF pf_inv_distinct [OF assms(1)], of call cfg]
  show ?thesis
  proof (cases pids)
    case (Cons pid pids')
    with PfKilling assms(2) kill [of pid] show ?thesis
      by (intro exI [of _ PfKill]) (simp add: pf_rank_def stopping_def)
  qed (use PfKilling assms(2) in \<open>intro exI [of _ PfKill]; simp add: pf_rank_def stopping_def pf_children_def\<close>)
next
  case (PfReaping pids)
  show ?thesis
  proof (cases pids)
    case (Cons pid pids')
    with reaping_next [OF assms(1)] PfReaping assms(2) show ?thesis by blast
  qed (use PfReaping assms(2) in \<open>intro exI [of _ PfWait]; simp add: pf_rank_def stopping_def\<close>)
qed (use assms(3) in simp)

lemma stopping_ends:
  assumes "pf_inv cfg s" and "stopping s"
  shows "\<exists>es s'. length es \<le> pf_rank s \<and> PfInterrupt \<notin> set es \<and>
    run_events (preforked_step call cfg) es s = Some s' \<and> pf_pc s' = PfReturned"
  using assms
proof (induction "pf_rank s" arbitrary: s rule: less_induct)
  case less
  show ?case
  proof (cases "pf_pc s = PfReturned")
    case True
    then show ?thesis by (intro exI [of _ "[]"]) simp
  next
    case False
    from stopping_next [OF less.prems this] obtain e s1 where
      e: "e \<noteq> PfInterrupt" "preforked_step call cfg e s = Some s1" "pf_rank s1 < pf_rank s" "stopping s1" by blast
    from less.hyps [OF e(3) pf_inv_step [OF less.prems(1) e(2)] e(4)] obtain es s' where
      "length es \<le> pf_rank s1" "PfInterrupt \<notin> set es" "run_events (preforked_step call cfg) es s1 = Some s'"
      "pf_pc s' = PfReturned" by blast
    with e show ?thesis by (intro exI [of _ "e # es"]) auto
  qed
qed



text \<open>
  Whatever the interleaving, every stream a worker accepted is served once, and rightly.
\<close>

theorem preforked_group_serves:
  assumes "run_events (preforked_step call cfg) es (preforked_start cfg a) = Some s"
    and "counters_unread call" and "list_all pf_good es"
  shows "list_all (answers call a) (pf_served s) \<and> pf_ended s = sum_list (map pf_intake es)"
proof -
  have "pf_answers call a s" using pf.run_inv [OF assms(1) pf_all_ok_start assms(3)] assms(2) by (simp add: pf_all_ok_def)
  then have "list_all (answers call a) (pf_served s)" by (fastforce simp: pf_answers_def pw_answers_def pf_served_def list_all_iff)
  moreover have "pf_ended (preforked_start cfg a) = {#}" by (simp add: pf_ended_def pf_served_def preforked_start_def)
  ultimately show ?thesis using pf.run_conserves [OF assms(1) pf_all_ok_start assms(3)] by simp
qed

end
