(* ===== verification/Thread_Models.thy ===== *)
theory Thread_Models
  imports Service
begin

text \<open>
  The models that use threads: \<open>thread-per-conn\<close> (\<open>server/src/models/thread_per_conn.rs\<close>) with its
  counting semaphore, and \<open>thread-pool\<close> (\<open>server/src/models/thread_pool.rs\<close>) with its bounded
  queue. The acceptor and the threads are interleaved freely; a thread may also panic in a
  handler, which ends it without running the rest of its body.
\<close>

definition remove_nth :: "nat \<Rightarrow> 'a list \<Rightarrow> 'a list" where
  "remove_nth i xs = take i xs @ drop (Suc i) xs"

lemma mset_remove_nth: "i < length xs \<Longrightarrow> add_mset (xs ! i) (mset (remove_nth i xs)) = mset xs"
  by (metis id_take_nth_drop mset.simps(2) mset_append remove_nth_def union_mset_add_mset_right)

lemma length_remove_nth: "i < length xs \<Longrightarrow> Suc (length (remove_nth i xs)) = length xs"
  by (simp add: remove_nth_def)

lemma list_all_remove_nth: "list_all P xs \<Longrightarrow> list_all P (remove_nth i xs)"
  by (auto simp: remove_nth_def list_all_iff dest: in_set_takeD in_set_dropD)

section \<open>A thread for each connection\<close>

subsection \<open>The semaphore\<close>

text \<open>\<open>acquire\<close> waits while there is no permit: the result is \<open>None\<close> then.\<close>

definition sem_new :: "usize \<Rightarrow> usize" where
  "sem_new n = n"

definition sem_acquire :: "usize \<Rightarrow> usize option" where
  "sem_acquire permits = (if permits = 0 then None else Some (permits - 1))"

definition sem_release :: "usize \<Rightarrow> usize" where
  "sem_release permits = permits + 1"

subsection \<open>The model\<close>

datatype tp_pc = TpAccepting | TpAcquiring tcp_stream | TpSpawning tcp_stream | TpCrashed

text \<open>
  \<open>tp_finishing\<close> counts the threads that have served their stream and not yet released their
  permit; \<open>tp_panicked\<close> holds the streams of the threads that panicked, and the one of the acceptor when
  \<open>thread::spawn\<close> panics because the system has no thread for it. The acceptor then unwinds out of \<open>serve\<close>.
\<close>

record 'h tpc =
  tp_pc :: tp_pc
  tp_app :: "'h app"
  tp_permits :: usize
  tp_threads :: "tcp_stream list"
  tp_finishing :: nat
  tp_served :: "(tcp_stream \<times> slot) list"
  tp_panicked :: "tcp_stream list"

datatype tp_event =
  TpAccept "io_error + tcp_stream"
| TpAcquire
| TpSpawn
| TpSpawnFailed
| TpFinish nat serve_env
| TpPanic nat
| TpRelease

definition tpc_start :: "config \<Rightarrow> 'h app \<Rightarrow> 'h tpc" where
  "tpc_start cfg a = \<lparr>tp_pc = TpAccepting, tp_app = a, tp_permits = sem_new (max (cfg_max_connections cfg) 1),
     tp_threads = [], tp_finishing = 0, tp_served = [], tp_panicked = []\<rparr>"

fun tpc_step :: "'h call \<Rightarrow> config \<Rightarrow> tp_event \<Rightarrow> 'h tpc \<Rightarrow> 'h tpc option" where
  "tpc_step call cfg (TpAccept ans) s =
     (if tp_pc s \<noteq> TpAccepting then None
      else (case ans of
          Inl e \<Rightarrow> Some s
        | Inr st \<Rightarrow> Some (s\<lparr>tp_pc := TpAcquiring st, tp_app := count_connection (tp_app s)\<rparr>)))"
| "tpc_step call cfg TpAcquire s =
     (case tp_pc s of
        TpAcquiring st \<Rightarrow> map_option (\<lambda>n. s\<lparr>tp_pc := TpSpawning st, tp_permits := n\<rparr>) (sem_acquire (tp_permits s))
      | _ \<Rightarrow> None)"
| "tpc_step call cfg TpSpawn s =
     (case tp_pc s of
        TpSpawning st \<Rightarrow> Some (s\<lparr>tp_pc := TpAccepting, tp_threads := tp_threads s @ [st]\<rparr>)
      | _ \<Rightarrow> None)"
| "tpc_step call cfg TpSpawnFailed s =
     (case tp_pc s of
        TpSpawning st \<Rightarrow> Some (s\<lparr>tp_pc := TpCrashed, tp_panicked := st # tp_panicked s\<rparr>)
      | _ \<Rightarrow> None)"
| "tpc_step call cfg (TpFinish i e) s =
     (if i < length (tp_threads s)
      then
        let st = tp_threads s ! i; r = serve_stream call cfg e (tp_app s) st in
        Some (s\<lparr>tp_app := count_result (snd r) (tp_app s), tp_threads := remove_nth i (tp_threads s),
               tp_finishing := tp_finishing s + 1, tp_served := (st, fst r) # tp_served s\<rparr>)
      else None)"
| "tpc_step call cfg (TpPanic i) s =
     (if i < length (tp_threads s)
      then Some (s\<lparr>tp_threads := remove_nth i (tp_threads s), tp_panicked := tp_threads s ! i # tp_panicked s\<rparr>)
      else None)"
| "tpc_step call cfg TpRelease s =
     (if tp_finishing s > 0
      then Some (s\<lparr>tp_finishing := tp_finishing s - 1, tp_permits := sem_release (tp_permits s)\<rparr>) else None)"

fun tp_stream :: "tp_pc \<Rightarrow> tcp_stream list" where
  "tp_stream TpAccepting = []"
| "tp_stream (TpAcquiring st) = [st]"
| "tp_stream (TpSpawning st) = [st]"
| "tp_stream TpCrashed = []"

definition tp_good :: "tp_event \<Rightarrow> bool" where
  "tp_good e \<longleftrightarrow> (case e of TpAccept (Inr st) \<Rightarrow> new_stream st | _ \<Rightarrow> True)"

definition tp_intake :: "tp_event \<Rightarrow> tcp_stream multiset" where
  "tp_intake e = (case e of TpAccept (Inr st) \<Rightarrow> {#st#} | _ \<Rightarrow> {#})"

definition tp_held :: "'h tpc \<Rightarrow> tcp_stream multiset" where
  "tp_held s = mset (tp_stream (tp_pc s)) + mset (tp_threads s)"

definition tp_ended :: "'h tpc \<Rightarrow> tcp_stream multiset" where
  "tp_ended s = mset (map fst (tp_served s)) + mset (tp_panicked s)"

text \<open>Permits in use: the one just acquired, those of the threads, and those that were lost.\<close>

definition tp_in_use :: "'h tpc \<Rightarrow> nat" where
  "tp_in_use s = (case tp_pc s of TpSpawning st \<Rightarrow> 1 | _ \<Rightarrow> 0) + length (tp_threads s) + tp_finishing s +
     length (tp_panicked s)"

definition tp_inv :: "'h call \<Rightarrow> config \<Rightarrow> 'h app \<Rightarrow> 'h tpc \<Rightarrow> bool" where
  "tp_inv call cfg a s \<longleftrightarrow>
     counters_unread call \<and> tp_permits s + tp_in_use s = max (cfg_max_connections cfg) 1 \<and>
     app_same a (tp_app s) \<and> list_all new_stream (tp_stream (tp_pc s) @ tp_threads s) \<and>
     list_all (\<lambda>(st, sl). answers call a sl) (tp_served s)"

lemma tp_inv_step:
  assumes inv: "tp_inv call cfg a s" and good: "tp_good e" and step: "tpc_step call cfg e s = Some s'"
  shows "tp_inv call cfg a s'"
proof (cases e)
  case (TpFinish i env)
  let ?st = "tp_threads s ! i"
  from step TpFinish have i: "i < length (tp_threads s)" by (simp split: if_splits)
  then have "new_stream ?st" using inv by (auto simp: tp_inv_def list_all_iff)
  then have "answers call a (fst (serve_stream call cfg env (tp_app s) ?st))"
    using inv by (intro serve_stream_answers) (simp_all add: tp_inv_def)
  with step TpFinish i length_remove_nth [OF i] inv show ?thesis
    by (auto simp: tp_inv_def tp_in_use_def Let_def list_all_remove_nth)
next
  case (TpPanic i)
  with step have i: "i < length (tp_threads s)" by (simp split: if_splits)
  with step TpPanic length_remove_nth [OF i] inv show ?thesis
    by (auto simp: tp_inv_def tp_in_use_def list_all_remove_nth)
qed (use inv good step in \<open>auto simp: tp_inv_def tp_in_use_def tp_good_def sem_acquire_def sem_release_def
    split: tp_pc.splits sum.splits if_splits\<close>)

lemma tp_conserves_step:
  assumes step: "tpc_step call cfg e s = Some s'"
  shows "tp_held s' + tp_ended s' = tp_held s + tp_ended s + tp_intake e"
proof (cases e)
  case (TpFinish i env)
  with step have i: "i < length (tp_threads s)" by (simp split: if_splits)
  from mset_remove_nth [OF i] step TpFinish i show ?thesis
    by (auto simp: tp_held_def tp_ended_def tp_intake_def Let_def)
next
  case (TpPanic i)
  with step have i: "i < length (tp_threads s)" by (simp split: if_splits)
  from mset_remove_nth [OF i] step TpPanic i show ?thesis
    by (auto simp: tp_held_def tp_ended_def tp_intake_def)
qed (use step in \<open>auto simp: tp_held_def tp_ended_def tp_intake_def split: tp_pc.splits sum.splits if_splits\<close>)

interpretation tp: dispatcher "tpc_step call cfg" tp_good "tp_inv call cfg a" tp_intake tp_held tp_ended
  for call :: "'h call" and cfg a
  by unfold_locales (blast intro: tp_inv_step, rule tp_conserves_step)

lemma tp_inv_start: "counters_unread call \<Longrightarrow> tp_inv call cfg a (tpc_start cfg a)"
  by (simp add: tp_inv_def tpc_start_def tp_in_use_def sem_new_def)

text \<open>
  C31: a thread for each connection, but never more than allowed. In every interleaving of the
  acceptor with the threads, the permits that are free, in use and lost to panics are together
  the configured limit (at least one), so no more threads than that run at once; every accepted
  stream is waiting, being served, was served, or was abandoned by a panic; and each served one
  got a prefix of its responses, all of them when the server closed it.
\<close>

theorem thread_per_conn_bounded:
  assumes "counters_unread call" and "list_all tp_good es"
    and "run_events (tpc_step call cfg) es (tpc_start cfg a) = Some s"
  shows "tp_permits s + tp_in_use s = max (cfg_max_connections cfg) 1 \<and>
    length (tp_threads s) \<le> max (cfg_max_connections cfg) 1 \<and>
    tp_held s + tp_ended s = sum_list (map tp_intake es) \<and>
    list_all (\<lambda>(st, sl). answers call a sl) (tp_served s)"
proof -
  have "tp_inv call cfg a s" using tp.run_inv [OF assms(3) tp_inv_start [OF assms(1)] assms(2)] .
  moreover have "tp_held s + tp_ended s = sum_list (map tp_intake es)"
    using tp.run_conserves [OF assms(3) tp_inv_start [OF assms(1)] assms(2)]
    by (simp add: tpc_start_def tp_held_def tp_ended_def)
  ultimately show ?thesis by (auto simp: tp_inv_def tp_in_use_def)
qed

definition demo_tp_events :: "tp_event list" where
  "demo_tp_events = [TpAccept (Inr (stream_new 5 [] [])), TpAcquire, TpSpawn, TpAccept (Inr (stream_new 6 [] [])),
     TpFinish 0 demo_env, TpAcquire, TpRelease]"

theorem thread_per_conn_bounded_witness:
  "\<exists>s. run_events (tpc_step no_call demo_config) demo_tp_events (tpc_start demo_config empty_app) = Some s \<and>
     length (tp_threads s) \<le> 2 \<and> tp_held s + tp_ended s = {#stream_new 5 [] [], stream_new 6 [] []#}"
proof -
  have "run_events (tpc_step no_call demo_config) demo_tp_events (tpc_start demo_config empty_app) \<noteq> None"
    by code_simp
  then obtain s where s: "run_events (tpc_step no_call demo_config) demo_tp_events (tpc_start demo_config empty_app) = Some s"
    by blast
  have "list_all tp_good demo_tp_events"
    by (simp add: demo_tp_events_def tp_good_def new_stream_def stream_new_def)
  from thread_per_conn_bounded [OF no_call_unread this s] s show ?thesis
    by (simp add: demo_config_def) (simp add: demo_tp_events_def tp_intake_def)
qed


section \<open>A pool of threads\<close>

definition queue_capacity :: "config \<Rightarrow> usize" where
  "queue_capacity cfg = max (cfg_max_connections cfg) 1"

text \<open>
  \<open>SyncSender::try_send\<close> on a channel with this many buffered streams and handles to its receiver.
\<close>

datatype try_send = Sent | Full | Disconnected

definition try_send :: "usize \<Rightarrow> nat \<Rightarrow> 'a list \<Rightarrow> try_send" where
  "try_send cap handles q = (if handles = 0 then Disconnected else if length q < cap then Sent else Full)"

text \<open>
  \<open>po_sent\<close> and \<open>po_taken\<close> list the streams put into the queue and taken out of it, for the theorems.
\<close>

record 'h pool =
  po_app :: "'h app"
  po_queue :: "tcp_stream list"
  po_idle :: nat
  po_serving :: "tcp_stream list"
  po_dead :: nat
  po_returned :: bool
  po_rejected :: "tcp_stream list"
  po_served :: "(tcp_stream \<times> slot) list"
  po_abandoned :: "tcp_stream list"
  po_sent :: "tcp_stream list"
  po_taken :: "tcp_stream list"

datatype po_event =
  PoAccept "io_error + tcp_stream"
| PoTake
| PoFinish nat serve_env
| PoPanic nat

definition pool_start :: "config \<Rightarrow> 'h app \<Rightarrow> 'h pool" where
  "pool_start cfg a = \<lparr>po_app = a, po_queue = [], po_idle = max (cfg_workers cfg) 1, po_serving = [], po_dead = 0,
     po_returned = False, po_rejected = [], po_served = [], po_abandoned = [], po_sent = [], po_taken = []\<rparr>"

text \<open>
  The receiver is shared by the workers that are alive and by the frame of \<open>serve\<close>, whose handle
  lives as long as it runs.
\<close>

definition receiver_handles :: "'h pool \<Rightarrow> nat" where
  "receiver_handles s = 1 + po_idle s + length (po_serving s)"

definition pool_offer :: "config \<Rightarrow> tcp_stream \<Rightarrow> 'h pool \<Rightarrow> 'h pool" where
  "pool_offer cfg st s =
     (case try_send (queue_capacity cfg) (receiver_handles s) (po_queue s) of
        Sent \<Rightarrow> s\<lparr>po_queue := po_queue s @ [st], po_sent := po_sent s @ [st]\<rparr>
      | Full \<Rightarrow> s\<lparr>po_app := count_error (po_app s), po_rejected := st # po_rejected s\<rparr>
      | Disconnected \<Rightarrow> s\<lparr>po_returned := True, po_abandoned := st # po_abandoned s\<rparr>)"

fun pool_step :: "'h call \<Rightarrow> config \<Rightarrow> po_event \<Rightarrow> 'h pool \<Rightarrow> 'h pool option" where
  "pool_step call cfg (PoAccept ans) s =
     (if po_returned s then None
      else (case ans of
          Inl e \<Rightarrow> Some s
        | Inr st \<Rightarrow> Some (pool_offer cfg st (s\<lparr>po_app := count_connection (po_app s)\<rparr>))))"
| "pool_step call cfg PoTake s =
     (case po_queue s of
        [] \<Rightarrow> None
      | st # q \<Rightarrow>
          if po_idle s > 0
          then Some (s\<lparr>po_queue := q, po_idle := po_idle s - 1, po_serving := po_serving s @ [st],
                 po_taken := po_taken s @ [st]\<rparr>)
          else None)"
| "pool_step call cfg (PoFinish i e) s =
     (if i < length (po_serving s)
      then
        let st = po_serving s ! i; r = serve_stream call cfg e (po_app s) st in
        Some (s\<lparr>po_app := count_result (snd r) (po_app s), po_serving := remove_nth i (po_serving s),
               po_idle := po_idle s + 1, po_served := (st, fst r) # po_served s\<rparr>)
      else None)"
| "pool_step call cfg (PoPanic i) s =
     (if i < length (po_serving s)
      then Some (s\<lparr>po_serving := remove_nth i (po_serving s), po_dead := po_dead s + 1,
                  po_abandoned := po_serving s ! i # po_abandoned s\<rparr>)
      else None)"

definition po_good :: "po_event \<Rightarrow> bool" where
  "po_good e \<longleftrightarrow> (case e of PoAccept (Inr st) \<Rightarrow> new_stream st | _ \<Rightarrow> True)"

definition po_intake :: "po_event \<Rightarrow> tcp_stream multiset" where
  "po_intake e = (case e of PoAccept (Inr st) \<Rightarrow> {#st#} | _ \<Rightarrow> {#})"

definition po_held :: "'h pool \<Rightarrow> tcp_stream multiset" where
  "po_held s = mset (po_queue s) + mset (po_serving s)"

definition po_ended :: "'h pool \<Rightarrow> tcp_stream multiset" where
  "po_ended s = mset (po_rejected s) + mset (map fst (po_served s)) + mset (po_abandoned s)"

definition po_inv :: "'h call \<Rightarrow> config \<Rightarrow> 'h app \<Rightarrow> 'h pool \<Rightarrow> bool" where
  "po_inv call cfg a s \<longleftrightarrow>
     counters_unread call \<and> po_idle s + length (po_serving s) + po_dead s = max (cfg_workers cfg) 1 \<and>
     length (po_queue s) \<le> queue_capacity cfg \<and> \<not> po_returned s \<and> po_sent s = po_taken s @ po_queue s \<and>
     app_same a (po_app s) \<and> list_all new_stream (po_queue s @ po_serving s) \<and>
     list_all (\<lambda>(st, sl). answers call a sl) (po_served s)"

lemma try_send_connected:
  "try_send cap (receiver_handles s) q = (if length q < cap then Sent else Full)"
  by (simp add: try_send_def receiver_handles_def)

lemma po_inv_step:
  assumes inv: "po_inv call cfg a s" and good: "po_good e" and step: "pool_step call cfg e s = Some s'"
  shows "po_inv call cfg a s'"
proof (cases e)
  case (PoAccept ans)
  with step inv good show ?thesis
    by (auto simp: po_inv_def po_good_def pool_offer_def try_send_connected split: sum.splits if_splits)
next
  case PoTake
  with step inv show ?thesis by (auto simp: po_inv_def split: list.splits if_splits)
next
  case (PoFinish i env)
  let ?st = "po_serving s ! i"
  from step PoFinish have i: "i < length (po_serving s)" by (simp split: if_splits)
  then have "new_stream ?st" using inv by (auto simp: po_inv_def list_all_iff)
  then have "answers call a (fst (serve_stream call cfg env (po_app s) ?st))"
    using inv by (intro serve_stream_answers) (simp_all add: po_inv_def)
  with step PoFinish i length_remove_nth [OF i] inv show ?thesis
    by (auto simp: po_inv_def Let_def list_all_remove_nth)
next
  case (PoPanic i)
  with step have i: "i < length (po_serving s)" by (simp split: if_splits)
  with step PoPanic length_remove_nth [OF i] inv show ?thesis
    by (auto simp: po_inv_def list_all_remove_nth)
qed

lemma po_conserves_step:
  assumes step: "pool_step call cfg e s = Some s'"
  shows "po_held s' + po_ended s' = po_held s + po_ended s + po_intake e"
proof (cases e)
  case (PoFinish i env)
  with step have i: "i < length (po_serving s)" by (simp split: if_splits)
  from mset_remove_nth [OF i] step PoFinish i show ?thesis
    by (auto simp: po_held_def po_ended_def po_intake_def Let_def)
next
  case (PoPanic i)
  with step have i: "i < length (po_serving s)" by (simp split: if_splits)
  from mset_remove_nth [OF i] step PoPanic i show ?thesis
    by (auto simp: po_held_def po_ended_def po_intake_def)
qed (use step in \<open>auto simp: po_held_def po_ended_def po_intake_def pool_offer_def
    split: try_send.splits list.splits sum.splits if_splits\<close>)

interpretation po: dispatcher "pool_step call cfg" po_good "po_inv call cfg a" po_intake po_held po_ended
  for call :: "'h call" and cfg a
  by unfold_locales (blast intro: po_inv_step, rule po_conserves_step)

lemma po_inv_start: "counters_unread call \<Longrightarrow> po_inv call cfg a (pool_start cfg a)"
  by (simp add: po_inv_def pool_start_def)

text \<open>
  C33: the thread pool is bounded. In every interleaving of the acceptor with the workers: never
  more streams are served at once than there are workers, never more are queued than the
  capacity, streams leave the queue in the order they entered it, and every accepted stream is
  queued, being served, was served, was rejected because the queue was full, or was abandoned by
  a worker that panicked; each served one got a prefix of its responses, all of them when the
  server closed it. The acceptor never returns: its own handle keeps the channel connected even
  when no worker is left.
\<close>

theorem thread_pool_bounded:
  assumes "counters_unread call" and "list_all po_good es"
    and "run_events (pool_step call cfg) es (pool_start cfg a) = Some s"
  shows "length (po_serving s) \<le> max (cfg_workers cfg) 1 \<and>
    length (po_queue s) \<le> queue_capacity cfg \<and> po_sent s = po_taken s @ po_queue s \<and>
    po_held s + po_ended s = sum_list (map po_intake es) \<and>
    list_all (\<lambda>(st, sl). answers call a sl) (po_served s) \<and> \<not> po_returned s"
proof -
  have "po_inv call cfg a s" using po.run_inv [OF assms(3) po_inv_start [OF assms(1)] assms(2)] .
  moreover have "po_held s + po_ended s = sum_list (map po_intake es)"
    using po.run_conserves [OF assms(3) po_inv_start [OF assms(1)] assms(2)]
    by (simp add: pool_start_def po_held_def po_ended_def)
  ultimately show ?thesis by (auto simp: po_inv_def)
qed

definition demo_po_events :: "po_event list" where
  "demo_po_events = [PoAccept (Inr (stream_new 5 [] [])), PoAccept (Inr (stream_new 6 [] [])), PoTake,
     PoFinish 0 demo_env, PoTake, PoPanic 0]"

theorem thread_pool_bounded_witness:
  "\<exists>s. run_events (pool_step no_call demo_config) demo_po_events (pool_start demo_config empty_app) = Some s \<and>
     length (po_queue s) \<le> 2 \<and> po_held s + po_ended s = {#stream_new 5 [] [], stream_new 6 [] []#}"
proof -
  have "run_events (pool_step no_call demo_config) demo_po_events (pool_start demo_config empty_app) \<noteq> None"
    by code_simp
  then obtain s where s: "run_events (pool_step no_call demo_config) demo_po_events (pool_start demo_config empty_app) = Some s"
    by blast
  have "list_all po_good demo_po_events"
    by (simp add: demo_po_events_def po_good_def new_stream_def stream_new_def)
  from thread_pool_bounded [OF no_call_unread this s] s show ?thesis
    by (simp add: queue_capacity_def demo_config_def) (simp add: demo_po_events_def po_intake_def)
qed

end
