(* ===== verification/Serve.thy ===== *)
theory Serve
  imports Reactor Poll_Loop Uring_Runtime Preforked_Group Thread_Models Server_Main
begin

text \<open>
  The \<open>serve\<close> functions of the eleven models, from the binding of the listener to a point of their
  run, and the installation of the signal handlers (\<open>server/src/sys/signal.rs\<close>). The main theorem
  composes the parts of the server: whichever model serves the application that the binary
  builds, every client gets the responses of the site and nothing else.
\<close>

section \<open>Signals\<close>

datatype handler_fn = SigchldHandler | ShutdownHandler

definition SIGINT :: int where "SIGINT = 2"
definition SIGTERM :: int where "SIGTERM = 15"
definition SIGCHLD :: int where "SIGCHLD = 17"
definition SA_NOCLDSTOP :: "32 word" where "SA_NOCLDSTOP = 1"
definition SA_RESTART :: "32 word" where "SA_RESTART = 0x10000000"

text \<open>
  The process's dispositions, the stored targets of the handlers and what is behind them: the
  child counter and the shutdown flag of the model.
\<close>

record signals =
  sg_actions :: "int \<Rightarrow> (handler_fn \<times> 32 word) option"
  sg_counter :: "64 word option"
  sg_flag :: "bool option"

definition signals_new :: signals where
  "signals_new = \<lparr>sg_actions = (\<lambda>s. None), sg_counter = None, sg_flag = None\<rparr>"

definition install :: "int \<Rightarrow> handler_fn \<Rightarrow> 32 word \<Rightarrow> signals \<Rightarrow> signals" where
  "install signum fn flags s = s\<lparr>sg_actions := (sg_actions s)(signum \<mapsto> (fn, flags))\<rparr>"

definition install_sigchld_reaper :: "64 word \<Rightarrow> signals \<Rightarrow> signals" where
  "install_sigchld_reaper counter s =
     install SIGCHLD SigchldHandler (or SA_RESTART SA_NOCLDSTOP) (s\<lparr>sg_counter := Some counter\<rparr>)"

definition install_shutdown_flag :: "bool \<Rightarrow> signals \<Rightarrow> signals" where
  "install_shutdown_flag flag s =
     install SIGTERM ShutdownHandler 0 (install SIGINT ShutdownHandler 0 (s\<lparr>sg_flag := Some flag\<rparr>))"

text \<open>
  The arrival of a signal; \<open>pids\<close> are those of \<open>waitpid\<close>. \<open>None\<close> when there is no handler: the
  default action of these signals is up to the kernel.
\<close>

definition deliver_signal :: "int \<Rightarrow> int list \<Rightarrow> signals \<Rightarrow> signals option" where
  "deliver_signal signum pids s =
     (case sg_actions s signum of
        None \<Rightarrow> None
      | Some (SigchldHandler, flags) \<Rightarrow> Some (s\<lparr>sg_counter := sigchld_handler pids (sg_counter s)\<rparr>)
      | Some (ShutdownHandler, flags) \<Rightarrow> Some (s\<lparr>sg_flag := shutdown_handler (sg_flag s)\<rparr>))"

text \<open>
  The first lines of \<open>EventLoop::serve\<close>, and of \<open>multireactor\<close> and \<open>io-uring\<close>: the handlers are
  installed and then the flag is reset; \<open>sigs\<close> arrive in between.
\<close>

definition reset_after_install :: "bool \<Rightarrow> int list \<Rightarrow> signals \<Rightarrow> signals option" where
  "reset_after_install flag sigs s =
     (case fold (\<lambda>sig st. case st of None \<Rightarrow> None | Some s \<Rightarrow> deliver_signal sig [] s) sigs
            (Some (install_shutdown_flag flag s)) of
        None \<Rightarrow> None
      | Some s \<Rightarrow> Some (s\<lparr>sg_flag := Some False\<rparr>))"

lemma shutdown_signal_seen:
  assumes "sig \<in> {SIGINT, SIGTERM}"
  shows "\<exists>s'. deliver_signal sig [] (install_shutdown_flag flag s) = Some s' \<and> sg_flag s' = Some True"
  using assms
  by (auto simp: deliver_signal_def install_shutdown_flag_def install_def shutdown_handler_def SIGINT_def SIGTERM_def)

text \<open>A shutdown request between the two lines is forgotten.\<close>

lemma shutdown_signal_lost:
  "\<exists>s. reset_after_install False [SIGTERM] signals_new = Some s \<and> sg_flag s = Some False"
  by (simp add: reset_after_install_def deliver_signal_def install_shutdown_flag_def install_def)

section \<open>The models\<close>

text \<open>
  What the kernel answers while an event-driven model sets up. The shutdown flag that the handlers
  raise is read by the loops at each turn: its value there is part of the turn.
\<close>

record kernel_setup =
  su_bind :: "sock_call \<Rightarrow> io_error option"
  su_nonblocking :: "io_error option"
  su_create :: "io_error option"
  su_add :: "io_error option"
  su_listener :: raw_fd
  su_kern :: kern

definition poll_serve ::
  "'h call \<Rightarrow> poll_abi \<Rightarrow> config \<Rightarrow> kernel_setup \<Rightarrow> tick list \<Rightarrow> 'h app \<Rightarrow> io_error + 'h poll_loop" where
  "poll_serve call abi cfg su ts a =
     (case snd (bind_listener (su_bind su) False) of
        Inl e \<Rightarrow> Inl e
      | Inr u \<Rightarrow>
          (case su_nonblocking su of
             Some e \<Rightarrow> Inl e
           | None \<Rightarrow> Inr (poll_run call abi cfg (su_listener su) ts (poll_start a (su_kern su)))))"

definition run_epoll ::
  "'h call \<Rightarrow> epoll_abi \<Rightarrow> config \<Rightarrow> trigger \<Rightarrow> bool \<Rightarrow> kernel_setup \<Rightarrow> epoll_tick list \<Rightarrow> 'h app \<Rightarrow> io_error + 'h epoll_loop" where
  "run_epoll call abi cfg t drain su ks a =
     (case snd (bind_listener (su_bind su) False) of
        Inl e \<Rightarrow> Inl e
      | Inr u \<Rightarrow>
          (case su_nonblocking su of
             Some e \<Rightarrow> Inl e
           | None \<Rightarrow>
               (case su_create su of
                  Some e \<Rightarrow> Inl e
                | None \<Rightarrow>
                    (case su_add su of
                       Some e \<Rightarrow> Inl e
                     | None \<Rightarrow>
                         Inr (epoll_run call abi cfg (su_listener su) t drain ks
                           (epoll_start a (su_kern su) (su_listener su) t))))))"

definition epoll_lt_serve where
  "epoll_lt_serve call abi cfg su ks a = run_epoll call abi cfg Level False su ks a"

definition epoll_et_serve where
  "epoll_et_serve call abi cfg su ks a = run_epoll call abi cfg Edge True su ks a"

definition reactor_serve ::
  "'h call \<Rightarrow> epoll_abi \<Rightarrow> config \<Rightarrow> kernel_setup \<Rightarrow> epoll_tick list \<Rightarrow> 'h app \<Rightarrow> io_error + 'h epoll_loop" where
  "reactor_serve call abi cfg su ks a =
     (case reactor_new (su_nonblocking su) (su_create su) (su_add su) a (su_kern su) (su_listener su) of
        Inl e \<Rightarrow> Inl e
      | Inr s \<Rightarrow> Inr (reactor_run call abi cfg (su_listener su) ks s))"

definition event_loop_serve ::
  "'h call \<Rightarrow> epoll_abi \<Rightarrow> config \<Rightarrow> kernel_setup \<Rightarrow> epoll_tick list \<Rightarrow> 'h app \<Rightarrow> io_error + 'h epoll_loop" where
  "event_loop_serve call abi cfg su ks a =
     (case snd (bind_listener (su_bind su) False) of
        Inl e \<Rightarrow> Inl e
      | Inr u \<Rightarrow> reactor_serve call abi (shared_config cfg) su ks a)"

text \<open>A worker of \<open>multireactor\<close>; that pinning it to a core may fail does not change what it does.\<close>

definition multireactor_worker ::
  "'h call \<Rightarrow> epoll_abi \<Rightarrow> config \<Rightarrow> kernel_setup \<Rightarrow> epoll_tick list \<Rightarrow> 'h app \<Rightarrow> io_error + 'h epoll_loop" where
  "multireactor_worker call abi cfg su ks a =
     (case snd (bind_listener (su_bind su) True) of
        Inl e \<Rightarrow> Inl e
      | Inr u \<Rightarrow> reactor_serve call abi (shared_config cfg) su ks a)"

text \<open>
  How many threads are started: the first that cannot be spawned ends the loop, and \<open>serve\<close> with its error.
\<close>

definition spawned :: "(nat \<Rightarrow> io_error option) \<Rightarrow> nat \<Rightarrow> nat" where
  "spawned spawn n = length (takeWhile (\<lambda>i. spawn i = None) [0..<n])"

text \<open>The workers that \<open>Multireactor::serve\<close> starts, each with its environment.\<close>

definition multireactor_serve ::
  "'h call \<Rightarrow> epoll_abi \<Rightarrow> config \<Rightarrow> (nat \<Rightarrow> io_error option) \<Rightarrow> (nat \<Rightarrow> kernel_setup \<times> epoll_tick list) \<Rightarrow> 'h app \<Rightarrow>
     (io_error + 'h epoll_loop) list" where
  "multireactor_serve call abi cfg spawn envs a =
     map (\<lambda>i. multireactor_worker call abi cfg (fst (envs i)) (snd (envs i)) a)
       [0..<spawned spawn (multireactor_workers cfg)]"

lemma spawned_le: "spawned spawn n \<le> n"
  using length_takeWhile_le [of "\<lambda>i. spawn i = None" "[0..<n]"] by (simp add: spawned_def)

lemma spawned_less:
  assumes "spawned spawn n < n"
  shows "spawn (spawned spawn n) \<noteq> None"
  using nth_length_takeWhile [of "\<lambda>i. spawn i = None" "[0..<n]"] assms by (simp add: spawned_def)

text \<open>
  \<open>IoUring::serve\<close> with \<open>Runtime::new\<close>: the answers of \<open>uname\<close>, of the binder, and of building the
  ring, mapping the buffers and registering them.
\<close>

definition io_uring_serve ::
  "'h call \<Rightarrow> config \<Rightarrow> io_error option \<Rightarrow> bytes \<Rightarrow> (sock_call \<Rightarrow> io_error option) \<Rightarrow> io_error option list \<Rightarrow>
     raw_fd \<Rightarrow> uring_tick list \<Rightarrow> 'h app \<Rightarrow> io_error + 'h runtime" where
  "io_uring_serve call cfg uname release bind anss listener ts a =
     (case check_kernel uname release of
        Inl e \<Rightarrow> Inl e
      | Inr u \<Rightarrow>
          (case snd (bind_listener bind False) of
             Inl e \<Rightarrow> Inl e
           | Inr u \<Rightarrow>
               (case List.find (\<lambda>r. r \<noteq> None) anss of
                  Some r \<Rightarrow> Inl (the r)
                | None \<Rightarrow> Inr (runtime_run call (shared_config cfg) listener ts (runtime_new a)))))"

section \<open>One run of a model\<close>

text \<open>
  A run of a model up to some point: what the kernel, the clock and the scheduling of processes and
  threads do in it; the pool has whether all its threads could be spawned.
\<close>

datatype serve_run =
  RunIterative "sock_call \<Rightarrow> io_error option" "(io_error + (tcp_stream \<times> serve_env)) list"
| RunForking "sock_call \<Rightarrow> io_error option" "fk_event list"
| RunPreforked "pf_event list"
| RunThreadPerConn "sock_call \<Rightarrow> io_error option" "tp_event list"
| RunThreadPool "sock_call \<Rightarrow> io_error option" bool "po_event list"
| RunPoll poll_abi kernel_setup "tick list"
| RunEpollLt epoll_abi kernel_setup "epoll_tick list"
| RunEpollEt epoll_abi kernel_setup "epoll_tick list"
| RunEventLoop epoll_abi kernel_setup "epoll_tick list"
| RunMultireactor epoll_abi "nat \<Rightarrow> io_error option" "nat \<Rightarrow> kernel_setup \<times> epoll_tick list"
| RunIoUring "io_error option" bytes "sock_call \<Rightarrow> io_error option" "io_error option list" raw_fd "uring_tick list"

fun model_of :: "serve_run \<Rightarrow> model" where
  "model_of (RunIterative bind anss) = Iterative"
| "model_of (RunForking bind es) = Forking"
| "model_of (RunPreforked es) = Preforked"
| "model_of (RunThreadPerConn bind es) = ThreadPerConn"
| "model_of (RunThreadPool bind spawns es) = ThreadPool"
| "model_of (RunPoll abi su ts) = Poll"
| "model_of (RunEpollLt abi su ks) = EpollLt"
| "model_of (RunEpollEt abi su ks) = EpollEt"
| "model_of (RunEventLoop abi su ks) = EventLoop"
| "model_of (RunMultireactor abi spawn envs) = Multireactor"
| "model_of (RunIoUring uname release bind anss listener ts) = IoUring"

text \<open>
  The bytes received and sent on the streams that were served or are being served, and whether
  the connection owes a response.
\<close>

record wire =
  w_rcvd :: bytes
  w_sent :: bytes
  w_owes :: bool

definition slot_wire :: "slot \<Rightarrow> wire" where
  "slot_wire sl = \<lparr>w_rcvd = s_rcvd (slot_stream sl), w_sent = s_sent (slot_stream sl),
     w_owes = (\<not> owes_nothing (slot_conn sl))\<rparr>"

definition uc_wire :: "conn_state \<Rightarrow> wire" where
  "uc_wire c = \<lparr>w_rcvd = uc_rcvd c, w_sent = uc_sent c, w_owes = (\<not> owes_nothing (uc_inner c))\<rparr>"

definition table_wires :: "conn_table \<Rightarrow> wire list" where
  "table_wires t = map (slot_wire \<circ> snd) (hm_entries t)"

definition poll_loop_wires :: "'h poll_loop \<Rightarrow> wire list" where
  "poll_loop_wires s = map slot_wire (pl_closed s) @ table_wires (pl_conns s)"

definition epoll_loop_wires :: "'h epoll_loop \<Rightarrow> wire list" where
  "epoll_loop_wires s = map slot_wire (el_closed s) @ table_wires (el_conns s)"

definition runtime_wires :: "'h runtime \<Rightarrow> wire list" where
  "runtime_wires s = map uc_wire (rt_closed s) @ map (uc_wire \<circ> snd) (hm_entries (rt_conns s))"

text \<open>A blocking model after its listener is bound; no value when its steps are not a run.\<close>

definition bound :: "(sock_call \<Rightarrow> io_error option) \<Rightarrow> 'a option \<Rightarrow> (io_error + 'a) option" where
  "bound bind x = (case snd (bind_listener bind False) of Inl e \<Rightarrow> Some (Inl e) | Inr u \<Rightarrow> map_option Inr x)"

fun serve_wires :: "'h call \<Rightarrow> config \<Rightarrow> 'h app \<Rightarrow> serve_run \<Rightarrow> (io_error + wire list) option" where
  "serve_wires call cfg a (RunIterative bind anss) =
     bound bind (Some (map slot_wire (snd (iterative_serve call cfg anss a))))"
| "serve_wires call cfg a (RunForking bind es) =
     bound bind (map_option (\<lambda>s. map (slot_wire \<circ> snd) (fk_served s))
       (run_events (forking_step call cfg) es (forking_start a)))"
| "serve_wires call cfg a (RunPreforked es) =
     map_option (\<lambda>s. Inr (map slot_wire (pf_served s))) (run_events (preforked_step call cfg) es (preforked_start cfg a))"
| "serve_wires call cfg a (RunThreadPerConn bind es) =
     bound bind (map_option (\<lambda>s. map (slot_wire \<circ> snd) (tp_served s))
       (run_events (tpc_step call (shared_config cfg)) es (tpc_start (shared_config cfg) a)))"
| "serve_wires call cfg a (RunThreadPool bind spawns es) =
     bound bind (if \<not> spawns then Some [] else map_option (\<lambda>s. map (slot_wire \<circ> snd) (po_served s))
       (run_events (pool_step call (shared_config cfg)) es (pool_start (shared_config cfg) a)))"
| "serve_wires call cfg a (RunPoll abi su ts) =
     Some (map_sum id poll_loop_wires (poll_serve call abi cfg su ts a))"
| "serve_wires call cfg a (RunEpollLt abi su ks) =
     Some (map_sum id epoll_loop_wires (epoll_lt_serve call abi cfg su ks a))"
| "serve_wires call cfg a (RunEpollEt abi su ks) =
     Some (map_sum id epoll_loop_wires (epoll_et_serve call abi cfg su ks a))"
| "serve_wires call cfg a (RunEventLoop abi su ks) =
     Some (map_sum id epoll_loop_wires (event_loop_serve call abi cfg su ks a))"
| "serve_wires call cfg a (RunMultireactor abi spawn envs) =
     Some (Inr (concat (map (\<lambda>r. case r of Inl e \<Rightarrow> [] | Inr s \<Rightarrow> epoll_loop_wires s)
       (multireactor_serve call abi cfg spawn envs a))))"
| "serve_wires call cfg a (RunIoUring uname release bind anss listener ts) =
     Some (map_sum id runtime_wires (io_uring_serve call cfg uname release bind anss listener ts a))"

text \<open>What the kernel promises: a stream it hands out is new, and completions belong to submissions.\<close>

fun run_ok :: "'h call \<Rightarrow> config \<Rightarrow> 'h app \<Rightarrow> serve_run \<Rightarrow> bool" where
  "run_ok call cfg a (RunIterative bind anss) \<longleftrightarrow> list_all new_stream (accepted anss)"
| "run_ok call cfg a (RunForking bind es) \<longleftrightarrow> cfg_max_connections cfg < 2 ^ 64 \<and> list_all fk_good es"
| "run_ok call cfg a (RunPreforked es) \<longleftrightarrow> list_all pf_good es"
| "run_ok call cfg a (RunThreadPerConn bind es) \<longleftrightarrow> list_all tp_good es"
| "run_ok call cfg a (RunThreadPool bind spawns es) \<longleftrightarrow> list_all po_good es"
| "run_ok call cfg a (RunPoll abi su ts) \<longleftrightarrow> list_all (\<lambda>t. new_streams (t_kern t)) ts"
| "run_ok call cfg a (RunEpollLt abi su ks) \<longleftrightarrow> new_streams (su_kern su) \<and> list_all (\<lambda>k. new_streams (et_kern k)) ks"
| "run_ok call cfg a (RunEpollEt abi su ks) \<longleftrightarrow> new_streams (su_kern su) \<and> list_all (\<lambda>k. new_streams (et_kern k)) ks"
| "run_ok call cfg a (RunEventLoop abi su ks) \<longleftrightarrow> new_streams (su_kern su) \<and> list_all (\<lambda>k. new_streams (et_kern k)) ks"
| "run_ok call cfg a (RunMultireactor abi spawn envs) \<longleftrightarrow>
     list_all (\<lambda>i. new_streams (su_kern (fst (envs i))) \<and> list_all (\<lambda>k. new_streams (et_kern k)) (snd (envs i)))
       [0..<multireactor_workers cfg]"
| "run_ok call cfg a (RunIoUring uname release bind anss listener ts) \<longleftrightarrow>
     fd_ok listener \<and> ticks_ok call cfg listener ts (arm_accept listener (runtime_new a))"

section \<open>Every model serves the application\<close>

definition wire_ok :: "(request \<Rightarrow> response) \<Rightarrow> wire \<Rightarrow> bool" where
  "wire_ok h w \<longleftrightarrow>
     prefix (w_sent w) (wire_spec h (w_rcvd w)) \<and> (\<not> w_owes w \<longrightarrow> w_sent w = wire_spec h (w_rcvd w))"

lemma answers_wire: "answers call a sl \<Longrightarrow> wire_ok (app_handle call a) (slot_wire sl)"
  by (simp add: answers_def wire_ok_def slot_wire_def)

lemma answers_wires:
  "list_all (answers call a) sls \<Longrightarrow> list_all (wire_ok (app_handle call a)) (map slot_wire sls)"
  "list_all (\<lambda>(st, sl). answers call a sl) served \<Longrightarrow>
     list_all (wire_ok (app_handle call a)) (map (slot_wire \<circ> snd) served)"
  by (auto simp: list_all_iff answers_wire)

lemma loop_ok_wires:
  assumes "loop_ok call a cap t w"
  shows "list_all (wire_ok (app_handle call a)) (table_wires t)"
proof -
  have inv: "hm_invar t" using assms by (simp add: loop_ok_def wf_table_def)
  have "wire_ok (app_handle call a) (slot_wire sl)" if "(f, sl) \<in> set (hm_entries t)" for f sl
  proof -
    have "table_get t f = Some sl" using that hm.entries_get [OF inv] by (simp add: table_get_def)
    then have "linked call a sl" using assms by (simp add: loop_ok_def slot_ok_def)
    then show ?thesis by (intro answers_wire linked_answers)
  qed
  then show ?thesis by (auto simp: table_wires_def list_all_iff)
qed

lemma epoll_wires:
  assumes "counters_unread call" and "new_streams k" and "list_all (\<lambda>k. new_streams (et_kern k)) ks"
  shows "list_all (wire_ok (app_handle call a))
    (epoll_loop_wires (epoll_run call abi cfg listener t drain ks (epoll_start a k listener t)))"
proof -
  have "epoll_ok call a (cfg_max_connections cfg) listener t
      (epoll_run call abi cfg listener t drain ks (epoll_start a k listener t))"
    by (rule epoll_ok_run [OF assms(1,3) epoll_ok_start [OF assms(2)]])
  then show ?thesis using loop_ok_wires answers_wires(1) by (auto simp: epoll_ok_def epoll_loop_wires_def)
qed

lemma reactor_serve_wires:
  assumes "counters_unread call" and "new_streams (su_kern su)" and "list_all (\<lambda>k. new_streams (et_kern k)) ks"
    and "reactor_serve call abi cfg su ks a = Inr s"
  shows "list_all (wire_ok (app_handle call a)) (epoll_loop_wires s)"
proof -
  have "s = epoll_run call abi cfg (su_listener su) Edge True ks (epoll_start a (su_kern su) (su_listener su) Edge)"
    using assms(4)
    by (auto simp: reactor_serve_def reactor_new_def reactor_run_eq epoll_start_def split: option.splits sum.splits)
  then show ?thesis using epoll_wires [OF assms(1-3)] by simp
qed

lemma uring_wires:
  assumes "counters_unread call" and "fd_ok listener"
    and "ticks_ok call cfg listener ts (arm_accept listener (runtime_new a))"
  shows "list_all (wire_ok (app_handle call a)) (runtime_wires (runtime_run call cfg listener ts (runtime_new a)))"
proof -
  let ?s = "runtime_run call cfg listener ts (runtime_new a)"
  have inv: "rt_inv call a (cfg_max_connections cfg) {} ?s" by (rule runtime_run_inv [OF assms])
  have wire: "wire_ok (app_handle call a) (uc_wire c)" if "uc_run call a c" for c
    using uc_run_answers [OF that] by (simp add: uc_answers_def wire_ok_def uc_wire_def)
  have "wire_ok (app_handle call a) (uc_wire c)" if "(f, c) \<in> set (hm_entries (rt_conns ?s))" for f c
  proof -
    have "hm_invar (rt_conns ?s)" using inv by (simp add: rt_inv_def)
    from hm.entries_get [OF this] that have "hm_get (rt_conns ?s) f = Some c" by simp
    from rt_inv_Some [OF inv this] show ?thesis by (intro wire) (simp add: conn_ok_def uc_run_def)
  qed
  then show ?thesis using wire rt_inv_rest(4) [OF inv] by (auto simp: runtime_wires_def list_all_iff)
qed

lemma preforked_wires:
  assumes "counters_unread call" and "list_all pf_good es"
    and "run_events (preforked_step call cfg) es (preforked_start cfg a) = Some s"
  shows "list_all (wire_ok (app_handle call a)) (map slot_wire (pf_served s))"
  using preforked_group_serves [OF assms(3,1,2)] by (intro answers_wires) simp

lemma list_all_concat_map: "(\<And>x. x \<in> set xs \<Longrightarrow> list_all P (f x)) \<Longrightarrow> list_all P (concat (map f xs))"
  by (induction xs) auto

lemma iterative_wires:
  assumes "counters_unread call" and "list_all new_stream (accepted anss)"
  shows "list_all (wire_ok (app_handle call a)) (map slot_wire (snd (iterative_serve call cfg anss a)))"
  using worker_fold_ok [OF assms(1) _ assms(2), of a "[]" "(a, [])" cfg]
  by (intro answers_wires) (simp add: iterative_serve_def iterative_turn_eq turns_ok_def)

lemma forking_wires:
  assumes "counters_unread call" and "cfg_max_connections cfg < 2 ^ 64" and "list_all fk_good es"
    and "run_events (forking_step call cfg) es (forking_start a) = Some s"
  shows "list_all (wire_ok (app_handle call a)) (map (slot_wire \<circ> snd) (fk_served s))"
  using fk.run_inv [OF assms(4) fk_inv_start [OF assms(1,2)] assms(3)]
  by (intro answers_wires) (simp add: fk_inv_def fk_streams_ok_def)

lemma tpc_wires:
  assumes "counters_unread call" and "list_all tp_good es"
    and "run_events (tpc_step call cfg) es (tpc_start cfg a) = Some s"
  shows "list_all (wire_ok (app_handle call a)) (map (slot_wire \<circ> snd) (tp_served s))"
  using tp.run_inv [OF assms(3) tp_inv_start [OF assms(1)] assms(2)]
  by (intro answers_wires) (simp add: tp_inv_def)

lemma pool_wires:
  assumes "counters_unread call" and "list_all po_good es"
    and "run_events (pool_step call cfg) es (pool_start cfg a) = Some s"
  shows "list_all (wire_ok (app_handle call a)) (map (slot_wire \<circ> snd) (po_served s))"
  using po.run_inv [OF assms(3) po_inv_start [OF assms(1)] assms(2)]
  by (intro answers_wires) (simp add: po_inv_def)

lemma poll_wires:
  assumes "counters_unread call" and "list_all (\<lambda>t. new_streams (t_kern t)) ts"
  shows "list_all (wire_ok (app_handle call a)) (poll_loop_wires (poll_run call abi cfg listener ts (poll_start a k)))"
  using poll_run_inv [OF assms, of a cfg "poll_start a k" abi listener] loop_ok_wires answers_wires(1)
  by (auto simp: poll_start_def loop_ok_new poll_loop_wires_def)

lemma multireactor_wires:
  assumes "counters_unread call" and "run_ok call cfg a (RunMultireactor abi spawn envs)"
  shows "list_all (wire_ok (app_handle call a)) (concat (map (\<lambda>r. case r of Inl e \<Rightarrow> [] | Inr s \<Rightarrow> epoll_loop_wires s)
    (multireactor_serve call abi cfg spawn envs a)))"
proof (rule list_all_concat_map)
  fix r assume "r \<in> set (multireactor_serve call abi cfg spawn envs a)"
  then obtain i where "i < spawned spawn (multireactor_workers cfg)"
    and r: "r = multireactor_worker call abi cfg (fst (envs i)) (snd (envs i)) a"
    by (auto simp: multireactor_serve_def)
  then have i: "i < multireactor_workers cfg" using less_le_trans [OF _ spawned_le] by blast
  have "new_streams (su_kern (fst (envs i)))" "list_all (\<lambda>k. new_streams (et_kern k)) (snd (envs i))"
    using assms(2) i by (simp_all add: list_all_length)
  from reactor_serve_wires [OF assms(1) this]
  show "list_all (wire_ok (app_handle call a)) (case r of Inl e \<Rightarrow> [] | Inr s \<Rightarrow> epoll_loop_wires s)"
    by (simp add: r multireactor_worker_def split: sum.split)
qed

lemma bound_Some: "bound bind x = Some (Inr y) \<Longrightarrow> x = Some y"
  by (auto simp: bound_def split: sum.splits)

lemma map_sum_Inr: "map_sum f g x = Inr y \<longleftrightarrow> (\<exists>z. x = Inr z \<and> y = g z)"
  by (cases x) auto

lemma serve_wires_ok:
  assumes un: "counters_unread call" and ok: "run_ok call cfg a r" and run: "serve_wires call cfg a r = Some (Inr ws)"
  shows "list_all (wire_ok (app_handle call a)) ws"
  using ok run
  by (cases r)
    (auto simp: map_sum_Inr poll_serve_def epoll_lt_serve_def epoll_et_serve_def run_epoll_def event_loop_serve_def
    io_uring_serve_def shared_config_id dest!: bound_Some split: sum.splits option.splits if_splits
    intro: iterative_wires [OF un] forking_wires [OF un] preforked_wires [OF un] tpc_wires [OF un] pool_wires [OF un] poll_wires [OF un]
      epoll_wires [OF un] reactor_serve_wires [OF un] multireactor_wires [OF un] uring_wires [OF un])

section \<open>Properties\<close>

text \<open>The site: what the binary answers, as a function of the files of its assets directory.\<close>

definition site :: "listing \<Rightarrow> request \<Rightarrow> response" where
  "site l r =
     (if rq_method r = Unsupported then response_text METHOD_NOT_ALLOWED ''405 Method Not Allowed''
      else if segments (rq_path r) = [] then file_response l ''index.html''
      else if segments (rq_path r) = [''static'', ''style.css''] then file_response l ''static/style.css''
      else response_text NOT_FOUND ''404 Not Found'')"

lemma site_handle: "build_app fs c = Inr a \<Longrightarrow> app_handle server_call a = site (fs (cli_assets_dir c))"
  using site_response [OF _ app_same_simps(1)] by (intro ext) (simp add: site_def)

text \<open>
  C1: all models serve the same site. For the application the binary builds from the assets
  directory, and every run of any of the eleven models, up to any point of it, in which the
  kernel keeps its promises, each stream that was served or is being served has been sent a
  prefix of the bytes that its received bytes call for: the encoded responses of the files of
  the directory, one for each request, in order, and never a byte of another client's response;
  and it has been sent all of them when its connection owes none, because it was closed after the
  last response or has no more than a part of a request left to answer.
\<close>

theorem every_model_serves_the_site:
  assumes "build_app fs c = Inr a" and "run_ok server_call cfg a r"
    and "serve_wires server_call cfg a r = Some (Inr ws)"
  shows "list_all (\<lambda>w. prefix (w_sent w) (wire_spec (site (fs (cli_assets_dir c))) (w_rcvd w)) \<and>
      (w_owes w \<or> w_sent w = wire_spec (site (fs (cli_assets_dir c))) (w_rcvd w))) ws"
proof -
  show ?thesis
    using serve_wires_ok [OF server_call_unread assms(2,3)] site_handle [OF assms(1)]
    by (auto simp: list_all_iff wire_ok_def)
qed

definition demo_run :: serve_run where
  "demo_run = RunIterative (\<lambda>c. None)
     [Inr (stream_new 5 [RdData (''GET / HTTP/1.0'' @ CRLF @ CRLF)] [WrOk 30, WrOk 1000], demo_env)]"

theorem every_model_serves_the_site_witness:
  "\<exists>a ws. build_app (\<lambda>d. demo_site) cli_default = Inr a \<and>
     serve_wires server_call demo_config a demo_run = Some (Inr ws) \<and> ws \<noteq> [] \<and>
     list_all (\<lambda>w. prefix (w_sent w) (wire_spec (site demo_site) (w_rcvd w)) \<and>
       (w_owes w \<or> w_sent w = wire_spec (site demo_site) (w_rcvd w))) ws"
proof -
  obtain a where a: "build_app (\<lambda>d. demo_site) cli_default = Inr a" using demo_site_builds by blast
  have ok: "run_ok server_call demo_config a demo_run"
    by (simp add: demo_run_def new_stream_def stream_new_def)
  obtain ws where ws: "serve_wires server_call demo_config a demo_run = Some (Inr ws)" "ws \<noteq> []"
    by (simp add: demo_run_def bound_def bind_listener_def iterative_serve_def iterative_turn_def Let_def)
  from every_model_serves_the_site [OF a ok ws(1)] a ws show ?thesis by auto
qed

text \<open>
  The limit on connections is one of each reactor: two reactors that were given a limit of two
  hold four connections at once.
\<close>

definition demo_setup :: kernel_setup where
  "demo_setup = \<lparr>su_bind = (\<lambda>c. None), su_nonblocking = None, su_create = None, su_add = None, su_listener = 3,
     su_kern = idle_kern\<rparr>"

theorem multireactor_limit_per_reactor:
  "\<exists>ws. serve_wires no_call (demo_config\<lparr>cfg_workers := 2\<rparr>) empty_app
       (RunMultireactor linux_epoll (\<lambda>i. None) (\<lambda>i. (demo_setup, [demo_epoll_tick\<lparr>et_kern := demo_accepts [7, 8]\<rparr>]))) = Some (Inr ws) \<and>
     cfg_max_connections demo_config = 2 \<and> length ws = 4"
proof -
  let ?w = "serve_wires no_call (demo_config\<lparr>cfg_workers := 2\<rparr>) empty_app
       (RunMultireactor linux_epoll (\<lambda>i. None) (\<lambda>i. (demo_setup, [demo_epoll_tick\<lparr>et_kern := demo_accepts [7, 8]\<rparr>])))"
  have "map_option (map_sum id length) ?w = Some (Inr 4)" by code_simp
  then have "\<exists>ws. ?w = Some (Inr ws) \<and> length ws = 4" by (auto simp: map_sum_def split: sum.splits)
  then show ?thesis by (simp add: demo_config_def)
qed

end
