(* ===== verification/Loadgen_Time.thy ===== *)
theory Loadgen_Time
  imports Conn Complex_Main "HOL-Library.Log_Nat"
begin

text \<open>
  The arithmetic behind the schedule of the load generator: the operations on \<open>f64\<close>, \<open>Duration\<close> and
  \<open>Instant\<close> that \<open>run\<close> of \<open>loadgen/src/main.rs\<close> uses. A finite double is a rational number, and
  every operation rounds its exact result to 53 significant bits, ties to even. The range of the
  exponent is not modelled: a quotient \<open>1.0 / rate\<close> outside of it is beyond the largest duration
  or far below half a nanosecond, and the products of the schedule lie well inside it.
\<close>

section \<open>Rounding\<close>

definition round_even :: "rat \<Rightarrow> int" where
  "round_even x =
     (let f = \<lfloor>x\<rfloor>; r = x - of_int f in if r < 1 / 2 \<or> (r = 1 / 2 \<and> even f) then f else f + 1)"

text \<open>The exponent of a positive number: \<open>2 ^ e \<le> x < 2 ^ (e + 1)\<close>.\<close>

definition expo :: "rat \<Rightarrow> int" where
  "expo x =
     (let k = bitlen (fst (quotient_of x)) - bitlen (snd (quotient_of x)) in
      if 2 powi k \<le> x then k else k - 1)"

definition f64_round :: "rat \<Rightarrow> rat" where
  "f64_round x =
     (if x \<le> 0 then 0
      else let u = 2 powi (expo x - 52) in of_int (round_even (x / u)) * u)"

lemma round_even_error: "\<bar>of_int (round_even x) - x\<bar> \<le> 1 / 2"
proof -
  have "of_int \<lfloor>x\<rfloor> \<le> x" "x < of_int \<lfloor>x\<rfloor> + 1" by linarith+
  then show ?thesis by (auto simp: round_even_def Let_def)
qed

lemma round_even_unique:
  assumes "\<bar>x - of_int n\<bar> < 1 / 2"
  shows "round_even x = n"
proof -
  have "\<bar>of_int (round_even x) - (of_int n :: rat)\<bar> < 1"
    using round_even_error [of x] assms by linarith
  then have "\<bar>(of_int (round_even x - n) :: rat)\<bar> < 1" by simp
  then have "\<bar>round_even x - n\<bar> < 1" by (metis of_int_abs of_int_less_1_iff)
  then show ?thesis by simp
qed

lemma round_even_int [simp]: "round_even (of_int n) = n"
  by (rule round_even_unique) simp

lemma expo_bounds:
  assumes "0 < x"
  shows "2 powi expo x \<le> x" "x < 2 powi (expo x + 1)"
proof -
  obtain n d where q: "quotient_of x = (n, d)" by force
  have d: "0 < d" using quotient_of_denom_pos [OF q] .
  have x: "x = of_int n / of_int d" using quotient_of_div [OF q] .
  have n: "0 < n" using assms d x by (simp add: zero_less_divide_iff)
  let ?k = "bitlen n - bitlen d"
  have pw: "(2 :: rat) powi b = of_int (2 ^ nat b)" if "0 \<le> b" for b
    using that by (simp add: power_int_def)
  have bn: "0 < bitlen n" "0 < bitlen d" using n d by (simp_all add: bitlen_alt_def)
  have ln: "2 powi (bitlen n - 1) \<le> (of_int n :: rat)" "(of_int n :: rat) < 2 powi bitlen n"
    and ld: "2 powi (bitlen d - 1) \<le> (of_int d :: rat)" "(of_int d :: rat) < 2 powi bitlen d"
    using bitlen_bounds [OF n] bitlen_bounds [OF d] bn by (simp_all add: pw del: of_int_power)
  have d0: "0 < (of_int d :: rat)" using d by simp
  have "2 powi (?k - 1) * of_int d \<le> 2 powi (?k - 1) * (2 powi bitlen d :: rat)"
    using ld(2) by simp
  also have "\<dots> = 2 powi (bitlen n - 1)" by (simp flip: power_int_add)
  also have "\<dots> \<le> of_int n" by (rule ln)
  finally have lo: "2 powi (?k - 1) \<le> x" using d0 by (simp add: x pos_le_divide_eq)
  have "of_int n < (2 powi bitlen n :: rat)" by (rule ln)
  also have "\<dots> = 2 powi (?k + 1) * 2 powi (bitlen d - 1)" by (simp flip: power_int_add)
  also have "\<dots> \<le> 2 powi (?k + 1) * of_int d" using ld(1) by simp
  finally have "x < 2 powi (?k + 1)" using d0 by (simp add: x pos_divide_less_eq)
  with lo show "2 powi expo x \<le> x" "x < 2 powi (expo x + 1)"
    by (auto simp: expo_def q Let_def)
qed

text \<open>The relative error is at most half a unit in the last place.\<close>

lemma f64_round_error:
  assumes "0 \<le> x"
  shows "\<bar>f64_round x - x\<bar> \<le> x / 2 ^ 53"
proof (cases "x = 0")
  case False
  with assms have x: "0 < x" by simp
  define u :: rat where "u = 2 powi (expo x - 52)"
  have u: "0 < u" by (simp add: u_def)
  have "\<bar>f64_round x - x\<bar> = \<bar>of_int (round_even (x / u)) - x / u\<bar> * u"
    using x u by (simp add: f64_round_def u_def [symmetric] abs_mult_pos left_diff_distrib)
  also have "\<dots> \<le> 1 / 2 * u"
    using round_even_error [of "x / u"] u by (intro mult_right_mono) simp_all
  also have "\<dots> = 2 powi expo x / 2 ^ 53" by (simp add: u_def power_int_diff)
  also have "\<dots> \<le> x / 2 ^ 53" using expo_bounds(1) [OF x] by (simp add: divide_right_mono)
  finally show ?thesis .
qed (simp add: f64_round_def)

lemma f64_round_nonneg: "0 \<le> x \<Longrightarrow> 0 \<le> f64_round x"
proof -
  assume x: "0 \<le> x"
  have "x / 2 ^ 53 \<le> x" using x by simp
  with f64_round_error [OF x] show ?thesis by linarith
qed

text \<open>A number with at most 53 significant bits is exact.\<close>

lemma f64_round_dyadic:
  assumes "n < 2 ^ 53"
  shows "f64_round (of_nat n / 2 ^ m) = of_nat n / 2 ^ m"
proof (cases "n = 0")
  case False
  let ?x = "of_nat n / 2 ^ m :: rat"
  have x: "0 < ?x" using False by simp
  have "?x < of_nat (2 ^ 53) / 2 ^ m" using assms by (intro divide_strict_right_mono) (simp_all only: of_nat_less_iff, simp)
  also have "of_nat (2 ^ 53) / 2 ^ m = (2 powi (53 - int m) :: rat)" by (simp add: power_int_diff)
  finally have "2 powi expo ?x < (2 powi (53 - int m) :: rat)" using expo_bounds(1) [OF x] by (rule le_less_trans [rotated])
  then have "\<not> 53 - int m \<le> expo ?x" using power_int_increasing [of "53 - int m" "expo ?x" "2 :: rat"] by linarith
  then have "0 \<le> 52 - int m - expo ?x" by linarith
  then obtain k where "52 - int m - expo ?x = int k" using zero_le_imp_eq_int by blast
  then have k: "expo ?x - 52 = - (int m + int k)" by linarith
  have "?x / 2 powi (expo ?x - 52) = (of_int (int n * 2 ^ k) :: rat)"
    unfolding k power_int_minus by (simp add: power_int_add field_simps)
  then have "of_int (round_even (?x / 2 powi (expo ?x - 52))) = ?x / (2 powi (expo ?x - 52) :: rat)"
    by (metis round_even_int)
  then show ?thesis using x by (simp add: f64_round_def Let_def)
qed (simp add: f64_round_def)

lemma f64_round_nat: "n < 2 ^ 53 \<Longrightarrow> f64_round (of_nat n) = of_nat n"
  using f64_round_dyadic [of n 0] by simp

section \<open>Doubles, durations and instants\<close>

datatype f64 = NaN | NegInf | PosInf | Finite rat

definition f64_le_zero :: "f64 \<Rightarrow> bool" where
  "f64_le_zero x = (case x of NaN \<Rightarrow> False | NegInf \<Rightarrow> True | PosInf \<Rightarrow> False | Finite q \<Rightarrow> q \<le> 0)"

text \<open>\<open>1.0 / x\<close> for an \<open>x\<close> that is not negative.\<close>

definition f64_recip :: "f64 \<Rightarrow> f64" where
  "f64_recip x =
     (case x of
        NaN \<Rightarrow> NaN | NegInf \<Rightarrow> Finite 0 | PosInf \<Rightarrow> Finite 0
      | Finite q \<Rightarrow> if q = 0 then PosInf else Finite (f64_round (1 / q)))"

text \<open>\<open>Duration::from_secs_f64\<close>: to the nearest nanosecond; \<open>None\<close> is its panic.\<close>

definition from_secs_f64 :: "f64 \<Rightarrow> duration option" where
  "from_secs_f64 x =
     (case x of
        Finite q \<Rightarrow>
          if 0 \<le> q \<and> round_even (q * 10 ^ 9) < 2 ^ 64 * 10 ^ 9 then Some (nat (round_even (q * 10 ^ 9))) else None
      | _ \<Rightarrow> None)"

definition as_secs_f64 :: "duration \<Rightarrow> rat" where
  "as_secs_f64 d = f64_round (f64_round (of_nat (d div 10 ^ 9)) + f64_round (of_nat (d mod 10 ^ 9) / 10 ^ 9))"

definition mul_f64 :: "duration \<Rightarrow> rat \<Rightarrow> duration option" where
  "mul_f64 d r = from_secs_f64 (Finite (f64_round (r * as_secs_f64 d)))"

text \<open>\<open>Instant + Duration\<close>: the seconds are a signed 64-bit number.\<close>

definition INSTANT_LIMIT :: nat where
  "INSTANT_LIMIT = 2 ^ 63 * 10 ^ 9"

definition instant_add :: "instant \<Rightarrow> duration \<Rightarrow> instant option" where
  "instant_add t d = (if t + d < INSTANT_LIMIT then Some (t + d) else None)"

lemma as_secs_f64_error:
  assumes "d < 2 ^ 53 * 10 ^ 9"
  shows "\<bar>as_secs_f64 d - of_nat d / 10 ^ 9\<bar> \<le> of_nat d / 10 ^ 9 * (3 / 2 ^ 53)"
proof -
  define s :: rat where "s = of_nat (d div 10 ^ 9)"
  define n :: rat where "n = of_nat (d mod 10 ^ 9) / 10 ^ 9"
  have "d div 10 ^ 9 < 2 ^ 53" using assms by (simp add: div_less_iff_less_mult)
  then have s: "f64_round s = s" by (simp add: s_def f64_round_nat)
  have "d = d div 10 ^ 9 * 10 ^ 9 + d mod 10 ^ 9" by simp
  then have "(of_nat d :: rat) = of_nat (d div 10 ^ 9) * 10 ^ 9 + of_nat (d mod 10 ^ 9)"
    by (metis (no_types, lifting) of_nat_add of_nat_mult of_nat_numeral of_nat_power)
  then have d: "of_nat d / 10 ^ 9 = s + n" by (simp add: s_def n_def add_divide_distrib)
  have nn: "0 \<le> s" "0 \<le> n" by (simp_all add: s_def n_def)
  have e1: "\<bar>f64_round n - n\<bar> \<le> n / 2 ^ 53" by (rule f64_round_error) (rule nn)
  have "0 \<le> s + f64_round n" using nn f64_round_nonneg by simp
  moreover have "as_secs_f64 d = f64_round (s + f64_round n)"
    by (simp only: as_secs_f64_def s_def [symmetric] n_def [symmetric] s)
  ultimately have e2: "\<bar>as_secs_f64 d - (s + f64_round n)\<bar> \<le> (s + f64_round n) / 2 ^ 53"
    using f64_round_error by simp
  have "\<bar>as_secs_f64 d - (s + n)\<bar> \<le> (s + f64_round n) / 2 ^ 53 + n / 2 ^ 53" using e1 e2 by linarith
  also have "\<dots> \<le> (s + 2 * n) / 2 ^ 53 + n / 2 ^ 53"
  proof -
    have "n / 2 ^ 53 \<le> n" using nn by simp
    with e1 have "s + f64_round n \<le> s + 2 * n" by linarith
    then show ?thesis by (intro add_right_mono divide_right_mono) simp_all
  qed
  also have "\<dots> \<le> (s + n) * (3 / 2 ^ 53)" using nn by (simp add: field_simps)
  finally show ?thesis by (simp only: d)
qed

lemma f64_mul_error:
  assumes "\<bar>a - p\<bar> \<le> p * (3 / 2 ^ 53)" and "0 \<le> a" and "0 \<le> k"
  shows "\<bar>f64_round (k * a) - k * p\<bar> \<le> k * p * ((1 + 3 / 2 ^ 53) / 2 ^ 53 + 3 / 2 ^ 53)"
proof -
  have "\<bar>k * a - k * p\<bar> = k * \<bar>a - p\<bar>" using assms(3) by (simp add: abs_mult flip: right_diff_distrib)
  also have "\<dots> \<le> k * (p * (3 / 2 ^ 53))" by (intro mult_left_mono assms)
  finally have e3: "\<bar>k * a - k * p\<bar> \<le> k * p * (3 / 2 ^ 53)" by (simp add: mult.assoc)
  then have "k * a \<le> k * p + k * p * (3 / 2 ^ 53)" by linarith
  then have "k * a / 2 ^ 53 \<le> (k * p + k * p * (3 / 2 ^ 53)) / 2 ^ 53" by (rule divide_right_mono) simp
  moreover have "\<bar>f64_round (k * a) - k * a\<bar> \<le> k * a / 2 ^ 53"
    using assms by (intro f64_round_error mult_nonneg_nonneg)
  ultimately have "\<bar>f64_round (k * a) - k * p\<bar> \<le> (k * p + k * p * (3 / 2 ^ 53)) / 2 ^ 53 + k * p * (3 / 2 ^ 53)"
    using e3 by linarith
  also have "\<dots> = k * p * ((1 + 3 / 2 ^ 53) / 2 ^ 53 + 3 / 2 ^ 53)" by (simp add: field_simps)
  finally show ?thesis .
qed

text \<open>
  Multiples of a period of at most \<open>2 ^ 50\<close> nanoseconds (thirteen days) are exact: the errors of the
  three roundings stay below half a nanosecond.
\<close>

lemma mul_f64_exact:
  assumes "i < 2 ^ 53" and "i * d < 2 ^ 50" and "d < 2 ^ 50"
  shows "mul_f64 d (f64_round (of_nat i)) = Some (i * d)"
proof -
  let ?eps = "(1 + 3 / 2 ^ 53) / 2 ^ 53 + 3 / 2 ^ 53 :: rat"
  define b where "b = f64_round (of_nat i * as_secs_f64 d)"
  define c :: rat where "c = of_nat i * (of_nat d / 10 ^ 9)"
  have "d < 2 ^ 53 * 10 ^ 9" using assms(3) by simp
  moreover have a: "0 \<le> as_secs_f64 d" by (simp add: as_secs_f64_def f64_round_nonneg)
  ultimately have bc: "\<bar>b - c\<bar> \<le> c * ?eps"
    unfolding b_def c_def by (intro f64_mul_error as_secs_f64_error) simp_all
  have c9: "c * 10 ^ 9 = of_nat (i * d)" by (simp add: c_def)
  also have "(of_nat (i * d) :: rat) \<le> of_nat (2 ^ 50 - 1)" unfolding of_nat_le_iff using assms(2) by simp
  finally have c: "c * 10 ^ 9 \<le> 2 ^ 50 - 1" by simp
  have "b * 10 ^ 9 - c * 10 ^ 9 = (b - c) * 10 ^ 9" by (simp add: left_diff_distrib)
  then have "\<bar>b * 10 ^ 9 - c * 10 ^ 9\<bar> = \<bar>b - c\<bar> * 10 ^ 9" by (simp only: abs_mult) simp
  also have "\<dots> \<le> c * ?eps * 10 ^ 9" using bc by (rule mult_right_mono) simp
  also have "\<dots> = c * 10 ^ 9 * ?eps" by (simp only: mult_ac)
  also have "\<dots> \<le> (2 ^ 50 - 1) * ?eps" using c by (rule mult_right_mono) simp
  also have "\<dots> < 1 / 2" by simp
  finally have "\<bar>b * 10 ^ 9 - of_int (int (i * d))\<bar> < 1 / 2" unfolding c9 of_int_of_nat_eq .
  then have "round_even (b * 10 ^ 9) = int (i * d)" by (rule round_even_unique)
  moreover have "0 \<le> b" unfolding b_def using a by (intro f64_round_nonneg) simp
  moreover have "int (i * d) < int (2 ^ 50)" using assms(2) by (simp only: of_nat_less_iff)
  moreover have "f64_round (of_nat i) = (of_nat i :: rat)" by (rule f64_round_nat) (rule assms)
  ultimately show ?thesis
    by (simp add: mul_f64_def from_secs_f64_def b_def [symmetric] del: of_nat_mult)
qed

lemma mul_f64_zero: "mul_f64 0 r = Some 0"
  by (simp add: mul_f64_def from_secs_f64_def as_secs_f64_def f64_round_def round_even_def)

lemma period_zero:
  assumes "3 * 10 ^ 9 \<le> q"
  shows "from_secs_f64 (f64_recip (Finite q)) = Some 0"
proof -
  have q: "0 < q" using assms by simp
  have "f64_round (1 / q) \<le> 1 / q + 1 / q / 2 ^ 53"
    using f64_round_error [of "1 / q"] q by (simp add: abs_le_iff)
  moreover have "1 / q \<le> 1 / (3 * 10 ^ 9)" using assms by (intro divide_left_mono) simp_all
  ultimately have "f64_round (1 / q) * 10 ^ 9 < 1 / 2" by simp
  moreover have "0 \<le> f64_round (1 / q)" using q by (intro f64_round_nonneg) simp
  ultimately have "round_even (f64_round (1 / q) * 10 ^ 9) = 0" by (intro round_even_unique) simp
  with \<open>0 \<le> f64_round (1 / q)\<close> q show ?thesis by (simp add: f64_recip_def from_secs_f64_def)
qed

end
