(* ===== verification/Loadgen_Schedule.thy ===== *)
theory Loadgen_Schedule
  imports Loadgen_Time
begin

text \<open>
  The scheduler of the load generator: the loop of \<open>run\<close> in \<open>loadgen/src/main.rs\<close> that emits the
  scheduled times at a fixed cadence, with \<open>sleep_until\<close>. The loop need not end, so it is a partial
  function: \<open>None\<close> when it does not return, and \<open>Some (Inl ())\<close> when the process panics. The clock
  is an argument: before the sleep of turn \<open>i\<close> it advances by \<open>fst (clk i)\<close>, and a sleep ends
  \<open>snd (clk i)\<close> after its deadline.
\<close>

type_synonym u64 = "64 word"

definition lg_period :: "f64 \<Rightarrow> duration option" where
  "lg_period rate = from_secs_f64 (f64_recip rate)"

definition target_at :: "instant \<Rightarrow> duration \<Rightarrow> u64 \<Rightarrow> instant option" where
  "target_at start period i =
     (case mul_f64 period (f64_round (of_nat (unat i))) of None \<Rightarrow> None | Some d \<Rightarrow> instant_add start d)"

text \<open>The value is the clock when \<open>sleep_until\<close> returns.\<close>

definition sleep_until :: "duration \<Rightarrow> instant \<Rightarrow> instant \<Rightarrow> instant" where
  "sleep_until late t now = (if t > now then now + (t - now) + late else now)"

text \<open>The pairs in the result are the time of each push and the time it is scheduled for.\<close>

partial_function (option) lg_schedule ::
  "(u64 \<Rightarrow> duration \<times> duration) \<Rightarrow> instant \<Rightarrow> duration \<Rightarrow> instant \<Rightarrow> u64 \<Rightarrow> instant \<Rightarrow> (instant \<times> instant) list \<Rightarrow>
     (unit + (instant \<times> instant) list) option" where
  "lg_schedule clk start period end_time i now pushed =
     (case target_at start period i of
        None \<Rightarrow> Some (Inl ())
      | Some target \<Rightarrow>
          if target \<ge> end_time then Some (Inr pushed)
          else
            let now' = sleep_until (snd (clk i)) target (now + fst (clk i)) in
            lg_schedule clk start period end_time (i + 1) now' (pushed @ [(now', target)]))"

definition lg_scheduler ::
  "(u64 \<Rightarrow> duration \<times> duration) \<Rightarrow> f64 \<Rightarrow> duration \<Rightarrow> instant \<Rightarrow> (unit + (instant \<times> instant) list) option" where
  "lg_scheduler clk rate dur start =
     (case lg_period rate of
        None \<Rightarrow> Some (Inl ())
      | Some period \<Rightarrow>
          (case instant_add start dur of
             None \<Rightarrow> Some (Inl ())
           | Some end_time \<Rightarrow> lg_schedule clk start period end_time 0 start []))"

section \<open>The cadence\<close>

lemma sleep_until_ge: "t \<le> sleep_until late t now"
  by (simp add: sleep_until_def)

definition turns :: "duration \<Rightarrow> duration \<Rightarrow> nat" where
  "turns period dur = (dur + period - 1) div period"

lemma turns_less:
  assumes "0 < period"
  shows "i < turns period dur \<longleftrightarrow> i * period < dur"
proof -
  have "i < turns period dur \<longleftrightarrow> Suc i * period \<le> dur + period - 1"
    using assms by (simp add: turns_def Suc_le_eq [symmetric] less_eq_div_iff_mult_less_eq)
  also have "\<dots> \<longleftrightarrow> i * period < dur" using assms by auto
  finally show ?thesis .
qed

lemma turns_bound:
  assumes "0 < period" and "i \<le> turns period dur"
  shows "i \<le> dur" "i * period < dur + period"
proof -
  have "i * period \<le> dur + period - 1"
    using assms by (simp add: turns_def less_eq_div_iff_mult_less_eq)
  then show b: "i * period < dur + period" using assms(1) by linarith
  show "i \<le> dur"
  proof (cases i)
    case (Suc j)
    with assms turns_less [OF assms(1), of j dur] have "j * period < dur" by simp
    moreover have "j \<le> j * period" using assms(1) by simp
    ultimately show ?thesis using Suc by linarith
  qed simp
qed

lemma target_at_exact:
  assumes "0 < period" and "period + dur < 2 ^ 50" and "start + 2 ^ 50 < INSTANT_LIMIT"
    and "i \<le> turns period dur"
  shows "target_at start period (of_nat i) = Some (start + i * period)"
proof -
  note b = turns_bound [OF assms(1,4)]
  have "mul_f64 period (f64_round (of_nat i)) = Some (i * period)"
    by (rule mul_f64_exact) (use b assms(1,2) in simp_all)
  moreover have "unat (of_nat i :: u64) = i"
    using b(1) assms(2) by (simp add: unat_of_nat)
  ultimately show ?thesis
    using b(2) assms(2,3) by (simp add: target_at_def instant_add_def)
qed

definition on_time :: "instant \<times> instant \<Rightarrow> bool" where
  "on_time p \<longleftrightarrow> snd p \<le> fst p"

lemma lg_schedule_from:
  assumes "0 < period" and "period + dur < 2 ^ 50" and "start + 2 ^ 50 < INSTANT_LIMIT"
    and "i \<le> turns period dur" and "list_all on_time pushed" and "map snd pushed = map (\<lambda>j. start + j * period) [0..<i]"
  shows "\<exists>out. lg_schedule clk start period (start + dur) (of_nat i) now pushed = Some (Inr out) \<and>
    map snd out = map (\<lambda>j. start + j * period) [0..<turns period dur] \<and> list_all on_time out"
  using assms(4-6)
proof (induction "turns period dur - i" arbitrary: i now pushed)
  case 0
  then have i: "i = turns period dur" by simp
  then have "\<not> i * period < dur" using turns_less [OF assms(1), of i dur] by simp
  with 0 i target_at_exact [OF assms(1-3) 0(2)] show ?case by (simp add: lg_schedule.simps)
next
  case (Suc n)
  then have i: "i < turns period dur" by simp
  then have less: "i * period < dur" using turns_less [OF assms(1), of i dur] by simp
  let ?now = "sleep_until (snd (clk (of_nat i))) (start + i * period) (now + fst (clk (of_nat i)))"
  let ?pushed = "pushed @ [(?now, start + i * period)]"
  have "\<exists>out. lg_schedule clk start period (start + dur) (of_nat (Suc i)) ?now ?pushed = Some (Inr out) \<and>
    map snd out = map (\<lambda>j. start + j * period) [0..<turns period dur] \<and> list_all on_time out"
    by (rule Suc.hyps(1)) (use Suc i sleep_until_ge in \<open>simp_all add: on_time_def\<close>)
  moreover have "lg_schedule clk start period (start + dur) (of_nat i) now pushed =
      lg_schedule clk start period (start + dur) (of_nat (Suc i)) ?now ?pushed"
    using target_at_exact [OF assms(1-3) Suc.prems(1)] less
    by (subst lg_schedule.simps) (simp add: Let_def add.commute)
  ultimately show ?case by simp
qed

lemma lg_scheduler_exact:
  assumes "lg_period rate = Some period" and "0 < period" and "period + dur < 2 ^ 50"
    and "start + 2 ^ 50 < INSTANT_LIMIT"
  shows "\<exists>out. lg_scheduler clk rate dur start = Some (Inr out) \<and>
    map snd out = map (\<lambda>j. start + j * period) [0..<turns period dur] \<and> list_all on_time out"
proof -
  have "instant_add start dur = Some (start + dur)" using assms(3,4) by (simp add: instant_add_def)
  with lg_schedule_from [OF assms(2-4), of 0 "[]" clk start] assms(1) show ?thesis
    by (simp add: lg_scheduler_def)
qed

text \<open>
  C37: the scheduler ends and keeps its cadence. For every rate whose period rounds to at least one
  nanosecond, and a period and duration of together less than \<open>2 ^ 50\<close> nanoseconds (thirteen days), the
  loop returns, however late the sleeps end; the scheduled times are exactly
  \<open>start, start + period, start + 2 * period, \<dots>\<close> below the end of the run, without any drift from
  the floating-point arithmetic, and no request is emitted before its time.
\<close>

theorem scheduler_cadence:
  assumes "lg_period rate = Some period" and "0 < period" and "period + dur < 2 ^ 50"
    and "start + 2 ^ 50 < INSTANT_LIMIT"
  shows "\<exists>out. lg_scheduler clk rate dur start = Some (Inr out) \<and>
    map snd out = map (\<lambda>j. start + j * period) [0..<(dur + period - 1) div period] \<and> list_all on_time out"
  using lg_scheduler_exact [OF assms] by (simp add: turns_def)

theorem scheduler_cadence_witness:
  "\<exists>out. lg_scheduler (\<lambda>i. (1, 2)) (Finite 400) 10000000 5 = Some (Inr out) \<and>
    map snd out = map (\<lambda>j. 5 + j * 2500000) [0..<(10000000 + 2500000 - 1) div 2500000] \<and> list_all on_time out"
  by (rule scheduler_cadence) code_simp+

text \<open>
  A rate of \<open>inf\<close>, or of three thousand million requests a second and more, passes the check on
  the command line (only rates that are at most zero are refused) and makes the period zero: the
  scheduler never returns, whatever the duration of the run.
\<close>

theorem scheduler_never_ends:
  assumes "rate = PosInf \<or> (\<exists>q. rate = Finite q \<and> 3 * 10 ^ 9 \<le> q)"
    and "0 < dur" and "start + dur < INSTANT_LIMIT"
  shows "\<not> f64_le_zero rate \<and> lg_scheduler clk rate dur start = None"
proof
  show "\<not> f64_le_zero rate" using assms(1) by (auto simp: f64_le_zero_def)
  have p: "lg_period rate = Some 0"
    using assms(1) period_zero
    by (auto simp: lg_period_def) (simp add: f64_recip_def from_secs_f64_def round_even_def)
  have t: "target_at start 0 i = Some start" for i
    using assms(3) by (simp add: target_at_def mul_f64_zero instant_add_def)
  have "lg_schedule clk start 0 (start + dur) 0 start [] \<noteq> Some r" for r
  proof
    assume "lg_schedule clk start 0 (start + dur) 0 start [] = Some r"
    then have "start \<noteq> start \<or> (0 :: nat) \<noteq> 0 \<or> start + dur \<noteq> start + dur"
    proof (rule lg_schedule.raw_induct
        [where P = "\<lambda>c st p en i now ps r. st \<noteq> start \<or> p \<noteq> 0 \<or> en \<noteq> start + dur", rotated])
      fix f c st p en i now ps r
      assume IH: "\<And>c st p en i now ps r. f c st p en i now ps = Some r \<Longrightarrow> st \<noteq> start \<or> p \<noteq> 0 \<or> en \<noteq> start + dur"
        and eq: "(case target_at st p i of
            None \<Rightarrow> Some (Inl ())
          | Some target \<Rightarrow>
              if target \<ge> en then Some (Inr ps)
              else let now' = sleep_until (snd (c i)) target (now + fst (c i)) in
                f c st p en (i + 1) now' (ps @ [(now', target)])) = Some r"
      show "st \<noteq> start \<or> p \<noteq> 0 \<or> en \<noteq> start + dur"
      proof (rule ccontr)
        assume "\<not> ?thesis"
        with eq t [of i] assms(2) have "\<exists>now' ps'. f c start 0 (start + dur) (i + 1) now' ps' = Some r"
          by (auto simp: Let_def)
        with IH show False by blast
      qed
    qed
    then show False by simp
  qed
  then show "lg_scheduler clk rate dur start = None"
    using p assms(3) by (cases "lg_schedule clk start 0 (start + dur) 0 start []")
      (auto simp: lg_scheduler_def instant_add_def)
qed

theorem scheduler_never_ends_witness:
  "\<not> f64_le_zero PosInf \<and> lg_scheduler (\<lambda>i. (0, 0)) PosInf 1 0 = None"
  by (rule scheduler_never_ends) (simp_all add: INSTANT_LIMIT_def)

end
