(* ===== verification/Loadgen.thy ===== *)
theory Loadgen
  imports Loadgen_Client Loadgen_Schedule Service
begin

text \<open>
  The load generator, \<open>loadgen/src/main.rs\<close>: the shared queue of scheduled times, the workers that
  take requests from it, their results and the merged summary, the command line and the exit code.
  The scheduler, the workers and the clock are interleaved freely. A worker's histogram is the
  list of the values it recorded, since the \<open>hdrhistogram\<close> crate is not part of the repository.
\<close>

section \<open>The queue\<close>

record lg_queue =
  q_pending :: "instant list"
  q_scheduling_done :: bool

definition queue_new :: lg_queue where
  "queue_new = \<lparr>q_pending = [], q_scheduling_done = False\<rparr>"

definition queue_push :: "instant \<Rightarrow> lg_queue \<Rightarrow> lg_queue" where
  "queue_push t q = q\<lparr>q_pending := q_pending q @ [t]\<rparr>"

text \<open>\<open>pop\<close>: \<open>None\<close> while it waits on the condition variable, otherwise what it returns.\<close>

definition queue_pop :: "lg_queue \<Rightarrow> (instant option \<times> lg_queue) option" where
  "queue_pop q =
     (case q_pending q of
        t # ts \<Rightarrow> Some (Some t, q\<lparr>q_pending := ts\<rparr>)
      | [] \<Rightarrow> if q_scheduling_done q then Some (None, q) else None)"

definition queue_close :: "lg_queue \<Rightarrow> lg_queue" where
  "queue_close q = q\<lparr>q_scheduling_done := True\<rparr>"

text \<open>
  What the workers rely on: an unbounded queue in first-in first-out order, that tells its clients
  to stop only when it was closed and is empty.
\<close>

locale work_queue =
  fixes empty_queue :: 'q
    and push_item :: "'a \<Rightarrow> 'q \<Rightarrow> 'q"
    and pop_item :: "'q \<Rightarrow> ('a option \<times> 'q) option"
    and close_queue :: "'q \<Rightarrow> 'q"
    and items :: "'q \<Rightarrow> 'a list"
    and closed :: "'q \<Rightarrow> bool"
  assumes items_empty: "items empty_queue = []" "\<not> closed empty_queue"
    and items_push: "items (push_item t q) = items q @ [t]" "closed (push_item t q) = closed q"
    and items_close: "items (close_queue q) = items q" "closed (close_queue q)"
    and pop_waits: "pop_item q = None \<longleftrightarrow> items q = [] \<and> \<not> closed q"
    and pop_some: "pop_item q = Some (Some t, q') \<Longrightarrow> items q = t # items q' \<and> closed q' = closed q"
    and pop_none: "pop_item q = Some (None, q') \<Longrightarrow> items q = [] \<and> closed q \<and> q' = q"
begin

text \<open>One client that takes until it is told to stop gets everything, in order.\<close>

fun take_all :: "nat \<Rightarrow> 'q \<Rightarrow> ('a list \<times> 'q) option" where
  "take_all 0 q = None"
| "take_all (Suc n) q =
     (case pop_item q of
        None \<Rightarrow> None
      | Some (None, q') \<Rightarrow> Some ([], q')
      | Some (Some t, q') \<Rightarrow> map_option (\<lambda>(ts, q''). (t # ts, q'')) (take_all n q'))"

lemma take_all_closed:
  "closed q \<Longrightarrow> length (items q) < n \<Longrightarrow> \<exists>q'. take_all n q = Some (items q, q') \<and> items q' = []"
proof (induction n arbitrary: q)
  case (Suc n)
  have "pop_item q \<noteq> None" using pop_waits Suc.prems(1) by blast
  then obtain o1 q1 where p: "pop_item q = Some (o1, q1)" by force
  show ?case
  proof (cases o1)
    case None
    with p pop_none [of q q1] show ?thesis by auto
  next
    case (Some t)
    with p have t: "items q = t # items q1" "closed q1" using pop_some [of q t q1] Suc.prems(1) by auto
    with Suc obtain q' where "take_all n q1 = Some (items q1, q')" "items q' = []" by auto
    with p Some t show ?thesis by auto
  qed
qed simp

end

interpretation wq: work_queue queue_new queue_push queue_pop queue_close q_pending q_scheduling_done
  by unfold_locales
     (auto simp: queue_new_def queue_push_def queue_pop_def queue_close_def split: list.splits if_splits)

section \<open>Workers\<close>

datatype wk_state = WkStart | WkIdle | WkBusy instant | WkDraining | WkDone

text \<open>
  \<open>wk_hist\<close>, \<open>wk_ok\<close> and \<open>wk_errors\<close> are the \<open>WorkerResult\<close>. \<open>wk_buffered\<close> are the bytes its
  \<open>BufReader\<close> keeps past the last response. \<open>wk_answered\<close> (scheduled and received times) and
  \<open>wk_failed\<close> are for the theorems.
\<close>

record wk =
  wk_state :: wk_state
  wk_buffered :: bytes
  wk_hist :: "u64 list"
  wk_ok :: nat
  wk_errors :: nat
  wk_answered :: "(instant \<times> instant) list"
  wk_failed :: "instant list"

definition wk_new :: wk where
  "wk_new = \<lparr>wk_state = WkStart, wk_buffered = [], wk_hist = [], wk_ok = 0, wk_errors = 0, wk_answered = [], wk_failed = []\<rparr>"

text \<open>\<open>scheduled.elapsed().as_micros() as u64\<close>.\<close>

definition latency :: "instant \<times> instant \<Rightarrow> u64" where
  "latency p = word_of_nat ((snd p - fst p) div 1000)"

definition wk_success :: "instant \<Rightarrow> instant \<Rightarrow> bytes \<Rightarrow> wk \<Rightarrow> wk" where
  "wk_success t now rest w =
     w\<lparr>wk_state := WkIdle, wk_buffered := rest, wk_hist := wk_hist w @ [latency (t, now)], wk_ok := wk_ok w + 1,
       wk_answered := wk_answered w @ [(t, now)]\<rparr>"

definition wk_failure :: "instant \<Rightarrow> wk \<Rightarrow> wk" where
  "wk_failure t w = w\<lparr>wk_state := WkDraining, wk_errors := wk_errors w + 1, wk_failed := wk_failed w @ [t]\<rparr>"

text \<open>One call of \<open>queue.pop()\<close> by a worker.\<close>

definition wk_take :: "instant option \<Rightarrow> wk \<Rightarrow> wk" where
  "wk_take r w =
     (case r of
        None \<Rightarrow> w\<lparr>wk_state := WkDone\<rparr>
      | Some t \<Rightarrow> if wk_state w = WkDraining then wk_failure t w else w\<lparr>wk_state := WkBusy t\<rparr>)"

text \<open>The match on the result of \<open>send_and_read\<close>.\<close>

definition wk_reply :: "instant \<Rightarrow> instant \<Rightarrow> reader \<times> (io_error + unit) \<Rightarrow> wk \<Rightarrow> wk" where
  "wk_reply t now r w =
     (case snd r of Inr u \<Rightarrow> wk_success t now (fst (fst r)) w | Inl e \<Rightarrow> wk_failure t w)"

record loadgen =
  lg_queue :: lg_queue
  lg_workers :: "wk list"

definition lg_start :: "usize \<Rightarrow> loadgen" where
  "lg_start n = \<lparr>lg_queue = queue_new, lg_workers = replicate n wk_new\<rparr>"

text \<open>
  \<open>LgReply i sent bs e now\<close>: the request of worker \<open>i\<close> was written with the outcome \<open>sent\<close>, \<open>bs\<close>
  arrived in answer to it before the stream ended with \<open>e\<close> or the response was complete, and the
  clock says \<open>now\<close>.
\<close>

datatype lg_event =
  LgPush instant
| LgClose
| LgClone nat bool
| LgPop nat
| LgReply nat "io_error option" bytes "io_error option" instant

fun lg_step :: "lg_event \<Rightarrow> loadgen \<Rightarrow> loadgen option" where
  "lg_step (LgPush t) s =
     (if q_scheduling_done (lg_queue s) then None else Some (s\<lparr>lg_queue := queue_push t (lg_queue s)\<rparr>))"
| "lg_step LgClose s =
     (if q_scheduling_done (lg_queue s) then None else Some (s\<lparr>lg_queue := queue_close (lg_queue s)\<rparr>))"
| "lg_step (LgClone i cloned) s =
     (if i < length (lg_workers s) \<and> wk_state (lg_workers s ! i) = WkStart
      then Some (s\<lparr>lg_workers := (lg_workers s)
        [i := (lg_workers s ! i)\<lparr>wk_state := if cloned then WkIdle else WkDraining\<rparr>]\<rparr>)
      else None)"
| "lg_step (LgPop i) s =
     (if i < length (lg_workers s) \<and> wk_state (lg_workers s ! i) \<in> {WkIdle, WkDraining}
      then map_option (\<lambda>(r, q). s\<lparr>lg_queue := q, lg_workers := (lg_workers s)[i := wk_take r (lg_workers s ! i)]\<rparr>)
        (queue_pop (lg_queue s))
      else None)"
| "lg_step (LgReply i sent bs e now) s =
     (if i < length (lg_workers s)
      then (case wk_state (lg_workers s ! i) of
          WkBusy t \<Rightarrow>
            Some (s\<lparr>lg_workers := (lg_workers s)
              [i := wk_reply t now (send_and_read sent (wk_buffered (lg_workers s ! i) @ bs, e)) (lg_workers s ! i)]\<rparr>)
        | _ \<Rightarrow> None)
      else None)"

text \<open>The merged results of \<open>run\<close>.\<close>

record summary =
  sm_hist :: "u64 list"
  sm_ok :: nat
  sm_errors :: nat

definition lg_merge :: "wk list \<Rightarrow> summary" where
  "lg_merge ws =
     fold (\<lambda>w sm. \<lparr>sm_hist = sm_hist sm @ wk_hist w, sm_ok = sm_ok sm + wk_ok w, sm_errors = sm_errors sm + wk_errors w\<rparr>)
       ws \<lparr>sm_hist = [], sm_ok = 0, sm_errors = 0\<rparr>"

section \<open>Every scheduled request is accounted for\<close>

definition wk_counts :: "wk \<Rightarrow> bool" where
  "wk_counts w \<longleftrightarrow> wk_ok w = length (wk_answered w) \<and> wk_errors w = length (wk_failed w) \<and>
     wk_hist w = map latency (wk_answered w)"

definition in_flight :: "wk \<Rightarrow> instant multiset" where
  "in_flight w = (case wk_state w of WkBusy t \<Rightarrow> {#t#} | _ \<Rightarrow> {#})"

definition wk_ended :: "wk \<Rightarrow> instant multiset" where
  "wk_ended w = mset (map fst (wk_answered w)) + mset (wk_failed w)"

definition lg_intake :: "lg_event \<Rightarrow> instant multiset" where
  "lg_intake e = (case e of LgPush t \<Rightarrow> {#t#} | _ \<Rightarrow> {#})"

definition lg_held :: "loadgen \<Rightarrow> instant multiset" where
  "lg_held s = mset (q_pending (lg_queue s)) + sum_list (map in_flight (lg_workers s))"

definition lg_ended :: "loadgen \<Rightarrow> instant multiset" where
  "lg_ended s = sum_list (map wk_ended (lg_workers s))"

text \<open>A worker stops only once the queue is closed and empty, and then it stays so.\<close>

definition lg_inv :: "loadgen \<Rightarrow> bool" where
  "lg_inv s \<longleftrightarrow> list_all wk_counts (lg_workers s) \<and>
     (list_ex (\<lambda>w. wk_state w = WkDone) (lg_workers s) \<longrightarrow>
       q_pending (lg_queue s) = [] \<and> q_scheduling_done (lg_queue s))"

lemma sum_list_update_mset:
  fixes f :: "'a \<Rightarrow> 'b multiset"
  assumes "i < length xs"
  shows "sum_list (map f (xs[i := x])) + f (xs ! i) = sum_list (map f xs) + f x"
  using assms by (induction xs arbitrary: i) (auto simp: ac_simps split: nat.splits)

lemma list_ex_update_old: "list_ex P (xs[i := x]) \<Longrightarrow> \<not> P x \<Longrightarrow> list_ex P xs"
  by (auto simp: list_ex_iff dest!: subsetD [OF set_update_subset_insert])

lemma list_all_update: "list_all P xs \<Longrightarrow> P x \<Longrightarrow> list_all P (xs[i := x])"
  by (auto simp: list_all_iff dest!: subsetD [OF set_update_subset_insert])

lemma wk_counts_ops [simp]:
  "wk_counts w \<Longrightarrow> wk_counts (wk_success t now rest w)" "wk_counts w \<Longrightarrow> wk_counts (wk_failure t w)"
  "wk_counts w \<Longrightarrow> wk_counts (wk_take r w)" "wk_counts (w\<lparr>wk_state := st\<rparr>) = wk_counts w"
  by (auto simp: wk_counts_def wk_success_def wk_failure_def wk_take_def split: option.splits)

lemma wk_state_ops [simp]:
  "wk_state (wk_success t now rest w) = WkIdle" "wk_state (wk_failure t w) = WkDraining"
  by (simp_all add: wk_success_def wk_failure_def)

lemma wk_reply_facts:
  "wk_counts w \<Longrightarrow> wk_counts (wk_reply t now r w)" "wk_state (wk_reply t now r w) \<noteq> WkDone"
  "wk_state w = WkBusy t \<Longrightarrow> in_flight (wk_reply t now r w) + wk_ended (wk_reply t now r w) = in_flight w + wk_ended w"
  by (auto simp: wk_reply_def split: sum.split)
     (auto simp: in_flight_def wk_ended_def wk_success_def wk_failure_def)

lemma wk_take_facts:
  assumes "queue_pop q = Some (r, q')" and "wk_state w \<in> {WkIdle, WkDraining}"
  shows "mset (q_pending q') + in_flight (wk_take r w) + wk_ended (wk_take r w) =
      mset (q_pending q) + in_flight w + wk_ended w"
    and "wk_state (wk_take r w) = WkDone \<longleftrightarrow> q_pending q = [] \<and> q_scheduling_done q"
    and "q_pending q = [] \<Longrightarrow> q' = q"
  using assms
  by (auto simp: queue_pop_def wk_take_def wk_failure_def in_flight_def wk_ended_def split: list.splits if_splits)

text \<open>
  What a step of a worker does to the state: one worker changes, and what it held, has finished and
  took from the queue is conserved.
\<close>

lemma lg_worker_step:
  assumes step: "lg_step e s = Some s'" and e: "\<And>t. e \<noteq> LgPush t" "e \<noteq> LgClose"
  obtains i w where "i < length (lg_workers s)" "lg_workers s' = (lg_workers s)[i := w]"
    "wk_counts (lg_workers s ! i) \<Longrightarrow> wk_counts w"
    "mset (q_pending (lg_queue s')) + in_flight w + wk_ended w =
       mset (q_pending (lg_queue s)) + in_flight (lg_workers s ! i) + wk_ended (lg_workers s ! i)"
    "wk_state w = WkDone \<Longrightarrow> q_pending (lg_queue s) = [] \<and> q_scheduling_done (lg_queue s)"
    "q_pending (lg_queue s) = [] \<Longrightarrow> lg_queue s' = lg_queue s"
proof (cases e)
  case (LgClone i cloned)
  with step show ?thesis
    by (intro that [of i "(lg_workers s ! i)\<lparr>wk_state := if cloned then WkIdle else WkDraining\<rparr>"])
       (auto simp: in_flight_def wk_ended_def split: if_splits)
next
  case (LgPop i)
  with step obtain r q where p: "queue_pop (lg_queue s) = Some (r, q)" "i < length (lg_workers s)"
    and st: "wk_state (lg_workers s ! i) \<in> {WkIdle, WkDraining}"
    and s': "s' = s\<lparr>lg_queue := q, lg_workers := (lg_workers s)[i := wk_take r (lg_workers s ! i)]\<rparr>"
    by (auto split: if_splits)
  from wk_take_facts [OF p(1) st] p(2) show ?thesis
    by (intro that [of i "wk_take r (lg_workers s ! i)"]) (simp_all add: s')
next
  case (LgReply i sent bs e now)
  with step obtain t where i: "i < length (lg_workers s)" and b: "wk_state (lg_workers s ! i) = WkBusy t"
    by (auto split: if_splits wk_state.splits)
  let ?w = "wk_reply t now (send_and_read sent (wk_buffered (lg_workers s ! i) @ bs, e)) (lg_workers s ! i)"
  from step LgReply i b have s': "s' = s\<lparr>lg_workers := (lg_workers s)[i := ?w]\<rparr>" by simp
  from i wk_reply_facts b show ?thesis
    by (intro that [of i ?w]) (simp_all add: s' add.assoc)
qed (use e in simp_all)

lemma lg_inv_step:
  assumes inv: "lg_inv s" and step: "lg_step e s = Some s'"
  shows "lg_inv s'"
proof (cases "(\<exists>t. e = LgPush t) \<or> e = LgClose")
  case True
  with inv step show ?thesis by (auto simp: lg_inv_def wq.items_push wq.items_close split: if_splits)
next
  case False
  then obtain i w where w: "i < length (lg_workers s)" "lg_workers s' = (lg_workers s)[i := w]"
    "wk_counts (lg_workers s ! i) \<Longrightarrow> wk_counts w"
    "wk_state w = WkDone \<Longrightarrow> q_pending (lg_queue s) = [] \<and> q_scheduling_done (lg_queue s)"
    "q_pending (lg_queue s) = [] \<Longrightarrow> lg_queue s' = lg_queue s"
    using lg_worker_step [OF step] by metis
  have "wk_counts w" using inv w(1,3) by (simp add: lg_inv_def list_all_length)
  moreover have "q_pending (lg_queue s') = [] \<and> q_scheduling_done (lg_queue s')"
    if "list_ex (\<lambda>w. wk_state w = WkDone) (lg_workers s')"
    using that w(2,4,5) inv list_ex_update_old [of "\<lambda>w. wk_state w = WkDone" "lg_workers s" i w]
    by (cases "wk_state w = WkDone") (auto simp: lg_inv_def)
  ultimately show ?thesis using inv w(2) by (simp add: lg_inv_def list_all_update)
qed

lemma lg_conserves_step:
  assumes step: "lg_step e s = Some s'"
  shows "lg_held s' + lg_ended s' = lg_held s + lg_ended s + lg_intake e"
proof (cases "(\<exists>t. e = LgPush t) \<or> e = LgClose")
  case True
  with step show ?thesis
    by (auto simp: lg_held_def lg_ended_def lg_intake_def wq.items_push wq.items_close split: if_splits)
next
  case False
  then obtain i w where i: "i < length (lg_workers s)" and w: "lg_workers s' = (lg_workers s)[i := w]"
    and c: "mset (q_pending (lg_queue s')) + in_flight w + wk_ended w =
       mset (q_pending (lg_queue s)) + in_flight (lg_workers s ! i) + wk_ended (lg_workers s ! i)"
    using lg_worker_step [OF step] by metis
  let ?o = "lg_workers s ! i"
  have "lg_held s' + lg_ended s' + (in_flight ?o + wk_ended ?o) =
      mset (q_pending (lg_queue s')) + (sum_list (map in_flight ((lg_workers s)[i := w])) + in_flight ?o) +
      (sum_list (map wk_ended ((lg_workers s)[i := w])) + wk_ended ?o)"
    by (simp add: lg_held_def lg_ended_def w ac_simps)
  also have "\<dots> = (mset (q_pending (lg_queue s')) + in_flight w + wk_ended w) +
      sum_list (map in_flight (lg_workers s)) + sum_list (map wk_ended (lg_workers s))"
    unfolding sum_list_update_mset [OF i] by (simp only: ac_simps)
  also have "\<dots> = lg_held s + lg_ended s + (in_flight ?o + wk_ended ?o)"
    unfolding c by (simp add: lg_held_def lg_ended_def ac_simps)
  finally have "lg_held s' + lg_ended s' = lg_held s + lg_ended s" by simp
  moreover have "lg_intake e = {#}" using False by (cases e) (simp_all add: lg_intake_def)
  ultimately show ?thesis by simp
qed

interpretation lg: dispatcher lg_step "\<lambda>e. True" lg_inv lg_intake lg_held lg_ended
  by unfold_locales (blast intro: lg_inv_step, rule lg_conserves_step)

lemma lg_inv_start: "lg_inv (lg_start n)"
  by (auto simp: lg_inv_def lg_start_def wk_new_def wk_counts_def list_all_iff list_ex_iff)

lemma lg_merge_eq:
  "lg_merge ws = \<lparr>sm_hist = concat (map wk_hist ws), sm_ok = sum_list (map wk_ok ws), sm_errors = sum_list (map wk_errors ws)\<rparr>"
proof -
  have "fold (\<lambda>w sm. \<lparr>sm_hist = sm_hist sm @ wk_hist w, sm_ok = sm_ok sm + wk_ok w, sm_errors = sm_errors sm + wk_errors w\<rparr>) ws sm =
    \<lparr>sm_hist = sm_hist sm @ concat (map wk_hist ws), sm_ok = sm_ok sm + sum_list (map wk_ok ws),
      sm_errors = sm_errors sm + sum_list (map wk_errors ws)\<rparr>" for sm
    by (induction ws arbitrary: sm) simp_all
  then show ?thesis by (simp add: lg_merge_def)
qed

section \<open>Properties\<close>

text \<open>The times that were pushed, in order.\<close>

fun lg_pushes :: "lg_event list \<Rightarrow> instant list" where
  "lg_pushes [] = []"
| "lg_pushes (LgPush t # es) = t # lg_pushes es"
| "lg_pushes (e # es) = lg_pushes es"

lemma mset_lg_pushes: "sum_list (map lg_intake es) = mset (lg_pushes es)"
  by (induction es rule: lg_pushes.induct) (simp_all add: lg_intake_def)

definition all_done :: "loadgen \<Rightarrow> bool" where
  "all_done s \<longleftrightarrow> lg_workers s \<noteq> [] \<and> list_all (\<lambda>w. wk_state w = WkDone) (lg_workers s)"

lemma lg_accounts:
  assumes "run_events lg_step es (lg_start n) = Some s"
  shows "lg_held s + lg_ended s = mset (lg_pushes es)" "lg_inv s"
proof -
  have "lg_held (lg_start n) + lg_ended (lg_start n) = {#}"
    by (induction n) (simp_all add: lg_held_def lg_ended_def lg_start_def wk_new_def queue_new_def in_flight_def wk_ended_def)
  with lg.run_conserves [OF assms lg_inv_start] show "lg_held s + lg_ended s = mset (lg_pushes es)"
    by (simp add: mset_lg_pushes list_all_iff)
  show "lg_inv s" using lg.run_inv [OF assms lg_inv_start] by (simp add: list_all_iff)
qed

lemma all_done_held: "lg_inv s \<Longrightarrow> all_done s \<Longrightarrow> lg_held s = {#}"
proof -
  assume inv: "lg_inv s" and d: "all_done s"
  then obtain w where "w \<in> set (lg_workers s)" by (cases "lg_workers s") (auto simp: all_done_def)
  with inv d have "q_pending (lg_queue s) = []" by (auto simp: lg_inv_def all_done_def list_all_iff list_ex_iff)
  moreover have "sum_list (map in_flight ws) = {#}" if "list_all (\<lambda>w. wk_state w = WkDone) ws" for ws
    using that by (induction ws) (simp_all add: in_flight_def)
  ultimately show "lg_held s = {#}" using d by (simp add: lg_held_def all_done_def)
qed

lemma merge_counts:
  assumes "list_all wk_counts ws"
  shows "sm_hist (lg_merge ws) = map latency (concat (map wk_answered ws))"
    "sm_ok (lg_merge ws) = length (concat (map wk_answered ws))"
    "sm_ok (lg_merge ws) + sm_errors (lg_merge ws) = size (sum_list (map wk_ended ws))"
  using assms by (induction ws) (simp_all add: lg_merge_eq wk_counts_def wk_ended_def)

lemma lg_all_counted:
  assumes "run_events lg_step es (lg_start n) = Some s" and "all_done s"
  shows "sm_ok (lg_merge (lg_workers s)) + sm_errors (lg_merge (lg_workers s)) = length (lg_pushes es)"
proof -
  note acc = lg_accounts [OF assms(1)]
  have "size (lg_ended s) = length (lg_pushes es)"
    using acc all_done_held [OF acc(2) assms(2)] by (metis add_0 size_mset)
  then show ?thesis using acc(2) merge_counts(3) by (simp add: lg_inv_def lg_ended_def)
qed

text \<open>
  C36: no coordinated omission. In every interleaving of the scheduler with the workers, whatever
  the server does, each request that was scheduled is waiting in the queue, in flight, answered or
  counted as an error, none of them twice; and every latency in the merged histogram is the time
  from the scheduled instant of a request, not from its sending, to its answer. When the workers
  have returned, successes and errors together are all the requests.
\<close>

theorem loadgen_no_omission:
  assumes "run_events lg_step es (lg_start n) = Some s"
  shows "mset (lg_pushes es) = lg_held s + lg_ended s \<and>
    sm_hist (lg_merge (lg_workers s)) = map latency (concat (map wk_answered (lg_workers s))) \<and>
    (all_done s \<longrightarrow> sm_ok (lg_merge (lg_workers s)) + sm_errors (lg_merge (lg_workers s)) = length (lg_pushes es))"
proof -
  note acc = lg_accounts [OF assms]
  have "list_all wk_counts (lg_workers s)" using acc(2) by (simp add: lg_inv_def)
  with acc(1) merge_counts(1) lg_all_counted [OF assms] show ?thesis by simp
qed

definition demo_reply :: bytes where
  "demo_reply = ''HTTP/1.1 200 OK'' @ CRLF @ ''Content-Length: 2'' @ CRLF @ CRLF @ ''hi''"

definition demo_lg_events :: "lg_event list" where
  "demo_lg_events = [LgClone 0 True, LgPush 1000, LgPop 0, LgPush 3000, LgReply 0 None demo_reply None 9000, LgPop 0,
     LgReply 0 None [] None 12000, LgClose, LgPop 0]"

theorem loadgen_no_omission_witness:
  "\<exists>s. run_events lg_step demo_lg_events (lg_start 1) = Some s \<and> mset (lg_pushes demo_lg_events) = lg_held s + lg_ended s \<and>
     sm_ok (lg_merge (lg_workers s)) + sm_errors (lg_merge (lg_workers s)) = 2"
proof -
  let ?r = "run_events lg_step demo_lg_events (lg_start 1)"
  have "?r \<noteq> None" "all_done (the ?r)" "length (lg_pushes demo_lg_events) = 2" by code_simp+
  then obtain s where s: "?r = Some s" "all_done s" "length (lg_pushes demo_lg_events) = 2" by force
  with loadgen_no_omission [OF s(1)] show ?thesis by simp
qed

section \<open>A broken connection\<close>

lemma run_pushes:
  "run_events lg_step (map LgPush ts @ es) \<lparr>lg_queue = \<lparr>q_pending = p, q_scheduling_done = False\<rparr>, lg_workers = ws\<rparr> =
   run_events lg_step es \<lparr>lg_queue = \<lparr>q_pending = p @ ts, q_scheduling_done = False\<rparr>, lg_workers = ws\<rparr>"
  by (induction ts arbitrary: p) (simp_all add: queue_push_def)

lemma run_drain:
  assumes "wk_state w = WkDraining"
  shows "run_events lg_step (replicate (length ts) (LgPop 0) @ es)
      \<lparr>lg_queue = \<lparr>q_pending = ts, q_scheduling_done = d\<rparr>, lg_workers = w # ws\<rparr> =
    run_events lg_step es \<lparr>lg_queue = \<lparr>q_pending = [], q_scheduling_done = d\<rparr>,
      lg_workers = w\<lparr>wk_state := WkDraining, wk_errors := wk_errors w + length ts, wk_failed := wk_failed w @ ts\<rparr> # ws\<rparr>"
  using assms
proof (induction ts arbitrary: w)
  case (Cons t ts)
  from Cons.IH [of "wk_failure t w"] Cons.prems show ?case
    by (simp add: queue_pop_def wk_take_def) (simp add: wk_failure_def)
next
  case Nil
  then show ?case by (cases w) simp
qed

text \<open>
  C39: one broken connection can turn the whole run into errors. The worker whose connection failed
  goes on taking requests from the shared queue and counts each of them as an error without
  sending it: for every schedule there is a run with two connections in which the first one fails
  once, the second one never fails, and yet no request is answered and all of them are errors.
\<close>

theorem broken_worker_drains_queue:
  "\<exists>es s. run_events lg_step es (lg_start 2) = Some s \<and> lg_pushes es = t # ts \<and> all_done s \<and>
     sm_ok (lg_merge (lg_workers s)) = 0 \<and> sm_errors (lg_merge (lg_workers s)) = length (t # ts) \<and>
     wk_failed (lg_workers s ! 1) = []"
proof (intro exI conjI)
  let ?es = "[LgClone 0 True, LgClone 1 True] @ map LgPush (t # ts) @ [LgClose, LgPop 0, LgReply 0 (Some TimedOut) [] None 0] @
    replicate (length ts) (LgPop 0) @ [LgPop 0, LgPop 1]"
  let ?w = "wk_new\<lparr>wk_state := WkDone, wk_errors := length (t # ts), wk_failed := t # ts\<rparr>"
  let ?s = "\<lparr>lg_queue = \<lparr>q_pending = [], q_scheduling_done = True\<rparr>, lg_workers = [?w, wk_new\<lparr>wk_state := WkDone\<rparr>]\<rparr>"
  have start: "lg_start 2 = \<lparr>lg_queue = \<lparr>q_pending = [], q_scheduling_done = False\<rparr>, lg_workers = [wk_new, wk_new]\<rparr>"
    by (simp add: lg_start_def queue_new_def numeral_2_eq_2)
  show "run_events lg_step ?es (lg_start 2) = Some ?s"
    using run_pushes [of "t # ts"]
    by (simp add: start wk_new_def queue_close_def queue_pop_def send_and_read_def wk_reply_def wk_take_def wk_failure_def run_drain)
  have "lg_pushes (map LgPush us @ es) = us @ lg_pushes es" for us es by (induction us) simp_all
  moreover have "lg_pushes (replicate n (LgPop 0) @ es) = lg_pushes es" for n es by (induction n) simp_all
  ultimately show "lg_pushes ?es = t # ts" by simp
  show "all_done ?s" by (simp add: all_done_def)
  show "sm_ok (lg_merge (lg_workers ?s)) = 0" "sm_errors (lg_merge (lg_workers ?s)) = length (t # ts)"
    "wk_failed (lg_workers ?s ! 1) = []"
    by (simp_all add: lg_merge_eq wk_new_def)
qed

end
