(* ===== verification/Loadgen_Main.thy ===== *)
theory Loadgen_Main
  imports Loadgen
begin

text \<open>
  The command line of \<open>loadgen/src/main.rs\<close>, the connections made up front and the exit code. The
  parsing of a double is an argument.
\<close>

section \<open>The command line\<close>

record lg_config =
  lgc_target :: str
  lgc_model :: str
  lgc_rate :: f64
  lgc_connections :: usize
  lgc_duration :: duration
  lgc_out :: str

datatype lg_exit = LgUsage str | LgHelp

definition lg_expect :: "str list \<Rightarrow> str \<Rightarrow> lg_exit + (str \<times> str list)" where
  "lg_expect args flag = (case args of [] \<Rightarrow> Inl (LgUsage (''missing value for '' @ flag)) | v # rest \<Rightarrow> Inr (v, rest))"

text \<open>A number that must not be zero, for \<open>--connections\<close> and \<open>--duration\<close>.\<close>

definition lg_positive :: "str \<Rightarrow> str \<Rightarrow> lg_exit + nat" where
  "lg_positive flag v =
     (case parse_uint USIZE_MAX v of
        None \<Rightarrow> Inl (LgUsage (''invalid '' @ flag))
      | Some n \<Rightarrow> if n = 0 then Inl (LgUsage (flag @ '' must be >= 1'')) else Inr n)"

definition lg_rate_value :: "(str \<Rightarrow> f64 option) \<Rightarrow> str \<Rightarrow> lg_exit + f64" where
  "lg_rate_value parse_f64 v =
     (case parse_f64 v of
        None \<Rightarrow> Inl (LgUsage ''invalid --rate'')
      | Some x \<Rightarrow> if f64_le_zero x then Inl (LgUsage ''--rate must be > 0'') else Inr x)"

definition lg_config_default :: lg_config where
  "lg_config_default = \<lparr>lgc_target = ''127.0.0.1:8080'', lgc_model = ''unknown'', lgc_rate = Finite 1000,
     lgc_connections = 10, lgc_duration = secs 10, lgc_out = ''loadgen-results.csv''\<rparr>"

lemma lg_expect_shorter: "lg_expect args flag = Inr (v, rest) \<Longrightarrow> length rest < length args"
  by (auto simp: lg_expect_def split: list.splits)

text \<open>The arms of the \<open>match\<close> that take a value.\<close>

definition lg_flags :: "str list" where
  "lg_flags = [''--target'', ''--model'', ''--rate'', ''--connections'', ''--duration'', ''--out'']"

definition lg_set_flag :: "(str \<Rightarrow> f64 option) \<Rightarrow> str \<Rightarrow> str \<Rightarrow> lg_config \<Rightarrow> lg_exit + lg_config" where
  "lg_set_flag pf flag v c =
     (if flag = ''--target'' then Inr (c\<lparr>lgc_target := v\<rparr>)
      else if flag = ''--model'' then Inr (c\<lparr>lgc_model := v\<rparr>)
      else if flag = ''--rate'' then
        (case lg_rate_value pf v of Inl e \<Rightarrow> Inl e | Inr x \<Rightarrow> Inr (c\<lparr>lgc_rate := x\<rparr>))
      else if flag = ''--connections'' then
        (case lg_positive flag v of Inl e \<Rightarrow> Inl e | Inr n \<Rightarrow> Inr (c\<lparr>lgc_connections := n\<rparr>))
      else if flag = ''--duration'' then
        (case lg_positive flag v of Inl e \<Rightarrow> Inl e | Inr n \<Rightarrow> Inr (c\<lparr>lgc_duration := secs n\<rparr>))
      else Inr (c\<lparr>lgc_out := v\<rparr>))"

function lg_parse_loop :: "(str \<Rightarrow> f64 option) \<Rightarrow> str list \<Rightarrow> lg_config \<Rightarrow> lg_exit + lg_config" where
  "lg_parse_loop pf [] c = Inr c"
| "lg_parse_loop pf (arg # args) c =
     (if arg \<in> set lg_flags then
        (case lg_expect args arg of
           Inl e \<Rightarrow> Inl e
         | Inr (v, rest) \<Rightarrow> (case lg_set_flag pf arg v c of Inl e \<Rightarrow> Inl e | Inr c' \<Rightarrow> lg_parse_loop pf rest c'))
      else if arg = ''-h'' \<or> arg = ''--help'' then Inl LgHelp
      else Inl (LgUsage (''unknown argument: '' @ arg)))"
  by pat_completeness auto
termination
  by (relation "measure (\<lambda>(pf, args, c). length args)") (auto dest!: sym [of "Inr _"] lg_expect_shorter)

definition lg_parse_args :: "(str \<Rightarrow> f64 option) \<Rightarrow> str list \<Rightarrow> lg_exit + lg_config" where
  "lg_parse_args pf args = lg_parse_loop pf args lg_config_default"

section \<open>Connections and exit code\<close>

definition SOCKET_TIMEOUT :: duration where
  "SOCKET_TIMEOUT = secs 10"

datatype connect_call = Connect | SetNodelay bool | SetReadTimeout duration | SetWriteTimeout duration

definition connect_calls :: "connect_call list" where
  "connect_calls = [Connect, SetNodelay True, SetReadTimeout SOCKET_TIMEOUT, SetWriteTimeout SOCKET_TIMEOUT]"

text \<open>The loop that connects: \<open>answer i c\<close> is the error of call \<open>c\<close> on stream \<open>i\<close>, if any.\<close>

fun lg_connect_from :: "(nat \<Rightarrow> connect_call \<Rightarrow> io_error option) \<Rightarrow> nat list \<Rightarrow> io_error + nat list" where
  "lg_connect_from answer [] = Inr []"
| "lg_connect_from answer (i # is) =
     (case List.find (\<lambda>c. answer i c \<noteq> None) connect_calls of
        Some c \<Rightarrow> Inl (the (answer i c))
      | None \<Rightarrow> (case lg_connect_from answer is of Inl e \<Rightarrow> Inl e | Inr streams \<Rightarrow> Inr (i # streams)))"

definition lg_connect :: "(nat \<Rightarrow> connect_call \<Rightarrow> io_error option) \<Rightarrow> usize \<Rightarrow> io_error + nat list" where
  "lg_connect answer n = lg_connect_from answer [0..<n]"

text \<open>The exit code of the program; \<open>run\<close> and \<open>write_output\<close> may fail.\<close>

definition lg_main ::
  "(str \<Rightarrow> f64 option) \<Rightarrow> (lg_config \<Rightarrow> io_error + summary) \<Rightarrow> (lg_config \<Rightarrow> summary \<Rightarrow> io_error + unit) \<Rightarrow>
     str list \<Rightarrow> nat" where
  "lg_main pf run write_output args =
     (case lg_parse_args pf args of
        Inl (LgUsage msg) \<Rightarrow> 2
      | Inl LgHelp \<Rightarrow> 0
      | Inr cfg \<Rightarrow>
          (case run cfg of
             Inl e \<Rightarrow> 1
           | Inr sm \<Rightarrow> (case write_output cfg sm of Inl e \<Rightarrow> 1 | Inr u \<Rightarrow> 0)))"

section \<open>Properties\<close>

definition lg_config_ok :: "lg_config \<Rightarrow> bool" where
  "lg_config_ok c \<longleftrightarrow> \<not> f64_le_zero (lgc_rate c) \<and> 1 \<le> lgc_connections c \<and> lgc_connections c \<le> USIZE_MAX \<and>
     secs 1 \<le> lgc_duration c \<and> lgc_duration c \<le> secs USIZE_MAX"

lemma lg_positive_bounds: "lg_positive flag v = Inr n \<Longrightarrow> 1 \<le> n \<and> n \<le> USIZE_MAX"
  by (auto simp: lg_positive_def split: option.splits if_splits dest: parse_uint_bound)

lemma lg_set_flag_ok: "lg_set_flag pf flag v c = Inr c' \<Longrightarrow> lg_config_ok c \<Longrightarrow> lg_config_ok c'"
  using lg_positive_bounds [of flag v]
  by (auto simp: lg_set_flag_def lg_config_ok_def lg_rate_value_def secs_def split: if_splits sum.splits option.splits)

lemma lg_parse_loop_ok: "lg_parse_loop pf args c = Inr c' \<Longrightarrow> lg_config_ok c \<Longrightarrow> lg_config_ok c'"
proof (induction pf args c rule: lg_parse_loop.induct)
  case (2 pf arg args c)
  from "2.prems"(1) obtain v rest c1 where "arg \<in> set lg_flags" "lg_expect args arg = Inr (v, rest)"
    "lg_set_flag pf arg v c = Inr c1" "lg_parse_loop pf rest c1 = Inr c'"
    by (auto split: if_splits sum.splits prod.splits)
  with "2.IH" [of "(v, rest)" v rest c1] lg_set_flag_ok "2.prems"(2) show ?case by simp
qed simp

text \<open>
  C40: a configuration that the command line accepts is well formed: the rate is not zero or
  negative, there is at least one connection, and the duration is at least a second.
\<close>

theorem lg_config_valid:
  assumes "lg_parse_args pf args = Inr c"
  shows "lg_config_ok c"
  using assms lg_parse_loop_ok [of pf args lg_config_default c]
  by (simp add: lg_parse_args_def lg_config_ok_def lg_config_default_def f64_le_zero_def secs_def USIZE_MAX_def)

theorem lg_config_valid_witness:
  "lg_config_ok (lg_config_default\<lparr>lgc_rate := PosInf, lgc_connections := 4\<rparr>)"
  by (rule lg_config_valid [of "\<lambda>s. if s = ''inf'' then Some PosInf else None" "[''--rate'', ''inf'', ''--connections'', ''4'']"])
     code_simp

text \<open>
  The whole run: when the workers have returned after the requests of the schedule were pushed,
  successes and errors together are as many as the cadence has times before the end.
\<close>

theorem loadgen_run_counts:
  assumes "lg_period rate = Some period" and "0 < period" and "period + dur < 2 ^ 50"
    and "start + 2 ^ 50 < INSTANT_LIMIT"
    and "lg_scheduler clk rate dur start = Some (Inr out)"
    and "run_events lg_step es (lg_start n) = Some s" and "lg_pushes es = map snd out" and "all_done s"
  shows "sm_ok (lg_merge (lg_workers s)) + sm_errors (lg_merge (lg_workers s)) = turns period dur"
proof -
  have "map snd out = map (\<lambda>j. start + j * period) [0..<turns period dur]"
    using lg_scheduler_exact [OF assms(1-4), of clk] assms(5) by simp
  then have "length (lg_pushes es) = turns period dur" using assms(7) by simp
  then show ?thesis using lg_all_counted [OF assms(6,8)] by simp
qed

end
