(* ===== verification/Loadgen_Output.thy ===== *)
theory Loadgen_Output
  imports Loadgen_Main
begin

text \<open>
  The output of \<open>loadgen/src/main.rs\<close>: \<open>write_output\<close>, \<open>write_histogram_dump\<close> and \<open>dump_path\<close>. The
  statistics of a histogram belong to the \<open>hdrhistogram\<close> crate and are arguments, and so is the
  printing of doubles. A path is whether it is absolute and its components, which is what the
  standard library compares paths by.
\<close>

section \<open>Paths\<close>

type_synonym path = "bool \<times> str list"

definition path_of :: "str \<Rightarrow> path" where
  "path_of s =
     (let cs = split_on (\<lambda>c. c = CHR ''/'') s in
      (s \<noteq> [] \<and> hd s = CHR ''/'',
       (if hd cs = ''.'' then [''.''] else []) @ filter (\<lambda>c. c \<noteq> [] \<and> c \<noteq> ''.'') cs))"

definition parent :: "path \<Rightarrow> path option" where
  "parent p = (if snd p = [] then None else Some (fst p, butlast (snd p)))"

definition file_name :: "path \<Rightarrow> str option" where
  "file_name p = (if snd p = [] \<or> last (snd p) \<in> {''.'', ''..''} then None else Some (last (snd p)))"

definition stem_of :: "str \<Rightarrow> str" where
  "stem_of f =
     (case position (\<lambda>c. c = CHR ''.'') (rev f) of
        None \<Rightarrow> f
      | Some i \<Rightarrow> if i + 1 = length f then f else take (length f - i - 1) f)"

definition f64_as_u64 :: "f64 \<Rightarrow> nat" where
  "f64_as_u64 x =
     (case x of NaN \<Rightarrow> 0 | NegInf \<Rightarrow> 0 | PosInf \<Rightarrow> 2 ^ 64 - 1 | Finite q \<Rightarrow> min (nat \<lfloor>q\<rfloor>) (2 ^ 64 - 1))"

definition dump_path :: "lg_config \<Rightarrow> path" where
  "dump_path cfg =
     (let out = path_of (lgc_out cfg);
          dir = (case parent out of Some d \<Rightarrow> d | None \<Rightarrow> path_of ''.'');
          stem = (case file_name out of Some f \<Rightarrow> stem_of f | None \<Rightarrow> ''loadgen'') in
      (fst dir, snd dir @ [stem @ ''_r'' @ decimal (f64_as_u64 (lgc_rate cfg)) @ ''_c'' @ decimal (lgc_connections cfg) @ ''.hgrm'']))"

section \<open>Rows\<close>

text \<open>What the crate says about a histogram, and how doubles are printed with one and seven digits.\<close>

record hist_stats =
  value_at_quantile :: "u64 list \<Rightarrow> rat \<Rightarrow> nat"
  count_up_to :: "u64 list \<Rightarrow> nat \<Rightarrow> nat"
  hist_max :: "u64 list \<Rightarrow> nat"
  fmt1 :: "f64 \<Rightarrow> str"
  fmt7 :: "rat \<Rightarrow> str"

definition throughput_rps :: "lg_config \<Rightarrow> summary \<Rightarrow> rat" where
  "throughput_rps cfg sm = f64_round (f64_round (of_nat (sm_ok sm)) / as_secs_f64 (lgc_duration cfg))"

definition CSV_HEADER :: bytes where
  "CSV_HEADER = ''model,rate,connections,throughput_rps,errors,p50,p90,p99,p999,p9999,max'' @ [LF]"

fun comma_join :: "str list \<Rightarrow> str" where
  "comma_join [] = []"
| "comma_join [s] = s"
| "comma_join (s # ss) = s @ '','' @ comma_join ss"

definition csv_row :: "hist_stats \<Rightarrow> lg_config \<Rightarrow> summary \<Rightarrow> bytes" where
  "csv_row st cfg sm =
     comma_join
       ([lgc_model cfg, decimal (f64_as_u64 (lgc_rate cfg)), decimal (lgc_connections cfg),
         fmt1 st (Finite (throughput_rps cfg sm)), decimal (sm_errors sm)] @
        map (\<lambda>q. decimal (value_at_quantile st (sm_hist sm) (f64_round q)))
          [1 / 2, 9 / 10, 99 / 100, 999 / 1000, 9999 / 10000] @
        [decimal (hist_max st (sm_hist sm))]) @ [LF]"

text \<open>The loop of \<open>write_histogram_dump\<close> over the quantiles.\<close>

partial_function (option) ladder :: "rat \<Rightarrow> rat \<Rightarrow> rat list \<Rightarrow> rat list option" where
  "ladder quantile half_distance written =
     (if quantile \<ge> 1 then Some (written @ [quantile])
      else
        let half = f64_round (half_distance / 2); q = f64_round (1 - half) in
        ladder (if q > f64_round (9999999 / 10 ^ 7) then 1 else q) half (written @ [quantile]))"


definition DUMP_HEADER :: bytes where
  "DUMP_HEADER = ''value_us,percentile,total_count,inverse_1_minus_p'' @ [LF]"

definition dump_row :: "hist_stats \<Rightarrow> u64 list \<Rightarrow> rat \<Rightarrow> bytes" where
  "dump_row st h quantile =
     (let value = value_at_quantile st h quantile;
          inverse = (if quantile \<ge> 1 then PosInf else f64_recip (Finite (f64_round (1 - quantile)))) in
      comma_join [decimal value, fmt7 st quantile, decimal (count_up_to st h value), fmt1 st inverse] @ [LF])"

section \<open>Writing\<close>

text \<open>
  \<open>writeln!\<close>, line by line: each write succeeds, or fails after some of its bytes. Writes beyond the
  list of answers succeed.
\<close>

fun write_lines :: "(nat \<times> io_error) option list \<Rightarrow> bytes list \<Rightarrow> bytes \<Rightarrow> bytes \<times> (io_error + unit)" where
  "write_lines anss [] f = (f, Inr ())"
| "write_lines [] (l # ls) f = write_lines [] ls (f @ l)"
| "write_lines (None # anss) (l # ls) f = write_lines anss ls (f @ l)"
| "write_lines (Some (n, e) # anss) (l # ls) f = (f @ take n l, Inl e)"

record out_env =
  oe_mkdir :: "io_error option"
  oe_metadata :: "io_error option"
  oe_open_csv :: "io_error option"
  oe_csv_writes :: "(nat \<times> io_error) option list"
  oe_open_dump :: "io_error option"
  oe_dump_writes :: "(nat \<times> io_error) option list"

text \<open>The contents of the two files; \<open>None\<close> for a file that does not exist.\<close>

record out_files =
  csv_file :: "bytes option"
  dump_file :: "bytes option"

definition content :: "bytes option \<Rightarrow> bytes" where
  "content f = (case f of Some bs \<Rightarrow> bs | None \<Rightarrow> [])"

text \<open>No value means that the loop over the quantiles does not end.\<close>

definition write_histogram_dump ::
  "hist_stats \<Rightarrow> out_env \<Rightarrow> lg_config \<Rightarrow> summary \<Rightarrow> out_files \<Rightarrow> (out_files \<times> (io_error + unit)) option" where
  "write_histogram_dump st env cfg sm fs =
     (case oe_open_dump env of
        Some e \<Rightarrow> Some (fs, Inl e)
      | None \<Rightarrow>
          map_option (\<lambda>qs. case write_lines (oe_dump_writes env) (DUMP_HEADER # map (dump_row st (sm_hist sm)) qs) [] of
              (bs, r) \<Rightarrow> (fs\<lparr>dump_file := Some bs\<rparr>, r)) (ladder 0 1 []))"

definition write_output ::
  "hist_stats \<Rightarrow> out_env \<Rightarrow> lg_config \<Rightarrow> summary \<Rightarrow> out_files \<Rightarrow> (out_files \<times> (io_error + unit)) option" where
  "write_output st env cfg sm fs =
     (case (case parent (path_of (lgc_out cfg)) of
              Some d \<Rightarrow> if d \<noteq> (False, []) then oe_mkdir env else None
            | None \<Rightarrow> None) of
        Some e \<Rightarrow> Some (fs, Inl e)
      | None \<Rightarrow>
          let needs_header = (case oe_metadata env of None \<Rightarrow> length (content (csv_file fs)) = 0 | Some e \<Rightarrow> True) in
          (case oe_open_csv env of
             Some e \<Rightarrow> Some (fs, Inl e)
           | None \<Rightarrow>
               (case write_lines (oe_csv_writes env)
                       ((if needs_header then [CSV_HEADER] else []) @ [csv_row st cfg sm]) (content (csv_file fs)) of
                  (bs, Inl e) \<Rightarrow> Some (fs\<lparr>csv_file := Some bs\<rparr>, Inl e)
                | (bs, Inr u) \<Rightarrow> write_histogram_dump st env cfg sm (fs\<lparr>csv_file := Some bs\<rparr>))))"

section \<open>Properties\<close>

lemma ladder_limit:
  "1 - 1 / 2 ^ 23 < f64_round (9999999 / 10 ^ 7)" "f64_round (9999999 / 10 ^ 7) < 1 - 1 / 2 ^ 24"
proof -
  let ?c = "9999999 / 10 ^ 7 :: rat"
  have e: "\<bar>f64_round ?c - ?c\<bar> \<le> ?c / 2 ^ 53" by (rule f64_round_error) simp
  then have "f64_round ?c \<le> ?c + ?c / 2 ^ 53" "?c - ?c / 2 ^ 53 \<le> f64_round ?c" by linarith+
  moreover have "?c + ?c / 2 ^ 53 < 1 - 1 / 2 ^ 24" "1 - 1 / 2 ^ 23 < ?c - ?c / 2 ^ 53" by simp_all
  ultimately show "1 - 1 / 2 ^ 23 < f64_round ?c" "f64_round ?c < 1 - 1 / 2 ^ 24" by linarith+
qed

lemma ladder_round:
  assumes "k \<le> 24"
  shows "f64_round (1 / 2 ^ k) = 1 / 2 ^ k" "f64_round (1 - 1 / 2 ^ k) = 1 - 1 / 2 ^ k"
proof -
  have "(2 :: nat) ^ k \<le> 2 ^ 24" using assms by (rule power_increasing) simp
  then have "2 ^ k - 1 < (2 :: nat) ^ 53" by simp
  moreover have "of_nat (2 ^ k - 1) / 2 ^ k = (1 - 1 / 2 ^ k :: rat)" by (simp add: of_nat_diff field_simps)
  ultimately show "f64_round (1 - 1 / 2 ^ k) = 1 - 1 / 2 ^ k" using f64_round_dyadic by metis
  show "f64_round (1 / 2 ^ k) = 1 / 2 ^ k" using f64_round_dyadic [of 1 k] by simp
qed

lemma ladder_step:
  assumes "k \<le> 23"
  shows "ladder (1 - 1 / 2 ^ k) (1 / 2 ^ k) w =
    ladder (if 1 - 1 / 2 ^ Suc k > f64_round (9999999 / 10 ^ 7) then 1 else 1 - 1 / 2 ^ Suc k) (1 / 2 ^ Suc k)
      (w @ [1 - 1 / 2 ^ k])"
proof -
  have "(1 / 2 ^ k) / 2 = (1 / 2 ^ Suc k :: rat)" by simp
  moreover have "\<not> 1 - 1 / 2 ^ k \<ge> (1 :: rat)" by (simp add: not_le)
  moreover have "Suc k \<le> 24" using assms by simp
  ultimately show ?thesis
    using ladder_round [of "Suc k"] by (subst ladder.simps) (simp only: Let_def if_False)
qed

lemma ladder_from:
  assumes "k \<le> 23"
  shows "ladder (1 - 1 / 2 ^ k) (1 / 2 ^ k) w = Some (w @ map (\<lambda>k. 1 - 1 / 2 ^ k) [k..<24] @ [1])"
  using assms
proof (induction "23 - k" arbitrary: k w)
  case 0
  then have k: "k = 23" by simp
  have "ladder (1 - 1 / 2 ^ k) (1 / 2 ^ k) w = ladder 1 (1 / 2 ^ Suc k) (w @ [1 - 1 / 2 ^ k])"
    using ladder_step [of k w] ladder_limit(2) by (simp add: k)
  then show ?case by (simp add: ladder.simps [of 1] k)
next
  case (Suc n)
  then have k: "k < 23" by simp
  have "(1 :: rat) / 2 ^ 23 \<le> 1 / 2 ^ Suc k"
    using k by (intro divide_left_mono power_increasing) simp_all
  then have "\<not> 1 - 1 / 2 ^ Suc k > f64_round (9999999 / 10 ^ 7)" using ladder_limit(1) by linarith
  then have "ladder (1 - 1 / 2 ^ k) (1 / 2 ^ k) w = ladder (1 - 1 / 2 ^ Suc k) (1 / 2 ^ Suc k) (w @ [1 - 1 / 2 ^ k])"
    using ladder_step [of k w] k by (simp only: if_False less_imp_le)
  also have "\<dots> = Some ((w @ [1 - 1 / 2 ^ k]) @ map (\<lambda>k. 1 - 1 / 2 ^ k) [Suc k..<24] @ [1])"
    by (rule Suc.hyps(1)) (use Suc.hyps(2) k in simp_all)
  finally show ?case using k by (simp add: upt_conv_Cons)
qed

lemma ladder_ends: "ladder 0 1 [] = Some (map (\<lambda>k. 1 - 1 / 2 ^ k) [0..<24] @ [1])"
  using ladder_from [of 0 "[]"] by simp

lemma write_lines_ok: "write_lines anss ls f = (bs, Inr u) \<Longrightarrow> bs = f @ concat ls"
  by (induction anss ls f arbitrary: bs rule: write_lines.induct) auto

lemma write_lines_prefix: "prefix f (fst (write_lines anss ls f))"
  by (induction anss ls f rule: write_lines.induct) (auto dest: append_prefixD)

lemma write_histogram_dump_returns:
  "\<exists>fs' r. write_histogram_dump st env cfg sm fs = Some (fs', r) \<and> csv_file fs' = csv_file fs"
  by (cases "write_lines (oe_dump_writes env) (DUMP_HEADER # map (dump_row st (sm_hist sm)) (map (\<lambda>k. 1 - 1 / 2 ^ k) [0..<24] @ [1])) []")
     (simp add: write_histogram_dump_def ladder_ends split: option.split)

text \<open>Writing the output always returns, and never loses a row that the CSV file already had.\<close>

theorem write_output_returns:
  "\<exists>fs' r. write_output st env cfg sm fs = Some (fs', r) \<and> prefix (content (csv_file fs)) (content (csv_file fs'))"
proof -
  define ls where "ls = (if (case oe_metadata env of None \<Rightarrow> length (content (csv_file fs)) = 0 | Some e \<Rightarrow> True)
      then [CSV_HEADER] else []) @ [csv_row st cfg sm]"
  obtain bs r where w: "write_lines (oe_csv_writes env) ls (content (csv_file fs)) = (bs, r)" by fastforce
  have p: "prefix (content (csv_file fs)) bs"
    using w write_lines_prefix [of "content (csv_file fs)" "oe_csv_writes env" ls] by simp
  have c: "content (Some bs) = bs" by (simp add: content_def)
  obtain fs' r' where d: "write_histogram_dump st env cfg sm (fs\<lparr>csv_file := Some bs\<rparr>) = Some (fs', r')"
    "csv_file fs' = Some bs"
    using write_histogram_dump_returns [of st env cfg sm "fs\<lparr>csv_file := Some bs\<rparr>"] by auto
  note def = write_output_def [of st env cfg sm fs, unfolded Let_def, folded ls_def, unfolded w]
  show ?thesis using p c d by (cases r) (simp_all add: def split: option.split)
qed

text \<open>
  A run whose output was written appended its row, after the header when the file was new or empty,
  and replaced the dump by the header and a line for each of the twenty-five quantiles.
\<close>

theorem write_output_ok:
  assumes "write_output st env cfg sm fs = Some (fs', Inr ())" and "oe_metadata env = None"
  shows "csv_file fs' = Some (content (csv_file fs) @ (if content (csv_file fs) = [] then CSV_HEADER else []) @ csv_row st cfg sm) \<and>
    dump_file fs' = Some (DUMP_HEADER @ concat (map (dump_row st (sm_hist sm)) (map (\<lambda>k. 1 - 1 / 2 ^ k) [0..<24] @ [1])))"
  using assms
  by (auto simp: write_output_def write_histogram_dump_def ladder_ends Let_def simp del: upt_rec_numeral
      dest!: write_lines_ok split: option.splits prod.splits sum.splits if_splits)

text \<open>The dump never overwrites the CSV file.\<close>

lemma stem_of_dot: "stem_of f = f \<or> (\<exists>e. f = stem_of f @ CHR ''.'' # e)"
proof (cases "position (\<lambda>c. c = CHR ''.'') (rev f)")
  case (Some i)
  then have i: "i < length f" "rev f ! i = CHR ''.''" using position_SomeD [OF Some] by auto
  define k where "k = length f - i - 1"
  have "k < length f" "f ! k = CHR ''.''" using i by (simp_all add: k_def rev_nth)
  then have "f = take k f @ CHR ''.'' # drop (Suc k) f" by (metis id_take_nth_drop)
  with Some show ?thesis by (auto simp: stem_of_def k_def)
qed (simp add: stem_of_def)

lemma stem_of_suffix: "stem_of f @ CHR ''_'' # x \<noteq> f"
proof
  assume eq: "stem_of f @ CHR ''_'' # x = f"
  from stem_of_dot [of f] show False
  proof
    assume "stem_of f = f"
    with eq show False by simp
  next
    assume "\<exists>e. f = stem_of f @ CHR ''.'' # e"
    then obtain e where "f = stem_of f @ CHR ''.'' # e" by blast
    from trans [OF eq this] show False by simp
  qed
qed

lemma dump_path_other: "dump_path cfg \<noteq> path_of (lgc_out cfg)"
proof (cases "snd (path_of (lgc_out cfg)) = []")
  case True
  moreover have "snd (dump_path cfg) \<noteq> []" by (simp add: dump_path_def Let_def)
  ultimately show ?thesis by metis
next
  case False
  let ?f = "last (snd (path_of (lgc_out cfg)))"
  have "last (snd (dump_path cfg)) \<noteq> ?f"
    using False stem_of_suffix [of ?f] by (auto simp: dump_path_def Let_def parent_def file_name_def)
  then show ?thesis by auto
qed

lemma dump_path_example:
  "dump_path (lg_config_default\<lparr>lgc_rate := Finite 1500, lgc_connections := 64, lgc_out := ''bench/results/iterative.csv''\<rparr>) =
     path_of ''bench/results/iterative_r1500_c64.hgrm''"
  by code_simp

end
