(* ===== verification/Server_Tests.thy ===== *)
theory Server_Tests
  imports Sys_Calls Uring_Memory Serve Loadgen_Output
begin

text \<open>
  The unit tests of the \<open>server\<close> and \<open>loadgen\<close> crates, each a definition with its assertions in order,
  and lemmas that the model passes them. What the kernel answers in a test is an argument; where a
  test relies on the documented behaviour of \<open>poll\<close>, \<open>epoll_wait\<close> or \<open>accept4\<close>, that behaviour is a named
  hypothesis of the lemma. The theory also has the names the models give themselves.
\<close>

section \<open>Names\<close>

text \<open>\<open>Server::name\<close> of every model: the name by which \<open>select_model\<close> finds it.\<close>

fun model_name :: "model \<Rightarrow> str" where
  "model_name Iterative = ''iterative''"
| "model_name Forking = ''forking''"
| "model_name Preforked = ''preforked''"
| "model_name ThreadPerConn = ''thread-per-conn''"
| "model_name ThreadPool = ''thread-pool''"
| "model_name Poll = ''poll''"
| "model_name EpollLt = ''epoll-lt''"
| "model_name EpollEt = ''epoll-et''"
| "model_name EventLoop = ''event-loop''"
| "model_name Multireactor = ''multireactor''"
| "model_name IoUring = ''io-uring''"

lemma select_model_name: "select_model name = Some m \<longleftrightarrow> name = model_name m"
proof
  show "select_model name = Some m \<Longrightarrow> name = model_name m" by (auto simp: select_model_def split: if_splits)
  show "name = model_name m \<Longrightarrow> select_model name = Some m" by (cases m) (simp_all add: select_model_def)
qed

section \<open>System calls\<close>

definition cvt_passes_through_non_negative_test :: "io_error \<Rightarrow> bool" where
  "cvt_passes_through_non_negative_test errno \<longleftrightarrow> cvt errno 0 = Inr 0 \<and> cvt errno 7 = Inr 7"

text \<open>\<open>errno\<close> is set to \<open>EBADF\<close> first.\<close>

definition cvt_maps_minus_one_to_last_os_error_test :: "nat \<Rightarrow> bool" where
  "cvt_maps_minus_one_to_last_os_error_test EBADF \<longleftrightarrow> cvt (OsError EBADF) (-1) = Inl (OsError EBADF)"

lemma syscall_tests: "cvt_passes_through_non_negative_test errno" "cvt_maps_minus_one_to_last_os_error_test EBADF"
  by (simp_all add: cvt_passes_through_non_negative_test_def cvt_maps_minus_one_to_last_os_error_test_def cvt_def)

definition insert_get_iter_remove_test :: "tcp_stream \<Rightarrow> instant \<Rightarrow> bool" where
  "insert_get_iter_remove_test server now \<longleftrightarrow>
     (let r = table_insert server (conn_new now (secs 5)) table_new; t = fst r; f = snd r; t' = table_remove f t in
      table_is_empty table_new \<and> table_len t = 1 \<and> table_get t f \<noteq> None \<and>
      map fst (table_iter t) = [f] \<and> table_len t' = 0 \<and> table_get t' f = None)"

lemma conn_table_test: "insert_get_iter_remove_test server now"
  by code_simp

text \<open>The signal is delivered to the calling thread, and its handler runs before \<open>raise\<close> returns.\<close>

definition shutdown_flag_set_by_sigterm_test :: "signals \<Rightarrow> bool" where
  "shutdown_flag_set_by_sigterm_test s \<longleftrightarrow>
     (let s1 = install_shutdown_flag False s in
      sg_flag s1 = Some False \<and>
      (case deliver_signal SIGTERM [] s1 of None \<Rightarrow> False | Some s2 \<Rightarrow> sg_flag s2 = Some True))"

lemma signal_test: "shutdown_flag_set_by_sigterm_test s"
  using shutdown_signal_seen [of SIGTERM False s]
  by (auto simp: shutdown_flag_set_by_sigterm_test_def Let_def install_shutdown_flag_def install_def)

text \<open>\<open>n\<close> is the answer of \<open>sysconf\<close> and \<open>res\<close> that of \<open>sched_setaffinity\<close>.\<close>

definition num_cores_is_at_least_one_test :: "int \<Rightarrow> bool" where
  "num_cores_is_at_least_one_test n \<longleftrightarrow> num_cores n \<ge> 1"

definition pin_to_core_zero_succeeds_test :: "int \<Rightarrow> int \<Rightarrow> io_error \<Rightarrow> bool" where
  "pin_to_core_zero_succeeds_test n res errno \<longleftrightarrow> fst (pin_to_core n res errno 0) = Inr ()"

definition pin_to_core_out_of_range_warns_and_continues_test :: "int \<Rightarrow> int \<Rightarrow> io_error \<Rightarrow> bool" where
  "pin_to_core_out_of_range_warns_and_continues_test n res errno \<longleftrightarrow>
     fst (pin_to_core n res errno USIZE_MAX) = Inr ()"

lemma affinity_tests:
  "num_cores_is_at_least_one_test n"
  "res \<noteq> -1 \<Longrightarrow> pin_to_core_zero_succeeds_test n res errno"
  "n < 2 ^ 63 \<Longrightarrow> pin_to_core_out_of_range_warns_and_continues_test n res errno"
  by (auto simp: num_cores_is_at_least_one_test_def pin_to_core_zero_succeeds_test_def
      pin_to_core_out_of_range_warns_and_continues_test_def pin_to_core_def num_cores_def USIZE_MAX_def)

section \<open>Readiness\<close>

subsection \<open>poll\<close>

text \<open>
  What \<open>poll\<close> does according to its documentation, when \<open>ready\<close> are the conditions of the descriptors:
  it reports those asked for, and the errors always, and returns how many entries have a report.
\<close>

definition poll_report :: "poll_abi \<Rightarrow> (raw_fd \<Rightarrow> 16 word) \<Rightarrow> poll_fd \<Rightarrow> poll_fd" where
  "poll_report abi ready p =
     p\<lparr>pf_revents := ready (pf_fd p) AND (pf_events p OR POLLERR abi OR POLLHUP abi OR POLLNVAL abi)\<rparr>"

definition poll_reports ::
  "poll_abi \<Rightarrow> (raw_fd \<Rightarrow> 16 word) \<Rightarrow> (poll_fd list \<Rightarrow> 32 word \<Rightarrow> io_error \<times> int \<times> poll_fd list) \<Rightarrow> bool" where
  "poll_reports abi ready answer \<longleftrightarrow>
     (\<forall>fds ms. snd (answer fds ms) =
        (let fds' = map (poll_report abi ready) fds in (int (length (filter (\<lambda>p. pf_revents p \<noteq> 0) fds')), fds')))"

definition ready_for :: "raw_fd \<Rightarrow> 16 word \<Rightarrow> raw_fd \<Rightarrow> 16 word" where
  "ready_for f w g = (if g = f then w else 0)"

text \<open>The answers are those of the two calls of \<open>poll\<close> and of the \<open>write\<close> between them.\<close>

definition reports_readable_after_write_test ::
  "poll_abi \<Rightarrow> (poll_fd list \<Rightarrow> 32 word \<Rightarrow> io_error \<times> int \<times> poll_fd list) \<Rightarrow> int \<Rightarrow>
     (poll_fd list \<Rightarrow> 32 word \<Rightarrow> io_error \<times> int \<times> poll_fd list) \<Rightarrow> raw_fd \<Rightarrow> bool" where
  "reports_readable_after_write_test abi poll1 written poll2 rd \<longleftrightarrow>
     (let r1 = poll_call poll1 [poll_fd_new abi rd InterestRead] (Some 50000000);
          r2 = poll_call poll2 (fst r1) (Some 500000000) in
      snd r1 = Inr 0 \<and> \<not> pf_readable abi (fst r1 ! 0) \<and> written = 1 \<and>
      snd r2 = Inr 1 \<and> pf_readable abi (fst r2 ! 0) \<and> \<not> pf_error abi (fst r2 ! 0))"

definition write_end_is_writable_test ::
  "poll_abi \<Rightarrow> (poll_fd list \<Rightarrow> 32 word \<Rightarrow> io_error \<times> int \<times> poll_fd list) \<Rightarrow> raw_fd \<Rightarrow> bool" where
  "write_end_is_writable_test abi poll1 wr \<longleftrightarrow>
     (let r = poll_call poll1 [poll_fd_new abi wr InterestWrite] (Some 500000000) in
      snd r = Inr 1 \<and> pf_writable abi (fst r ! 0))"

lemma poll_call_reports:
  assumes "poll_reports abi ready answer"
  shows "poll_call answer fds timeout =
    (let fds' = map (poll_report abi ready) fds in (fds', Inr (length (filter (\<lambda>p. pf_revents p \<noteq> 0) fds'))))"
proof -
  obtain errno raw fds' where k: "answer fds (timeout_to_millis timeout) = (errno, raw, fds')" by (rule prod_cases3)
  have "snd (answer fds (timeout_to_millis timeout)) =
     (let fds' = map (poll_report abi ready) fds in (int (length (filter (\<lambda>p. pf_revents p \<noteq> 0) fds')), fds'))"
    by (rule spec [OF spec [OF assms [unfolded poll_reports_def]]])
  with k show ?thesis by (simp add: poll_call_def syscall_def cvt_def Let_def)
qed

lemma poll_tests:
  "poll_reports linux_poll (ready_for rd 0) poll1 \<Longrightarrow> poll_reports linux_poll (ready_for rd 1) poll2 \<Longrightarrow>
     reports_readable_after_write_test linux_poll poll1 1 poll2 rd"
  "poll_reports linux_poll (ready_for wr 4) poll1 \<Longrightarrow> write_end_is_writable_test linux_poll poll1 wr"
  by (simp_all add: reports_readable_after_write_test_def write_end_is_writable_test_def poll_call_reports
      poll_report_def poll_fd_new_def ready_for_def pf_readable_def pf_writable_def pf_error_def linux_poll_def Let_def)

subsection \<open>epoll\<close>

text \<open>
  What \<open>epoll_wait\<close> does according to its documentation, on an instance with one descriptor that was
  registered with \<open>ev\<close>: it reports the conditions asked for, and the errors always, with the user data.
\<close>

definition epoll_reports ::
  "epoll_abi \<Rightarrow> 32 word \<Rightarrow> epoll_event option \<Rightarrow> (usize \<Rightarrow> 32 word \<Rightarrow> io_error \<times> int \<times> epoll_event list) \<Rightarrow> bool" where
  "epoll_reports abi ready ev answer \<longleftrightarrow>
     (\<forall>cap ms. cap > 0 \<longrightarrow> snd (answer cap ms) =
        (case ev of
           None \<Rightarrow> (0, [])
         | Some (asked, data) \<Rightarrow>
             let report = ready AND (asked OR EPOLLERR abi OR EPOLLHUP abi) in
             if report = 0 then (0, []) else (1, [(report, data)])))"

text \<open>The answers are those to \<open>add\<close>, the two waits with the \<open>write\<close> between them, and \<open>delete\<close>.\<close>

definition waits_then_reports_readable_pipe_test ::
  "epoll_abi \<Rightarrow> (ctl_call \<Rightarrow> io_error \<times> int) \<Rightarrow> (usize \<Rightarrow> 32 word \<Rightarrow> io_error \<times> int \<times> epoll_event list) \<Rightarrow> int \<Rightarrow>
     (usize \<Rightarrow> 32 word \<Rightarrow> io_error \<times> int \<times> epoll_event list) \<Rightarrow> 32 word \<Rightarrow> bool" where
  "waits_then_reports_readable_pipe_test abi ctl wait1 written wait2 rd \<longleftrightarrow>
     snd (ep_add abi ctl rd InterestRead Level) = Inr () \<and>
     ep_wait abi wait1 8 (Some 50000000) = Inr ([], 0) \<and> written = 1 \<and>
     (case ep_wait abi wait2 8 (Some 500000000) of
        Inl e \<Rightarrow> False
      | Inr (events, n) \<Rightarrow>
          n = 1 \<and> ev_fd (events ! 0) = rd \<and> ev_readable (events ! 0) \<and> \<not> ev_writable (events ! 0)) \<and>
     snd (ep_delete ctl rd) = Inr ()"

definition modify_to_write_interest_fires_test ::
  "epoll_abi \<Rightarrow> (ctl_call \<Rightarrow> io_error \<times> int) \<Rightarrow> (usize \<Rightarrow> 32 word \<Rightarrow> io_error \<times> int \<times> epoll_event list) \<Rightarrow> 32 word \<Rightarrow> bool" where
  "modify_to_write_interest_fires_test abi ctl wait1 wr \<longleftrightarrow>
     snd (ep_add abi ctl wr InterestRead Level) = Inr () \<and>
     snd (ep_modify abi ctl wr InterestWrite Level) = Inr () \<and>
     (case ep_wait abi wait1 4 (Some 500000000) of
        Inl e \<Rightarrow> False
      | Inr (events, n) \<Rightarrow> n = 1 \<and> ev_fd (events ! 0) = wr \<and> ev_writable (events ! 0))"

lemma ep_wait_reports:
  assumes "epoll_reports abi ready (Some (asked, user_data f)) answer" and "ready AND (asked OR EPOLLERR abi OR EPOLLHUP abi) = w"
  shows "ep_wait abi answer capacity timeout =
    Inr (if w = 0 then ([], 0) else ([decode_event abi (w, user_data f)], 1))"
proof -
  obtain errno raw evs where k: "answer (max capacity 1) (timeout_to_millis timeout) = (errno, raw, evs)"
    by (rule prod_cases3)
  have "snd (answer (max capacity 1) (timeout_to_millis timeout)) = (if w = 0 then (0, []) else (1, [(w, user_data f)]))"
    using spec [OF spec [OF assms(1) [unfolded epoll_reports_def]], of "max capacity 1" "timeout_to_millis timeout"] assms(2)
    by (simp add: Let_def)
  with k show ?thesis by (auto simp: ep_wait_def syscall_def cvt_def)
qed

text \<open>The registration the kernel holds in a test is the one the last call made.\<close>

lemma epoll_readable_test:
  assumes "\<And>call. snd (ctl call) = 0"
    and "ev = interest_after [fst (ep_add linux_epoll ctl rd InterestRead Level)] rd"
    and "epoll_reports linux_epoll 0 ev wait1" and "epoll_reports linux_epoll 1 ev wait2"
  shows "waits_then_reports_readable_pipe_test linux_epoll ctl wait1 1 wait2 rd"
proof -
  have ev: "ev = Some (events_mask linux_epoll InterestRead Level, user_data rd)"
    using assms(2) by (simp add: ep_add_def ep_ctl_def Let_def)
  note waits = ep_wait_reports [OF assms(3) [unfolded ev] refl] ep_wait_reports [OF assms(4) [unfolded ev] refl]
  show ?thesis
    using assms(1) unfolding waits_then_reports_readable_pipe_test_def waits
    by (simp add: ep_add_def ep_ctl_def ep_delete_def unit_result_def
        syscall_def cvt_def Let_def decode_event_def ucast_user_data events_mask_def linux_epoll_def)
qed

lemma epoll_modify_test:
  assumes "\<And>call. snd (ctl call) = 0"
    and "ev = interest_after [fst (ep_modify linux_epoll ctl wr InterestWrite Level), fst (ep_add linux_epoll ctl wr InterestRead Level)] wr"
    and "epoll_reports linux_epoll 4 ev wait1"
  shows "modify_to_write_interest_fires_test linux_epoll ctl wait1 wr"
proof -
  have ev: "ev = Some (events_mask linux_epoll InterestWrite Level, user_data wr)"
    using assms(2) by (simp add: ep_modify_def ep_ctl_def Let_def)
  note waits = ep_wait_reports [OF assms(3) [unfolded ev] refl]
  show ?thesis
    using assms(1) unfolding modify_to_write_interest_fires_test_def waits
    by (simp add: ep_add_def ep_modify_def ep_ctl_def unit_result_def
        syscall_def cvt_def Let_def decode_event_def ucast_user_data events_mask_def linux_epoll_def)
qed

section \<open>Accepting\<close>

text \<open>The loop of the test over the answers of \<open>accept4\<close>, at most \<open>n\<close> of them; the outer \<open>None\<close> is a panic.\<close>

fun accept_attempts ::
  "int \<Rightarrow> int \<Rightarrow> nat \<Rightarrow> (io_error + 's \<times> sockaddr_storage) list \<Rightarrow> ('s \<times> socket_addr) option option" where
  "accept_attempts af_inet af_inet6 n [] = Some None"
| "accept_attempts af_inet af_inet6 n (x # xs) =
     (if n = 0 then Some None
      else (case accept_nonblocking af_inet af_inet6 x of
          Inl e \<Rightarrow> None
        | Inr (Some pair) \<Rightarrow> Some (Some pair)
        | Inr None \<Rightarrow> accept_attempts af_inet af_inet6 (n - 1) xs))"

definition is_loopback :: "socket_addr \<Rightarrow> bool" where
  "is_loopback addr =
     (case addr of V4 ip port \<Rightarrow> take 1 ip = [CHR 0x7F]
      | V6 ip port fl sc \<Rightarrow> ip = replicate 15 (CHR 0x00) @ [CHR 0x01])"

definition accept_nonblocking_eagain_then_accepts_test ::
  "int \<Rightarrow> int \<Rightarrow> io_error + 32 word \<Rightarrow> io_error + 's \<times> sockaddr_storage \<Rightarrow>
     (io_error + 's \<times> sockaddr_storage) list \<Rightarrow> bool" where
  "accept_nonblocking_eagain_then_accepts_test af_inet af_inet6 nonblocking first later \<longleftrightarrow>
     (case nonblocking of Inl e \<Rightarrow> False | Inr flags \<Rightarrow> True) \<and>
     accept_nonblocking af_inet af_inet6 first = Inr None \<and>
     (case accept_attempts af_inet af_inet6 200 later of
        Some (Some (f, peer)) \<Rightarrow> is_loopback peer
      | _ \<Rightarrow> False)"

lemma accept_attempts_idle:
  "k < n \<Longrightarrow> accept_attempts af_inet af_inet6 n (replicate k (Inl WouldBlock) @ xs) = accept_attempts af_inet af_inet6 (n - k) xs"
  by (induction k arbitrary: n) (simp_all add: accept_nonblocking_def)

lemma accept_test:
  assumes "k < 200" and "ss_family st = af_inet" and "take 1 (sin_addr st) = [CHR 0x7F]"
  shows "accept_nonblocking_eagain_then_accepts_test af_inet af_inet6 (Inr flags) (Inl WouldBlock)
     (replicate k (Inl WouldBlock) @ Inr (f, st) # rest)"
  using assms
  by (simp add: accept_nonblocking_eagain_then_accepts_test_def accept_attempts_idle accept_nonblocking_def
      sockaddr_to_socketaddr_def is_loopback_def)

section \<open>The ring\<close>

definition user_data_roundtrip_test :: bool where
  "user_data_roundtrip_test \<longleftrightarrow>
     list_all (\<lambda>f. list_all (\<lambda>op. unpack (pack op f) = (op, f)) [OP_ACCEPT, OP_RECV, OP_SEND, OP_CLOSE])
       [3, 4, 1024, 0x7FFFFFFF]"

definition parse_release_handles_dotted_and_dashed_strings_test :: bool where
  "parse_release_handles_dotted_and_dashed_strings_test \<longleftrightarrow>
     parse_release ''6.1.0'' = (6, 1) \<and> parse_release ''5.19.17-arch1-1'' = (5, 19) \<and>
     parse_release ''7.0.0-15-generic'' = (7, 0) \<and> parse_release [] = (0, 0)"

text \<open>The size of an entry and of a page, and the answer of \<open>mmap\<close>, are arguments.\<close>

definition buf_ring_alloc_and_stage_fills_pool_test :: "usize \<Rightarrow> usize \<Rightarrow> io_error option \<Rightarrow> bool" where
  "buf_ring_alloc_and_stage_fills_pool_test entry_size page mmap \<longleftrightarrow>
     (case buf_memory_new entry_size page mmap 8 64 of
        Some (Inr br) \<Rightarrow> entries (bm_ring br) = 8 \<and> length (pool br) = 8 * 64 \<and> tail (bm_ring br) = 8
      | _ \<Rightarrow> False)"

lemma uring_tests: "user_data_roundtrip_test" "parse_release_handles_dotted_and_dashed_strings_test"
  by code_simp+

lemma buf_ring_test: "buf_ring_alloc_and_stage_fills_pool_test entry_size page None"
proof -
  have "is_power_of_two 8" "entries (buf_ring_new 8) = 8" "tail (buf_ring_new 8) = 8" by code_simp+
  then show ?thesis by (simp add: buf_ring_alloc_and_stage_fills_pool_test_def buf_memory_new_def Let_def)
qed

section \<open>The load generator\<close>

definition header_value_is_case_insensitive_and_selective_test :: bool where
  "header_value_is_case_insensitive_and_selective_test \<longleftrightarrow>
     header_value (''Content-Length: 42'' @ CRLF) ''content-length'' = Some ('' 42'' @ CRLF) \<and>
     header_value (''CONTENT-LENGTH:7'' @ CRLF) ''content-length'' = Some (''7'' @ CRLF) \<and>
     header_value (''Host: example'' @ CRLF) ''content-length'' = None \<and>
     header_value (''no-colon-here'' @ CRLF) ''content-length'' = None"

definition dump_path_encodes_rate_and_connections_test :: bool where
  "dump_path_encodes_rate_and_connections_test \<longleftrightarrow>
     dump_path \<lparr>lgc_target = ''127.0.0.1:8080'', lgc_model = ''iterative'', lgc_rate = Finite 1500, lgc_connections = 64,
       lgc_duration = 10000000000, lgc_out = ''bench/results/iterative.csv''\<rparr> =
     path_of ''bench/results/iterative_r1500_c64.hgrm''"

text \<open>
  The clock is read for \<open>past\<close>, for \<open>before\<close>, in \<open>sleep_until\<close> and for \<open>elapsed\<close>; \<open>late\<close> is how much a
  sleep would overshoot.
\<close>

definition sleep_until_in_the_past_returns_immediately_test :: "duration \<Rightarrow> instant \<Rightarrow> instant \<Rightarrow> instant \<Rightarrow> duration \<Rightarrow> bool" where
  "sleep_until_in_the_past_returns_immediately_test late t0 before now step \<longleftrightarrow>
     sleep_until late (t0 - 50000000) now + step - before < 20000000"

lemma loadgen_tests: "header_value_is_case_insensitive_and_selective_test" "dump_path_encodes_rate_and_connections_test"
  by code_simp+

text \<open>It does not sleep, so the test passes when its own four steps take less than 20 ms.\<close>

lemma sleep_test:
  "t0 \<le> before \<Longrightarrow> before \<le> now \<Longrightarrow> now + step < before + 20000000 \<Longrightarrow>
     sleep_until_in_the_past_returns_immediately_test late t0 before now step"
  unfolding sleep_until_in_the_past_returns_immediately_test_def sleep_until_def by auto

end
