(* ===== verification/Conformance.thy ===== *)
theory Conformance
  imports Conformance_Client Serve
begin

text \<open>
  The conformance suite, \<open>server/tests/conformance.rs\<close>: starting the server, connecting, and the
  exchanges of \<open>run_conformance\<close> with their assertions. A test passes when its value is true; a
  panic and a failed assertion make it false. What the clock does is in the number of turns a
  waiting loop is given. The theorem puts the suite on top of the eleven models.
\<close>

section \<open>Starting the server\<close>

text \<open>\<open>Write::write_all\<close>; an error is \<open>None\<close>.\<close>

function write_all :: "bytes \<Rightarrow> tcp_stream \<Rightarrow> tcp_stream option" where
  "write_all bs s =
     (if bs = [] then Some s
      else (case stream_write bs s of
          (s', Inr n) \<Rightarrow> if n = 0 then None else write_all (drop n bs) s'
        | (s', Inl e) \<Rightarrow> if e = Interrupted then write_all bs s' else None))"
  by pat_completeness auto
termination
proof (relation "measure (\<lambda>(bs, s). length (s_out s))")
  fix bs s s' x n
  assume "(s', x) = stream_write bs s" "x = Inr n" "n \<noteq> 0"
  then show "((drop n bs, s'), bs, s) \<in> measure (\<lambda>(bs, s). length (s_out s))"
    by (auto simp: stream_write_def split: list.splits wr.splits)
next
  fix bs s s' x e
  assume "(s', x) = stream_write bs s" "x = Inl e" "e = Interrupted"
  then show "((bs, s'), bs, s) \<in> measure (\<lambda>(bs, s). length (s_out s))"
    by (auto simp: stream_write_def split: list.splits wr.splits)
qed auto

declare write_all.simps [simp del]

definition GET_ROOT :: bytes where
  "GET_ROOT = ''GET / HTTP/1.1'' @ CRLF @ ''Host: localhost'' @ CRLF @ CRLF"

definition GET_MISSING :: bytes where
  "GET_MISSING = ''GET /missing HTTP/1.1'' @ CRLF @ ''Host: localhost'' @ CRLF @ CRLF"

definition DELETE_ROOT :: bytes where
  "DELETE_ROOT = ''DELETE / HTTP/1.1'' @ CRLF @ ''Host: localhost'' @ CRLF @ CRLF"

definition BAD_LINE :: bytes where
  "BAD_LINE = ''GET /'' @ CRLF @ CRLF"

text \<open>The command line of the spawned server.\<close>

definition spawn_args :: "str \<Rightarrow> 16 word \<Rightarrow> str \<Rightarrow> str list" where
  "spawn_args name port assets =
     [''--model'', name, ''--port'', decimal (unat port), ''--assets-dir'', assets]"

text \<open>
  One turn of \<open>server_owns_port\<close>: whether the process has exited, and the connection if one could be
  made; the turns there are before the deadline.
\<close>

record probe =
  pr_exited :: bool
  pr_stream :: "tcp_stream option"

fun server_owns_port :: "probe list \<Rightarrow> bool" where
  "server_owns_port [] = False"
| "server_owns_port (p # ps) =
     (if pr_exited p then False
      else
        (case pr_stream p of
           None \<Rightarrow> server_owns_port ps
         | Some s \<Rightarrow>
             (case write_all GET_ROOT s of
                None \<Rightarrow> server_owns_port ps
              | Some s \<Rightarrow>
                  (case snd (stream_read 16 s) of
                     Inl e \<Rightarrow> server_owns_port ps
                   | Inr bs \<Rightarrow>
                       if length bs \<ge> 12 \<and> prefix ''HTTP/1.1 200'' bs then True else server_owns_port ps))))"

definition ATTEMPTS :: nat where "ATTEMPTS = 25"

text \<open>\<open>spawn_server\<close>, over the port and the probes of each attempt.\<close>

fun spawn_server :: "nat \<Rightarrow> (16 word \<times> probe list) list \<Rightarrow> 16 word option" where
  "spawn_server n [] = None"
| "spawn_server n ((port, ps) # attempts) =
     (if n = 0 then None else if server_owns_port ps then Some port else spawn_server (n - 1) attempts)"

text \<open>\<open>connect\<close>, over the answers until the deadline.\<close>

fun test_connect :: "(io_error + tcp_stream) list \<Rightarrow> tcp_stream option" where
  "test_connect [] = None"
| "test_connect (Inr s # rs) = Some s"
| "test_connect (Inl e # rs) = test_connect rs"

section \<open>The suite\<close>

text \<open>One request and its response on a connection.\<close>

definition exchange :: "bytes \<Rightarrow> tcp_stream \<Rightarrow> (tcp_stream \<times> test_response) option" where
  "exchange req s = (case write_all req s of None \<Rightarrow> None | Some s \<Rightarrow> read_response s)"

text \<open>An exchange, the assertion on its response, and the rest of the test on the same connection.\<close>

definition expect_then ::
  "(tcp_stream \<times> test_response) option \<Rightarrow> (test_response \<Rightarrow> bool) \<Rightarrow> (tcp_stream \<Rightarrow> bool) \<Rightarrow> bool" where
  "expect_then res P k = (case res of None \<Rightarrow> False | Some (s, resp) \<Rightarrow> P resp \<and> k s)"

definition run_conformance ::
  "(16 word \<times> probe list) list \<Rightarrow> (io_error + tcp_stream) list \<Rightarrow> (io_error + tcp_stream) list \<Rightarrow>
     (io_error + tcp_stream) list \<Rightarrow> bool" where
  "run_conformance attempts first bad good \<longleftrightarrow>
     spawn_server ATTEMPTS attempts \<noteq> None \<and>
     (case test_connect first of
        None \<Rightarrow> False
      | Some s \<Rightarrow>
          expect_then (exchange GET_ROOT s)
            (\<lambda>resp. tr_status resp = 200 \<and> str_contains (tr_headers resp) ''Connection: keep-alive'' \<and>
               list_ex (\<lambda>w. w = ''it works'') (windows 8 (tr_body resp)))
          (\<lambda>s. expect_then (exchange GET_MISSING s) (\<lambda>resp. tr_status resp = 404)
          (\<lambda>s. expect_then (exchange DELETE_ROOT s) (\<lambda>resp. tr_status resp = 405) (\<lambda>s. True)))) \<and>
     (case test_connect bad of
        None \<Rightarrow> False
      | Some s \<Rightarrow>
          expect_then (exchange BAD_LINE s)
            (\<lambda>resp. tr_status resp = 400 \<and> str_contains (tr_headers resp) ''Connection: close'') (\<lambda>s. True)) \<and>
     (case test_connect good of
        None \<Rightarrow> False
      | Some s \<Rightarrow> expect_then (exchange GET_ROOT s) (\<lambda>resp. tr_status resp = 200) (\<lambda>s. True))"

text \<open>The eleven tests by the name of their model.\<close>

definition conformance_models :: "str list" where
  "conformance_models =
     [''iterative'', ''forking'', ''preforked'', ''thread-per-conn'', ''thread-pool'', ''poll'', ''epoll-lt'',
      ''epoll-et'', ''event-loop'', ''multireactor'', ''io-uring'']"

text \<open>
  The gate of the \<open>io-uring\<close> test: \<open>uname\<close> is the error of the call, if any, and \<open>release\<close> the array it
  filled. A test that does not apply passes.
\<close>

definition io_uring_unavailable :: "io_error option \<Rightarrow> bytes \<Rightarrow> bool" where
  "io_uring_unavailable uname release =
     (case uname of
        Some e \<Rightarrow> True
      | None \<Rightarrow>
          let raw = takeWhile (\<lambda>c. c \<noteq> CHR 0x00) release;
              s = (if utf8_valid raw then raw else []);
              parts = split_on (\<lambda>c. \<not> ascii_digit c) (filter (\<lambda>c. \<not> utf8_cont c) s);
              major = (case nth_opt 0 parts of None \<Rightarrow> 0
                       | Some p \<Rightarrow> (case parse_u32 p of None \<Rightarrow> 0 | Some n \<Rightarrow> n));
              minor = (case nth_opt 1 parts of None \<Rightarrow> 0
                       | Some p \<Rightarrow> (case parse_u32 p of None \<Rightarrow> 0 | Some n \<Rightarrow> n)) in
          major < 5 \<or> major = 5 \<and> minor < 19)"

definition io_uring_conformance :: "io_error option \<Rightarrow> bytes \<Rightarrow> bool \<Rightarrow> bool" where
  "io_uring_conformance uname release passed = (if io_uring_unavailable uname release then True else passed)"

section \<open>The suite and the server's start\<close>

text \<open>The names are those of all models, each once, and the arguments choose the model they name.\<close>

lemma conformance_models_all:
  "map select_model conformance_models = map Some
     [Iterative, Forking, Preforked, ThreadPerConn, ThreadPool, Poll, EpollLt, EpollEt, EventLoop, Multireactor, IoUring]"
  by (simp add: conformance_models_def select_model_def)

lemma spawn_args_parse:
  "parse_args (spawn_args name port assets) =
     Inr (cli_default\<lparr>cli_model := name, cli_port := port, cli_assets_dir := assets\<rparr>)"
proof -
  have "unat port \<le> 65535" using unsigned_less [of port, where ?'a = nat] by simp
  then show ?thesis
    by (simp add: parse_args_def spawn_args_def expect_value_def number_value_decimal cli_default_def)
qed

text \<open>The gate of the test is the gate of the server, as its comment says.\<close>

theorem io_uring_gates_agree:
  "io_uring_unavailable uname release \<longleftrightarrow> check_kernel uname release \<noteq> Inr ()"
proof -
  have number: "(case nth_opt 0 ps of None \<Rightarrow> 0 | Some p \<Rightarrow> (case parse_u32 p of None \<Rightarrow> 0 | Some n \<Rightarrow> n)) =
      (case ps of [] \<Rightarrow> 0 | x # _ \<Rightarrow> (case parse_u32 x of Some n \<Rightarrow> n | None \<Rightarrow> 0))" for ps :: "str list"
    by (cases ps) (simp_all add: nth_opt_def split: option.split)
  have second: "nth_opt 1 ps = nth_opt 0 (drop 1 ps)" for ps :: "str list"
    by (cases ps) (simp_all add: nth_opt_def)
  show ?thesis
    unfolding io_uring_unavailable_def check_kernel_def parse_release_def MIN_KERNEL_def Let_def second number
    by (cases uname) simp_all
qed

text \<open>A server that was taken for the spawned one has answered the request for the root with 200.\<close>

lemma spawn_server_owns:
  "spawn_server n attempts = Some port \<Longrightarrow> \<exists>ps. (port, ps) \<in> set (take n attempts) \<and> server_owns_port ps"
  by (induction n attempts rule: spawn_server.induct) (auto simp: take_Cons' split: if_splits)

section \<open>What the suite needs of the server\<close>

definition local_request :: "http_method \<Rightarrow> str \<Rightarrow> request" where
  "local_request meth path = \<lparr>rq_method = meth, rq_path = path, rq_version = Http11,
     rq_headers = \<lparr>inner = [(''Host'', ''localhost'')]\<rparr>, rq_body = []\<rparr>"

lemma local_headers_get:
  "headers_get \<lparr>inner = [(''Host'', ''localhost'')]\<rparr> ''connection'' = None"
  "headers_get \<lparr>inner = [(''Host'', ''localhost'')]\<rparr> ''content-length'' = None"
  by code_simp+

lemma local_request_keep_alive: "wants_keep_alive (local_request meth path)"
  by (simp add: wants_keep_alive_def local_request_def connection_has_def local_headers_get)

lemma wire_spec_local:
  assumes "renderable tok path Http11 [(''Host'', ''localhost'')] []"
  shows "wire_spec h (render tok path Http11 [(''Host'', ''localhost'')] [] @ s) =
    encode (h (local_request (method_parse tok) path)) True (method_parse tok \<noteq> Head) [] @ wire_spec h s"
proof -
  let ?q = "render tok path Http11 [(''Host'', ''localhost'')] []"
  have "snd (push parser_new (?q @ s)) = Complete (local_request (method_parse tok) path) (length ?q)"
    using push_render [OF assms, of s] by (auto simp: local_request_def)
  then show ?thesis
    using local_request_keep_alive [of "method_parse tok" path]
    by (subst wire_spec.simps) (simp add: request_response_def local_request_def)
qed

lemma test_requests_render:
  "GET_ROOT = render ''GET'' ''/'' Http11 [(''Host'', ''localhost'')] []"
  "GET_MISSING = render ''GET'' ''/missing'' Http11 [(''Host'', ''localhost'')] []"
  "DELETE_ROOT = render ''DELETE'' ''/'' Http11 [(''Host'', ''localhost'')] []"
  by (simp_all add: GET_ROOT_def GET_MISSING_def DELETE_ROOT_def render_def request_line_def header_block_def
      header_line_def)

lemma test_requests_renderable:
  "renderable ''GET'' ''/'' Http11 [(''Host'', ''localhost'')] []"
  "renderable ''GET'' ''/missing'' Http11 [(''Host'', ''localhost'')] []"
  "renderable ''DELETE'' ''/'' Http11 [(''Host'', ''localhost'')] []"
proof -
  have "field_ok (''Host'', ''localhost'')" "utf8_valid ''/''" "utf8_valid ''/missing''" by code_simp+
  then show "renderable ''GET'' ''/'' Http11 [(''Host'', ''localhost'')] []"
    "renderable ''GET'' ''/missing'' Http11 [(''Host'', ''localhost'')] []"
    "renderable ''DELETE'' ''/'' Http11 [(''Host'', ''localhost'')] []"
    by (simp_all add: renderable_def token_ok_def request_line_def header_block_def header_line_def
        declared_length_def limit_defs local_headers_get)
qed

lemma wire_spec_tests:
  "wire_spec h (GET_ROOT @ s) = encode (h (local_request Get ''/'')) True True [] @ wire_spec h s"
  "wire_spec h (GET_MISSING @ s) = encode (h (local_request Get ''/missing'')) True True [] @ wire_spec h s"
  "wire_spec h (DELETE_ROOT @ s) = encode (h (local_request Unsupported ''/'')) True True [] @ wire_spec h s"
  using test_requests_renderable [THEN wire_spec_local, of h s]
  by (simp_all add: test_requests_render method_parse_def)

lemma wire_spec_Nil: "wire_spec h [] = []"
proof -
  have "snd (push parser_new []) = Incomplete" by code_simp
  then show ?thesis by (simp add: wire_spec.simps [of h "[]"])
qed

lemma wire_spec_bad: "wire_spec h BAD_LINE = error_response MalformedRequestLine"
proof -
  have "snd (push parser_new BAD_LINE) = Failed MalformedRequestLine" by code_simp
  then show ?thesis by (simp add: wire_spec.simps [of h BAD_LINE])
qed

lemma site_tests:
  "site l (local_request Get ''/'') = file_response l ''index.html''"
  "site l (local_request Get ''/missing'') = response_text NOT_FOUND ''404 Not Found''"
  "site l (local_request Unsupported ''/'') = response_text METHOD_NOT_ALLOWED ''405 Method Not Allowed''"
proof -
  have "segments ''/'' = []" "segments ''/missing'' = [''missing'']" by code_simp+
  then show "site l (local_request Get ''/'') = file_response l ''index.html''"
    "site l (local_request Get ''/missing'') = response_text NOT_FOUND ''404 Not Found''"
    "site l (local_request Unsupported ''/'') = response_text METHOD_NOT_ALLOWED ''405 Method Not Allowed''"
    by (simp_all add: site_def local_request_def)
qed

lemma text_readable: "list_all readable_field (wire_headers (response_text st msg) ka)"
  by (auto simp: wire_headers_def response_text_def response_new_def readable_own_fields Let_def)

lemma str_contains_mid: "str_contains (a @ p @ b) p"
proof -
  have "length a \<in> set [0..<Suc (length (a @ p @ b)) - length p]" by simp
  from imageI [OF this, of "\<lambda>i. take (length p) (drop i (a @ p @ b))"]
  have "take (length p) (drop (length a) (a @ p @ b)) \<in> set (windows (length p) (a @ p @ b))"
    by (simp only: windows_def set_map)
  then show ?thesis by (auto simp: str_contains_def list_ex_iff)
qed

lemma head_connection:
  "str_contains (response_head r True) ''Connection: keep-alive''"
  "str_contains (response_head r False) ''Connection: close''"
proof -
  let ?a = "status_line r @ concat (map header_line (filter (\<lambda>h. \<not> owned_header (fst h)) (inner (rs_headers r)))) @
    header_line (''Content-Length'', decimal (length (body_bytes (rs_body r))))"
  have "response_head r True = ?a @ ''Connection: keep-alive'' @ CRLF @ CRLF"
    "response_head r False = ?a @ ''Connection: close'' @ CRLF @ CRLF"
    by (simp_all add: response_head_def wire_headers_def header_line_def [of "(''Connection'', _)"])
  then show "str_contains (response_head r True) ''Connection: keep-alive''"
    "str_contains (response_head r False) ''Connection: close''"
    by (simp_all only: str_contains_mid)
qed

section \<open>The exchanges\<close>

text \<open>
  A connection of the test whose socket takes each of its short requests in one write, and on which
  the pieces \<open>css\<close> arrive, one list for each response.
\<close>

definition client_stream :: "bytes list list \<Rightarrow> tcp_stream \<Rightarrow> bool" where
  "client_stream css s \<longleftrightarrow>
     s_in s = map RdData (concat css) \<and> list_all (\<lambda>cs. [] \<notin> set cs) css \<and>
     list_all (\<lambda>w. \<exists>k \<ge> 64. w = WrOk k) (s_out s) \<and> length (s_out s) = length css"

lemma exchange_ok:
  assumes cs: "client_stream (cs # css) s" and sent: "concat cs = encode r ka True []"
    and r: "body_usize r" "list_all readable_field (wire_headers r ka)"
    and req: "req \<noteq> []" "length req \<le> 64"
  shows "\<exists>s'. exchange req s = Some (s', \<lparr>tr_status = sc_code (rs_status r), tr_headers = response_head r ka,
      tr_body = body_bytes (rs_body r)\<rparr>) \<and> client_stream css s'"
proof -
  obtain k ws where out: "s_out s = WrOk k # ws" "64 \<le> k" "list_all (\<lambda>w. \<exists>k \<ge> 64. w = WrOk k) ws"
      "length ws = length css"
    using cs by (cases "s_out s") (auto simp: client_stream_def)
  let ?s = "s\<lparr>s_out := ws, s_sent := s_sent s @ take k req\<rparr>"
  have "stream_write req s = (?s, Inr (length req))"
    using out req by (simp add: stream_write_def)
  then have w: "write_all req s = Some ?s"
    using req(1) by (simp add: write_all.simps [of req s] write_all.simps [of "[]"])
  have "arriving ?s cs (map RdData (concat css))"
    using cs by (simp add: arriving_def client_stream_def)
  from read_response_exact [OF r this sent] w cs out(3,4) show ?thesis
    by (auto simp: exchange_def client_stream_def)
qed

lemma expect_thenI:
  assumes "\<exists>s'. res = Some (s', resp) \<and> client_stream css s'" and "P resp"
    and "\<And>s'. client_stream css s' \<Longrightarrow> k s'"
  shows "expect_then res P k"
  using assms by (auto simp: expect_then_def)

lemma request_sizes:
  "GET_ROOT \<noteq> []" "length GET_ROOT \<le> 64" "GET_MISSING \<noteq> []" "length GET_MISSING \<le> 64"
  "DELETE_ROOT \<noteq> []" "length DELETE_ROOT \<le> 64" "BAD_LINE \<noteq> []" "length BAD_LINE \<le> 64"
  by (simp_all add: GET_ROOT_def GET_MISSING_def DELETE_ROOT_def BAD_LINE_def)

lemma text_usize: "length msg \<le> USIZE_MAX \<Longrightarrow> body_usize (response_text st msg)"
  by (simp add: body_usize_def response_text_def body_bytes_def Let_def)

section \<open>Properties\<close>

text \<open>
  The model has sent \<open>sent\<close> to a client it received \<open>rcvd\<close> from, at a moment at which it owes it
  nothing.
\<close>

definition delivered :: "model \<Rightarrow> config \<Rightarrow> handler app \<Rightarrow> bytes \<Rightarrow> bytes \<Rightarrow> bool" where
  "delivered m cfg a rcvd sent \<longleftrightarrow>
     (\<exists>r ws w. model_of r = m \<and> run_ok server_call cfg a r \<and> serve_wires server_call cfg a r = Some (Inr ws) \<and>
        w \<in> set ws \<and> w_rcvd w = rcvd \<and> w_sent w = sent \<and> \<not> w_owes w)"

lemma delivered_site:
  assumes "build_app fs c = Inr a" and "delivered m cfg a rcvd sent"
  shows "sent = wire_spec (site (fs (cli_assets_dir c))) rcvd"
proof -
  obtain r ws w where "run_ok server_call cfg a r" "serve_wires server_call cfg a r = Some (Inr ws)"
      and w: "w \<in> set ws" "w_rcvd w = rcvd" "w_sent w = sent" "\<not> w_owes w"
    using assms(2) unfolding delivered_def by blast
  from serve_wires_ok [OF server_call_unread this(1,2)] w show ?thesis
    by (auto simp: list_all_iff wire_ok_def site_handle [OF assms(1)])
qed

lemma delivered_tests:
  assumes "build_app fs c = Inr a" and "file_response (fs (cli_assets_dir c)) ''index.html'' = page"
  shows "delivered m cfg a GET_ROOT bs \<Longrightarrow> bs = encode page True True []"
    and "delivered m cfg a (GET_ROOT @ GET_MISSING) (encode page True True [] @ bs) \<Longrightarrow>
      bs = encode (response_text NOT_FOUND ''404 Not Found'') True True []"
    and "delivered m cfg a (GET_ROOT @ GET_MISSING @ DELETE_ROOT)
        (encode page True True [] @ encode (response_text NOT_FOUND ''404 Not Found'') True True [] @ bs) \<Longrightarrow>
      bs = encode (response_text METHOD_NOT_ALLOWED ''405 Method Not Allowed'') True True []"
    and "delivered m cfg a BAD_LINE bs \<Longrightarrow>
      bs = encode (response_text BAD_REQUEST (error_body BAD_REQUEST)) False True []"
proof -
  note wires = wire_spec_tests wire_spec_tests [of _ "[]", simplified] wire_spec_Nil site_tests assms(2)
  show "bs = encode page True True []" if "delivered m cfg a GET_ROOT bs"
    using delivered_site [OF assms(1) that] by (simp add: wires)
  show "bs = encode (response_text NOT_FOUND ''404 Not Found'') True True []"
    if "delivered m cfg a (GET_ROOT @ GET_MISSING) (encode page True True [] @ bs)"
    using delivered_site [OF assms(1) that] by (simp add: wires)
  show "bs = encode (response_text METHOD_NOT_ALLOWED ''405 Method Not Allowed'') True True []"
    if "delivered m cfg a (GET_ROOT @ GET_MISSING @ DELETE_ROOT)
        (encode page True True [] @ encode (response_text NOT_FOUND ''404 Not Found'') True True [] @ bs)"
    using delivered_site [OF assms(1) that] by (simp add: wires)
  show "bs = encode (response_text BAD_REQUEST (error_body BAD_REQUEST)) False True []"
    if "delivered m cfg a BAD_LINE bs"
    using delivered_site [OF assms(1) that] by (simp add: wire_spec_bad error_response_def)
qed

text \<open>
  C2: every model passes the conformance suite. For the application the binary builds from an
  assets directory whose index page says \<open>it works\<close>, and any of the eleven models: when the test
  gets a connection to the server, and what arrives on it, cut into any pieces, is what the model
  has sent when it owes the client nothing, then every assertion holds: 200 with keep-alive and
  the page, then 404 and 405 on the same connection, 400 with close for the malformed request,
  and 200 again on a fresh connection.
\<close>

theorem conformance_suite_passes:
  assumes "build_app fs c = Inr a"
    and "file_response (fs (cli_assets_dir c)) ''index.html'' = response_ok ty page"
    and "str_contains page ''it works''" and "length page \<le> USIZE_MAX"
    and "spawn_server ATTEMPTS attempts \<noteq> None"
    and "test_connect first = Some s1" and "client_stream [cs1, cs2, cs3] s1"
    and "delivered m cfg a GET_ROOT (concat cs1)"
    and "delivered m cfg a (GET_ROOT @ GET_MISSING) (concat cs1 @ concat cs2)"
    and "delivered m cfg a (GET_ROOT @ GET_MISSING @ DELETE_ROOT) (concat cs1 @ concat cs2 @ concat cs3)"
    and "test_connect bad = Some s2" and "client_stream [cs4] s2" and "delivered m cfg a BAD_LINE (concat cs4)"
    and "test_connect good = Some s3" and "client_stream [cs5] s3" and "delivered m cfg a GET_ROOT (concat cs5)"
  shows "run_conformance attempts first bad good"
proof -
  let ?l = "fs (cli_assets_dir c)" and ?page = "response_ok ty page"
  note tests = delivered_tests [OF assms(1,2)]
  note s1 = tests(1) [OF assms(8)]
  note s2 = tests(2) [OF assms(9) [unfolded s1]]
  note s3 = tests(3) [OF assms(10) [unfolded s1 s2]]
  note s4 = tests(4) [OF assms(13)]
  note s5 = tests(1) [OF assms(16)]
  have page: "body_usize ?page" "list_all readable_field (wire_headers ?page True)" "rs_status ?page = OK"
      "body_bytes (rs_body ?page) = page"
    using assms(4) file_response_readable [of ?l "''index.html''" True] assms(2)
    by (simp_all add: body_usize_def response_ok_def response_new_def body_bytes_def Let_def)
  have "error_body BAD_REQUEST = ''400 Bad Request'' @ [LF]" by code_simp
  then have usize: "body_usize (response_text st ''404 Not Found'')" "body_usize (response_text st (error_body BAD_REQUEST))"
    "body_usize (response_text st ''405 Method Not Allowed'')" for st
    by (simp_all add: text_usize USIZE_MAX_def)
  have st: "rs_status (response_text x y) = x" for x y by (simp add: response_text_def response_new_def Let_def)
  have works: "list_ex (\<lambda>w. w = ''it works'') (windows 8 page)" using assms(3) by (simp add: str_contains_def eval_nat_numeral)
  note sizes = request_sizes
  have first: "expect_then (exchange GET_ROOT s1)
      (\<lambda>resp. tr_status resp = 200 \<and> str_contains (tr_headers resp) ''Connection: keep-alive'' \<and>
         list_ex (\<lambda>w. w = ''it works'') (windows 8 (tr_body resp)))
      (\<lambda>s. expect_then (exchange GET_MISSING s) (\<lambda>resp. tr_status resp = 404)
      (\<lambda>s. expect_then (exchange DELETE_ROOT s) (\<lambda>resp. tr_status resp = 405) (\<lambda>s. True)))"
    by (rule expect_thenI [OF exchange_ok [OF assms(7) s1 page(1,2) sizes(1,2)]],
        simp add: page works head_connection OK_def,
        rule expect_thenI [OF exchange_ok [OF _ s2 usize(1) text_readable sizes(3,4)]], assumption,
        simp add: st NOT_FOUND_def,
        rule expect_thenI [OF exchange_ok [OF _ s3 usize(3) text_readable sizes(5,6)]], assumption)
       (simp_all add: st METHOD_NOT_ALLOWED_def)
  have bad: "expect_then (exchange BAD_LINE s2)
      (\<lambda>resp. tr_status resp = 400 \<and> str_contains (tr_headers resp) ''Connection: close'') (\<lambda>s. True)"
    by (rule expect_thenI [OF exchange_ok [OF assms(12) s4 usize(2) text_readable sizes(7,8)]])
       (simp_all add: st head_connection BAD_REQUEST_def)
  have good: "expect_then (exchange GET_ROOT s3) (\<lambda>resp. tr_status resp = 200) (\<lambda>s. True)"
    by (rule expect_thenI [OF exchange_ok [OF assms(15) s5 page(1,2) sizes(1,2)]])
       (simp_all add: page OK_def)
  from first bad good assms(5,6,11,14) show ?thesis by (simp add: run_conformance_def)
qed

definition works_site :: listing where
  "works_site = Entries [File ''index.html'' (Inr ''<h1>it works</h1>'')]"

text \<open>
  The hypotheses can hold: the blocking loop answers a client that sends one request at a time
  and takes each response.
\<close>

lemma serve_exchange:
  assumes conn: "cstate (slot_conn s) = Reading" "parser (slot_conn s) = parser_new"
    and st: "s_in (slot_stream s) = RdData q # rs" "s_out (slot_stream s) = WrOk k # ws"
    and q: "snd (push parser_new q) = Complete r (length q)" "length q \<le> READ_CHUNK" "wants_keep_alive r"
    and k: "length (request_response (app_handle call a) r) \<le> k"
  shows "\<exists>s'. serve_loop call now a s WantRead = serve_loop call now a s' WantRead \<and>
    cstate (slot_conn s') = Reading \<and> parser (slot_conn s') = parser_new \<and>
    s_in (slot_stream s') = rs \<and> s_out (slot_stream s') = ws \<and> s_rcvd (slot_stream s') = s_rcvd (slot_stream s) @ q"
proof -
  let ?resp = "request_response (app_handle call a) r"
  have qne: "q \<noteq> []" using push_new_Complete [OF q(1)] by auto
  let ?st1 = "(slot_stream s)\<lparr>s_in := rs, s_rcvd := s_rcvd (slot_stream s) @ q\<rparr>"
  define c1 where "c1 = fst (on_bytes call a (slot_conn s) q)"
  define c2 where "c2 = fst (on_written now c1 (length (pending_write c1)))"
  note x = conn_exchange [OF conn q(1,3) c1_def c2_def]
  let ?s1 = "s\<lparr>slot_stream := ?st1, slot_conn := c1\<rparr>"
  have rd: "stream_read READ_CHUNK (slot_stream s) = (?st1, Inr q)"
    using st(1) q(2) by (simp add: stream_read_def)
  have first: "serve_loop call now a s WantRead = serve_loop call now a ?s1 WantWrite"
    by (subst serve_loop.simps) (simp add: rd x(1) qne)
  let ?st2 = "?st1\<lparr>s_out := ws, s_sent := s_sent (slot_stream s) @ take k ?resp\<rparr>"
  have wr: "stream_write ?resp ?st1 = (?st2, Inr (length ?resp))"
    using st(2) k by (simp add: stream_write_def)
  let ?s2 = "s\<lparr>slot_stream := ?st2, slot_conn := c2\<rparr>"
  have second: "serve_loop call now a ?s1 WantWrite = serve_loop call now a ?s2 WantRead"
    using x(2,3) by (subst serve_loop.simps) (simp add: wr)
  show ?thesis by (rule exI [of _ ?s2]) (simp add: first second x)
qed

definition patient :: "'h call \<Rightarrow> 'h app \<Rightarrow> bytes \<Rightarrow> bool" where
  "patient call a q \<longleftrightarrow>
     (\<exists>r. snd (push parser_new q) = Complete r (length q) \<and> length q \<le> READ_CHUNK \<and> wants_keep_alive r \<and>
        length (request_response (app_handle call a) r) \<le> 1000)"

lemma serve_exchanges:
  assumes "cstate (slot_conn s) = Reading" and "parser (slot_conn s) = parser_new"
    and "s_in (slot_stream s) = map RdData qs" and "s_out (slot_stream s) = replicate (length qs) (WrOk 1000)"
    and "list_all (patient call a) qs"
  shows "\<exists>s' e. serve_loop call now a s WantRead = (s', Inl e) \<and> owes_nothing (slot_conn s') \<and>
    s_rcvd (slot_stream s') = s_rcvd (slot_stream s) @ concat qs"
  using assms
proof (induction qs arbitrary: s)
  case Nil
  then have "serve_loop call now a s WantRead = (s, Inl WouldBlock)"
    by (subst serve_loop.simps) (simp add: stream_read_def)
  moreover have "owes_nothing (slot_conn s)" using Nil push_new_Nil by (simp add: owes_nothing_def)
  ultimately show ?case by simp
next
  case (Cons q qs)
  from Cons.prems(5) obtain r where r: "snd (push parser_new q) = Complete r (length q)" "length q \<le> READ_CHUNK"
      "wants_keep_alive r" "length (request_response (app_handle call a) r) \<le> 1000"
    by (auto simp: patient_def)
  from serve_exchange [OF Cons.prems(1,2) _ _ r, of "map RdData qs" "replicate (length qs) (WrOk 1000)" now] Cons.prems(3,4)
  obtain s1 where s1: "serve_loop call now a s WantRead = serve_loop call now a s1 WantRead"
      "cstate (slot_conn s1) = Reading" "parser (slot_conn s1) = parser_new" "s_in (slot_stream s1) = map RdData qs"
      "s_out (slot_stream s1) = replicate (length qs) (WrOk 1000)"
      "s_rcvd (slot_stream s1) = s_rcvd (slot_stream s) @ q" by auto
  from Cons.IH [OF s1(2-5)] Cons.prems(5) s1(1,6) show ?case by simp
qed

lemma serve_refused:
  assumes "s_in (slot_stream s) = [RdData q]" and "s_out (slot_stream s) = [WrOk 1000]"
    and "slot_conn s = conn_new now timeout" and "snd (push parser_new q) = Failed e" and "q \<noteq> []"
    and "length q \<le> READ_CHUNK" and "length (error_response e) \<le> 1000"
  shows "\<exists>s' res. serve_loop call now a s WantRead = (s', res) \<and> owes_nothing (slot_conn s') \<and>
    s_rcvd (slot_stream s') = s_rcvd (slot_stream s) @ q"
proof -
  obtain p where p: "push parser_new q = (p, Failed e)" using assms(4) by (cases "push parser_new q") auto
  define c where "c = start_writing ((conn_new now timeout)\<lparr>parser := p\<rparr>)
    (response_text (status e) (error_body (status e))) False True"
  have c: "on_bytes call a (conn_new now timeout) q = (c, WantWrite)"
    using p by (simp add: c_def on_bytes_def handle_status_def conn_new_def)
  have w: "on_written now c (length (error_response e)) = (c\<lparr>write_pos := length (error_response e), cstate := Closed\<rparr>, Close)"
    by (simp add: c_def on_written_def error_response_def Let_def)
  have pend: "pending_write c = error_response e" by (simp add: c_def error_response_def)
  let ?st1 = "(slot_stream s)\<lparr>s_in := [], s_rcvd := s_rcvd (slot_stream s) @ q\<rparr>"
  let ?s1 = "s\<lparr>slot_stream := ?st1, slot_conn := c\<rparr>"
  have rd: "stream_read READ_CHUNK (slot_stream s) = (?st1, Inr q)"
    using assms(1,6) by (simp add: stream_read_def)
  have first: "serve_loop call now a s WantRead = serve_loop call now a ?s1 WantWrite"
    by (subst serve_loop.simps) (simp add: rd c assms(3,5))
  let ?st2 = "?st1\<lparr>s_out := [], s_sent := s_sent (slot_stream s) @ take 1000 (error_response e)\<rparr>"
  let ?s2 = "s\<lparr>slot_stream := ?st2, slot_conn := c\<lparr>write_pos := length (error_response e), cstate := Closed\<rparr>\<rparr>"
  have wr: "stream_write (error_response e) ?st1 = (?st2, Inr (length (error_response e)))"
    using assms(2,7) by (simp add: stream_write_def)
  have second: "serve_loop call now a ?s1 WantWrite = serve_loop call now a ?s2 Close"
    by (subst serve_loop.simps) (simp add: pend wr w)
  have "serve_loop call now a ?s2 Close = (?s2, Inr ())" by (subst serve_loop.simps) simp
  with first second show ?thesis by (simp add: owes_nothing_def)
qed

definition demo_conn :: "bytes list \<Rightarrow> serve_run" where
  "demo_conn qs = RunIterative (\<lambda>c. None)
     [Inr (stream_new 5 (map RdData qs) (replicate (length qs) (WrOk 1000)), demo_env)]"

definition demo_works_app :: "handler app" where
  "demo_works_app = projr (build_app (\<lambda>d. works_site) cli_default)"

lemma demo_works_builds: "build_app (\<lambda>d. works_site) cli_default = Inr demo_works_app"
proof -
  have "build_app (\<lambda>d. works_site) cli_default \<noteq> Inl e" for e
    by (simp add: build_app_def builder_build_def builder_assets_dir_def builder_route_def app_builder_def
        load_dir_def works_site_def)
  then have "\<exists>a. build_app (\<lambda>d. works_site) cli_default = Inr a" by (metis sum.exhaust)
  then show ?thesis by (auto simp: demo_works_app_def)
qed

lemma demo_delivered:
  assumes "\<And>a. app_same demo_works_app a \<Longrightarrow> \<exists>s' res. serve_loop server_call 0 a
      (fresh_slot (stream_new 5 (map RdData qs) (replicate (length qs) (WrOk 1000))) 0
        (cfg_read_timeout demo_config)) WantRead = (s', res) \<and> owes_nothing (slot_conn s') \<and> s_rcvd (slot_stream s') = concat qs"
  shows "delivered Iterative demo_config demo_works_app (concat qs) (wire_spec (site works_site) (concat qs))"
proof -
  let ?a = "count_connection demo_works_app"
  obtain s' res where s': "serve_loop server_call 0 ?a
      (fresh_slot (stream_new 5 (map RdData qs) (replicate (length qs) (WrOk 1000))) 0
        (cfg_read_timeout demo_config)) WantRead = (s', res)" "owes_nothing (slot_conn s')" "s_rcvd (slot_stream s') = concat qs"
    using assms [of ?a] by auto
  have run: "serve_wires server_call demo_config demo_works_app (demo_conn qs) = Some (Inr [slot_wire s'])"
    using s'(1)
    by (simp add: demo_conn_def bound_def bind_listener_def iterative_serve_def iterative_turn_def handle_conn_def
        demo_env_def fresh_slot_def Let_def)
  have ok: "run_ok server_call demo_config demo_works_app (demo_conn qs)"
    by (simp add: demo_conn_def new_stream_def stream_new_def)
  from serve_wires_ok [OF server_call_unread ok run] s'(2,3)
  have "w_sent (slot_wire s') = wire_spec (site works_site) (concat qs)"
    by (simp add: wire_ok_def slot_wire_def site_handle [OF demo_works_builds])
  with ok run s' show ?thesis
    unfolding delivered_def
    by (intro exI [of _ "demo_conn qs"] exI [of _ "[slot_wire s']"] exI [of _ "slot_wire s'"])
       (simp add: demo_conn_def slot_wire_def)
qed

lemma demo_patient:
  assumes "app_same demo_works_app a"
  shows "patient server_call a GET_ROOT" "patient server_call a GET_MISSING" "patient server_call a DELETE_ROOT"
proof -
  have h: "app_handle server_call a = site works_site"
    using app_handle_same [OF server_call_unread assms] site_handle [OF demo_works_builds] by (simp add: fun_eq_iff)
  have "file_response works_site ''index.html'' = response_ok ''text/html; charset=utf-8'' ''<h1>it works</h1>''"
    by code_simp
  moreover have "length (encode (response_ok ''text/html; charset=utf-8'' ''<h1>it works</h1>'') True True []) \<le> 1000"
    "length (encode (response_text NOT_FOUND ''404 Not Found'') True True []) \<le> 1000"
    "length (encode (response_text METHOD_NOT_ALLOWED ''405 Method Not Allowed'') True True []) \<le> 1000"
    by code_simp+
  ultimately have responses: "length (encode (site works_site (local_request Get ''/'')) True True []) \<le> 1000"
    "length (encode (site works_site (local_request Get ''/missing'')) True True []) \<le> 1000"
    "length (encode (site works_site (local_request Unsupported ''/'')) True True []) \<le> 1000"
    unfolding site_tests by (simp_all only:)
  have one: "patient server_call a (render tok path Http11 [(''Host'', ''localhost'')] [])"
    if "renderable tok path Http11 [(''Host'', ''localhost'')] []" "method_parse tok \<noteq> Head"
      "length (render tok path Http11 [(''Host'', ''localhost'')] []) \<le> READ_CHUNK"
      "length (encode (site works_site (local_request (method_parse tok) path)) True True []) \<le> 1000" for tok path
    using that push_render [OF that(1), of "[]"] local_request_keep_alive [of "method_parse tok" path]
    by (auto simp: patient_def h request_response_def local_request_def)
  show "patient server_call a GET_ROOT" "patient server_call a GET_MISSING" "patient server_call a DELETE_ROOT"
    unfolding test_requests_render
    by (rule one, rule test_requests_renderable, simp add: method_parse_def,
        simp add: test_requests_render [symmetric] GET_ROOT_def GET_MISSING_def DELETE_ROOT_def READ_CHUNK_def,
        simp add: method_parse_def responses)+
qed

lemma demo_deliveries:
  "list_all (\<lambda>q. q \<in> {GET_ROOT, GET_MISSING, DELETE_ROOT}) qs \<Longrightarrow>
     delivered Iterative demo_config demo_works_app (concat qs) (wire_spec (site works_site) (concat qs))"
  "delivered Iterative demo_config demo_works_app BAD_LINE (wire_spec (site works_site) BAD_LINE)"
proof -
  have start: "slot_conn (fresh_slot st 0 t) = conn_new 0 t" "slot_stream (fresh_slot st 0 t) = st" for st t
    by (simp_all add: fresh_slot_def)
  show "delivered Iterative demo_config demo_works_app (concat qs) (wire_spec (site works_site) (concat qs))"
    if "list_all (\<lambda>q. q \<in> {GET_ROOT, GET_MISSING, DELETE_ROOT}) qs"
  proof (rule demo_delivered)
    fix a assume "app_same demo_works_app a"
    with that demo_patient have "list_all (patient server_call a) qs" by (auto simp: list_all_iff)
    from serve_exchanges [OF _ _ _ _ this,
        of "fresh_slot (stream_new 5 (map RdData qs) (replicate (length qs) (WrOk 1000))) 0 (cfg_read_timeout demo_config)"]
    show "\<exists>s' res. serve_loop server_call 0 a
      (fresh_slot (stream_new 5 (map RdData qs) (replicate (length qs) (WrOk 1000))) 0
        (cfg_read_timeout demo_config)) WantRead = (s', res) \<and> owes_nothing (slot_conn s') \<and> s_rcvd (slot_stream s') = concat qs"
      by (fastforce simp: start conn_new_def stream_new_def)
  qed
  have bad: "snd (push parser_new BAD_LINE) = Failed MalformedRequestLine"
    "length (error_response MalformedRequestLine) \<le> 1000" by code_simp+
  have "delivered Iterative demo_config demo_works_app (concat [BAD_LINE]) (wire_spec (site works_site) (concat [BAD_LINE]))"
  proof (rule demo_delivered)
    fix a :: "handler app"
    show "\<exists>s' res. serve_loop server_call 0 a
      (fresh_slot (stream_new 5 (map RdData [BAD_LINE]) (replicate (length [BAD_LINE]) (WrOk 1000))) 0
        (cfg_read_timeout demo_config)) WantRead = (s', res) \<and> owes_nothing (slot_conn s') \<and> s_rcvd (slot_stream s') = concat [BAD_LINE]"
      using serve_refused [OF _ _ start(1) bad(1) request_sizes(7) _ bad(2),
          of "stream_new 5 [RdData BAD_LINE] [WrOk 1000]" "cfg_read_timeout demo_config" server_call a]
      by (simp add: start stream_new_def BAD_LINE_def READ_CHUNK_def)
  qed
  then show "delivered Iterative demo_config demo_works_app BAD_LINE (wire_spec (site works_site) BAD_LINE)" by simp
qed

definition demo_client :: "bytes list list \<Rightarrow> tcp_stream" where
  "demo_client css = stream_new 7 (map RdData (concat css)) (replicate (length css) (WrOk 64))"

definition demo_attempts :: "(16 word \<times> probe list) list" where
  "demo_attempts = [(8080, [\<lparr>pr_exited = False, pr_stream = None\<rparr>,
     \<lparr>pr_exited = False, pr_stream = Some (stream_new 7 [RdData ''HTTP/1.1 200 OK''] [WrOk 64])\<rparr>])]"

definition demo_page :: bytes where
  "demo_page = encode (response_ok ''text/html; charset=utf-8'' ''<h1>it works</h1>'') True True []"

definition demo_404 :: bytes where
  "demo_404 = encode (response_text NOT_FOUND ''404 Not Found'') True True []"

definition demo_405 :: bytes where
  "demo_405 = encode (response_text METHOD_NOT_ALLOWED ''405 Method Not Allowed'') True True []"

definition demo_400 :: bytes where
  "demo_400 = error_response MalformedRequestLine"

lemma demo_client_ok: "list_all (\<lambda>cs. [] \<notin> set cs) css \<Longrightarrow> client_stream css (demo_client css)"
  by (simp add: client_stream_def demo_client_def stream_new_def list_all_iff)

theorem conformance_suite_passes_witness:
  "run_conformance demo_attempts [Inl WouldBlock, Inr (demo_client [[demo_page], [demo_404], [demo_405]])]
     [Inr (demo_client [[demo_400]])] [Inr (demo_client [[take 40 demo_page, drop 40 demo_page]])]"
proof -
  have idx: "file_response works_site ''index.html'' = response_ok ''text/html; charset=utf-8'' ''<h1>it works</h1>''"
    and works: "str_contains ''<h1>it works</h1>'' ''it works''" "length ''<h1>it works</h1>'' \<le> USIZE_MAX"
    and spawned: "spawn_server ATTEMPTS demo_attempts \<noteq> None"
    and cut: "take 40 demo_page \<noteq> []" "drop 40 demo_page \<noteq> []"
    by code_simp+
  have pieces: "demo_page \<noteq> []" "demo_404 \<noteq> []" "demo_405 \<noteq> []" "demo_400 \<noteq> []"
    by (simp_all add: demo_page_def demo_404_def demo_405_def demo_400_def error_response_def encode_not_Nil)
  note wires = wire_spec_tests [of "site works_site"] wire_spec_tests [of "site works_site" "[]", simplified]
    wire_spec_Nil site_tests idx demo_page_def [symmetric] demo_404_def [symmetric] demo_405_def [symmetric]
  have d1: "delivered Iterative demo_config demo_works_app GET_ROOT demo_page"
    using demo_deliveries(1) [of "[GET_ROOT]"] by (simp add: wires)
  have d2: "delivered Iterative demo_config demo_works_app (GET_ROOT @ GET_MISSING) (demo_page @ demo_404)"
    using demo_deliveries(1) [of "[GET_ROOT, GET_MISSING]"] by (simp add: wires)
  have d3: "delivered Iterative demo_config demo_works_app (GET_ROOT @ GET_MISSING @ DELETE_ROOT) (demo_page @ demo_404 @ demo_405)"
    using demo_deliveries(1) [of "[GET_ROOT, GET_MISSING, DELETE_ROOT]"] by (simp add: wires)
  have d4: "delivered Iterative demo_config demo_works_app BAD_LINE demo_400"
    using demo_deliveries(2) by (simp add: wire_spec_bad demo_400_def)
  show ?thesis
    by (rule conformance_suite_passes [OF demo_works_builds idx works spawned, of _ _ "[demo_page]" "[demo_404]" "[demo_405]"
          Iterative demo_config _ _ "[demo_400]" _ _ "[take 40 demo_page, drop 40 demo_page]",
          OF _ demo_client_ok _ _ _ _ demo_client_ok _ _ demo_client_ok])
       (use pieces cut d1 d2 d3 d4 in simp_all)
qed

end
