(* ===== verification/Server_Program.thy ===== *)
theory Server_Program
  imports Serve
begin

text \<open>
  The whole server program (\<open>main\<close> of \<open>server/src/main.rs\<close>) with the models it starts: what their
  \<open>serve\<close> functions return, if they return, and with which code the process exits. The blocking
  models have no way out of their accept loops; the event-driven ones return when a turn finds the
  shutdown flag raised, and the preforked one when its parent has waited for its workers.
\<close>

section \<open>What the models return\<close>

text \<open>A set-up that can fail, then a loop that returns when it sees the shutdown flag.\<close>

definition until_shutdown :: "bool \<Rightarrow> io_error + 's \<Rightarrow> serve_end" where
  "until_shutdown seen r =
     (case r of Inl e \<Rightarrow> Returned (Inl e) | Inr s \<Rightarrow> if seen then Returned (Inr ()) else Serving)"

definition after_bind :: "(sock_call \<Rightarrow> io_error option) \<Rightarrow> serve_end \<Rightarrow> serve_end" where
  "after_bind bind r = (case snd (bind_listener bind False) of Inl e \<Rightarrow> Returned (Inl e) | Inr u \<Rightarrow> r)"

text \<open>The reactors of \<open>multireactor\<close> when all threads were spawned, and what joining one gives.\<close>

definition reactor_results ::
  "'h call \<Rightarrow> epoll_abi \<Rightarrow> config \<Rightarrow> (nat \<Rightarrow> kernel_setup \<times> epoll_tick list) \<Rightarrow> 'h app \<Rightarrow> serve_end list" where
  "reactor_results call abi cfg envs a =
     map (\<lambda>i. until_shutdown (list_ex et_shutdown (snd (envs i)))
            (multireactor_worker call abi cfg (fst (envs i)) (snd (envs i)) a)) [0..<multireactor_workers cfg]"

fun joined :: "serve_end \<Rightarrow> (io_error + unit) option" where
  "joined (Returned r) = Some r"
| "joined _ = None"

fun serve_result :: "'h call \<Rightarrow> config \<Rightarrow> 'h app \<Rightarrow> serve_run \<Rightarrow> serve_end" where
  "serve_result call cfg a (RunIterative bind anss) = after_bind bind Serving"
| "serve_result call cfg a (RunForking bind es) = after_bind bind Serving"
| "serve_result call cfg a (RunPreforked es) =
     (case run_events (preforked_step call cfg) es (preforked_start cfg a) of
        None \<Rightarrow> Serving
      | Some s \<Rightarrow> if pf_pc s = PfReturned then Returned (pf_result s) else Serving)"
| "serve_result call cfg a (RunThreadPerConn bind es) =
     after_bind bind
       (case run_events (tpc_step call (shared_config cfg)) es (tpc_start (shared_config cfg) a) of
          None \<Rightarrow> Serving
        | Some s \<Rightarrow> if tp_pc s = TpCrashed then Panicked else Serving)"
| "serve_result call cfg a (RunThreadPool bind spawns es) =
     after_bind bind
       (if \<not> spawns then Panicked
        else (case run_events (pool_step call (shared_config cfg)) es (pool_start (shared_config cfg) a) of
            None \<Rightarrow> Serving
          | Some s \<Rightarrow> if po_returned s then Returned (Inr ()) else Serving))"
| "serve_result call cfg a (RunPoll abi su ts) = until_shutdown (list_ex t_shutdown ts) (poll_serve call abi cfg su ts a)"
| "serve_result call cfg a (RunEpollLt abi su ks) =
     until_shutdown (list_ex et_shutdown ks) (epoll_lt_serve call abi cfg su ks a)"
| "serve_result call cfg a (RunEpollEt abi su ks) =
     until_shutdown (list_ex et_shutdown ks) (epoll_et_serve call abi cfg su ks a)"
| "serve_result call cfg a (RunEventLoop abi su ks) =
     until_shutdown (list_ex et_shutdown ks) (event_loop_serve call abi cfg su ks a)"
| "serve_result call cfg a (RunMultireactor abi spawn envs) =
     (let n = spawned spawn (multireactor_workers cfg); rs = reactor_results call abi cfg envs a in
      if n < multireactor_workers cfg then Returned (Inl (the (spawn n)))
      else if Serving \<in> set rs then Serving
      else Returned (multireactor_result (map joined rs)))"
| "serve_result call cfg a (RunIoUring uname release bind anss listener ts) =
     until_shutdown (list_ex ut_shutdown ts) (io_uring_serve call cfg uname release bind anss listener ts a)"

text \<open>The process, up to its exit; \<open>r\<close> is what happens while the chosen model serves.\<close>

definition server_process :: "serve_run \<Rightarrow> (str \<Rightarrow> listing) \<Rightarrow> usize option \<Rightarrow> str list \<Rightarrow> nat option" where
  "server_process r = server_main (\<lambda>m verbose cfg a. serve_result server_call cfg a r)"

section \<open>When the process exits\<close>

text \<open>In which runs the server was asked to stop: a signal to the parent, or a raised flag in every loop.\<close>

fun asked_to_stop :: "config \<Rightarrow> serve_run \<Rightarrow> bool" where
  "asked_to_stop cfg (RunPreforked es) \<longleftrightarrow> PfSignal \<in> set es"
| "asked_to_stop cfg (RunPoll abi su ts) \<longleftrightarrow> list_ex t_shutdown ts"
| "asked_to_stop cfg (RunEpollLt abi su ks) \<longleftrightarrow> list_ex et_shutdown ks"
| "asked_to_stop cfg (RunEpollEt abi su ks) \<longleftrightarrow> list_ex et_shutdown ks"
| "asked_to_stop cfg (RunEventLoop abi su ks) \<longleftrightarrow> list_ex et_shutdown ks"
| "asked_to_stop cfg (RunMultireactor abi spawn envs) \<longleftrightarrow>
     list_all (\<lambda>i. list_ex et_shutdown (snd (envs i))) [0..<multireactor_workers cfg]"
| "asked_to_stop cfg (RunIoUring uname release bind anss listener ts) \<longleftrightarrow> list_ex ut_shutdown ts"
| "asked_to_stop cfg r \<longleftrightarrow> False"

text \<open>In which runs a thread of the server cannot be spawned with \<open>thread::spawn\<close>, which panics.\<close>

fun no_thread :: "serve_run \<Rightarrow> bool" where
  "no_thread (RunThreadPerConn bind es) \<longleftrightarrow> TpSpawnFailed \<in> set es"
| "no_thread (RunThreadPool bind spawns es) \<longleftrightarrow> \<not> spawns"
| "no_thread r \<longleftrightarrow> False"

lemma until_shutdown_simps [simp]:
  "until_shutdown seen (Inl e) = Returned (Inl e)"
  "until_shutdown seen (Inr s) = (if seen then Returned (Inr ()) else Serving)"
  by (simp_all add: until_shutdown_def)

lemma until_shutdown_Ok: "until_shutdown seen r = Returned (Inr u) \<Longrightarrow> seen"
  by (auto simp: until_shutdown_def split: sum.splits if_splits)

lemma after_bind_Ok: "after_bind bind r = Returned (Inr u) \<Longrightarrow> r = Returned (Inr u)"
  by (auto simp: after_bind_def split: sum.splits)

text \<open>The acceptor of thread-per-conn crashes exactly when a thread cannot be spawned.\<close>

lemma tpc_crashed:
  "run_events (tpc_step call cfg) es s = Some s' \<Longrightarrow>
     (tp_pc s' = TpCrashed) = (tp_pc s = TpCrashed \<or> TpSpawnFailed \<in> set es)"
proof (induction es arbitrary: s)
  case (Cons e es)
  then obtain s1 where s1: "tpc_step call cfg e s = Some s1" "run_events (tpc_step call cfg) es s1 = Some s'"
    by (auto split: option.splits)
  from s1(1) have "(tp_pc s1 = TpCrashed) = (tp_pc s = TpCrashed \<or> e = TpSpawnFailed)"
    by (cases e) (auto simp: Let_def split: tp_pc.splits sum.splits if_splits)
  with Cons.IH [OF s1(2)] show ?case by auto
qed simp

text \<open>Without a signal the parent of the preforked model does not return with success.\<close>

lemma preforked_unsignalled:
  "run_events (preforked_step call cfg) es s = Some s' \<Longrightarrow> pf_inv cfg s \<Longrightarrow> PfSignal \<notin> set es \<Longrightarrow>
     \<not> (pf_flag s \<and> pf_result s = Inr ()) \<Longrightarrow> \<not> (pf_flag s' \<and> pf_result s' = Inr ())"
proof (induction es arbitrary: s)
  case (Cons e es)
  then obtain s1 where s1: "preforked_step call cfg e s = Some s1" "run_events (preforked_step call cfg) es s1 = Some s'"
    by (auto split: option.splits)
  have "\<not> (pf_flag s1 \<and> pf_result s1 = Inr ())"
  proof (cases e)
    case PfKill
    have "pf_flag (pf_kill call cfg pid s) = pf_flag s \<and> pf_result (pf_kill call cfg pid s) = pf_result s" for pid
      by (auto simp: pf_kill_def split: option.split)
    with PfKill s1(1) Cons.prems(4) show ?thesis by (auto split: pf_pc.splits list.splits)
  qed (use s1(1) Cons.prems in \<open>auto simp: pf_inv_def full_house_def
    split: pf_pc.splits sum.splits list.splits option.splits if_splits\<close>)
  with Cons.IH [OF s1(2) pf_inv_step [OF Cons.prems(2) s1(1)]] Cons.prems(3) show ?case by simp
qed simp

lemma pool_not_returned:
  "run_events (pool_step call cfg) es s = Some s' \<Longrightarrow> \<not> po_returned s \<Longrightarrow> \<not> po_returned s'"
proof (induction es arbitrary: s)
  case (Cons e es)
  then obtain s1 where s1: "pool_step call cfg e s = Some s1" "run_events (pool_step call cfg) es s1 = Some s'"
    by (auto split: option.splits)
  have "\<not> po_returned (pool_offer cfg st s)" if "\<not> po_returned s" for st and s :: "'a pool"
    using that by (simp add: pool_offer_def try_send_def receiver_handles_def split: try_send.split)
  with s1(1) Cons.prems(2) have "\<not> po_returned s1"
    by (cases e) (auto simp: Let_def split: sum.splits list.splits if_splits)
  with Cons.IH s1(2) show ?case by blast
qed simp

lemma preforked_success:
  assumes "run_events (preforked_step call cfg) es (preforked_start cfg a) = Some s" and "pf_pc s = PfReturned"
    and "pf_result s = Inr u"
  shows "PfSignal \<in> set es"
proof (rule ccontr)
  assume "PfSignal \<notin> set es"
  from preforked_unsignalled [OF assms(1) pf_inv_start this] assms(3) have "\<not> pf_flag s"
    by (simp add: preforked_start_def)
  with pf_run_inv [OF assms(1)] assms(2,3) show False by (simp add: pf_inv_def full_house_def)
qed

lemma multireactor_success:
  assumes "Serving \<notin> set (reactor_results call abi cfg envs a)"
    and "multireactor_result (map joined (reactor_results call abi cfg envs a)) = Inr u"
  shows "asked_to_stop cfg (RunMultireactor abi spawn envs)"
proof -
  have "List.map_filter worker_error (map joined (reactor_results call abi cfg envs a)) = []"
    using assms(2) by (auto simp: multireactor_result_def join_workers_errors split: list.splits option.splits)
  then have "worker_error (joined r) = None" if "r \<in> set (reactor_results call abi cfg envs a)" for r
    using that by (auto simp: map_filter_def filter_empty_conv)
  moreover have "r \<noteq> Panicked" if "r \<in> set (reactor_results call abi cfg envs a)" for r
    using that by (auto simp: reactor_results_def until_shutdown_def split: sum.splits if_splits)
  moreover have "\<exists>u. r = Returned (Inr u)" if "worker_error (joined r) = None" "r \<noteq> Serving" "r \<noteq> Panicked" for r
    using that by (cases r) (auto simp: worker_error_def split: sum.splits)
  ultimately have "\<exists>u. r = Returned (Inr u)" if "r \<in> set (reactor_results call abi cfg envs a)" for r
    using assms(1) that by metis
  then show ?thesis by (fastforce simp: reactor_results_def list_all_iff dest: until_shutdown_Ok)
qed

text \<open>What the result of \<open>serve\<close> says about the run, model by model.\<close>

lemma serve_result_Ok:
  "serve_result call cfg a r = Returned (Inr u) \<Longrightarrow> asked_to_stop cfg r"
proof (cases r)
  case (RunPreforked es)
  assume "serve_result call cfg a r = Returned (Inr u)"
  with RunPreforked preforked_success show ?thesis by (auto split: option.splits if_splits)
next
  case (RunThreadPool bind spawns es)
  assume "serve_result call cfg a r = Returned (Inr u)"
  with RunThreadPool pool_not_returned [of call _ es "pool_start (shared_config cfg) a"] show ?thesis
    by (auto simp: pool_start_def split: option.splits if_splits dest!: after_bind_Ok)
next
  case (RunMultireactor abi spawn envs)
  assume "serve_result call cfg a r = Returned (Inr u)"
  with RunMultireactor multireactor_success [of call abi cfg envs a u spawn] show ?thesis by (auto simp: Let_def split: if_splits)
qed (auto split: option.splits if_splits dest!: after_bind_Ok dest: until_shutdown_Ok)

lemma serve_result_setup_error:
  "serve_wires call cfg a r = Some (Inl e) \<Longrightarrow> serve_result call cfg a r = Returned (Inl e)"
  by (cases r) (auto simp: bound_def after_bind_def map_sum_def split: sum.splits)

lemma serve_result_running:
  assumes "serve_wires call cfg a r = Some (Inr ws)" and "model_of r \<notin> {Preforked, Multireactor}"
  shows "serve_result call cfg a r =
    (if asked_to_stop cfg r then Returned (Inr ()) else if no_thread r then Panicked else Serving)"
  using assms
proof (cases r)
  case (RunThreadPerConn bind es)
  with assms tpc_crashed [of call _ es "tpc_start (shared_config cfg) a"] show ?thesis
    by (auto simp: tpc_start_def bound_def after_bind_def split: option.splits sum.splits)
next
  case (RunThreadPool bind spawns es)
  with assms pool_not_returned [of call _ es "pool_start (shared_config cfg) a"] show ?thesis
    by (auto simp: pool_start_def bound_def after_bind_def split: option.splits sum.splits if_splits)
qed (auto simp: bound_def after_bind_def map_sum_Inr split: sum.splits)

section \<open>Properties\<close>


definition demo_stop :: serve_run where
  "demo_stop = RunEpollEt linux_epoll demo_setup
     [demo_epoll_tick\<lparr>et_kern := demo_accepts [7, 8]\<rparr>, demo_epoll_tick\<lparr>et_shutdown := True\<rparr>]"


end
