(* ===== verification/Spec2Isabelle.thy ===== *)
theory Spec2Isabelle
  imports Parser_Tests Core_Tests Server_Tests Conformance Server_Program
begin

text \<open>
  A verification library for the HTTP server with eleven concurrency models and its load generator.

  \<^bold>\<open>The program.\<close> The crate \<open>core\<close> does no input or output: an incremental HTTP/1.x request
  parser (\<open>http/request.rs\<close>), a response encoder (\<open>http/response.rs\<close>), a path-trie router (\<open>router.rs\<close>),
  an asset cache (\<open>asset.rs\<close>), the application that dispatches requests (\<open>app.rs\<close>), counters
  (\<open>metrics.rs\<close>), and a connection state machine (\<open>conn.rs\<close>) that is fed the bytes that were read and
  says which bytes to write. The crate \<open>server\<close> owns the sockets: thin wrappers of system calls (\<open>sys\<close>),
  eleven models of serving (\<open>models\<close>, \<open>reactor.rs\<close>) and the binary (\<open>main.rs\<close>). The crate
  \<open>loadgen\<close> measures latency against a fixed schedule of requests. The suite \<open>server/tests/conformance.rs\<close>
  starts the binary with each model and checks the same exchanges.

  \<^bold>\<open>How it is modelled.\<close> Structs are records, enums are datatypes, \<open>Result\<close> is a sum with the error on the
  left, counters and kernel words keep their width, and the clock, the kernel, the file system and
  the scheduling of processes and threads are arguments: lists of answers or of events that the
  theorems quantify over. Loops are recursive functions with a termination proof, except the
  scheduler and the quantile ladder of the load generator, which are partial functions, and
  the service loops that never return, which are folds over what the kernel answers. No loop is
  given fuel; \<open>take_all\<close> in \<open>Loadgen\<close> has a count that exceeds the length of the queue.

  \<^bold>\<open>The theories.\<close>
  \<^item> \<open>Prelude\<close>: byte strings, searching, splitting, trimming, UTF-8 and decimal numbers, as the
    standard library has them. \<open>Hash_Map\<close>: the interface \<open>hash_map\<close> and its list implementation.
  \<^item> \<open>Http_Base\<close>, \<open>Response\<close>: limits, methods, versions, headers, status codes and the encoder with its
    wire format (\<open>encode_wire\<close>).
  \<^item> \<open>Request\<close>: the parser, state by state, as \<open>push\<close>, \<open>advance\<close> and the phase functions;
    \<open>Request_Correct\<close>: its well-formedness, indices and bounds; \<open>Parser_Contract\<close>: the interface
    \<open>incremental_parser\<close> between parser and connection; \<open>Request_Grammar\<close>: rendering and parsing back;
    \<open>Parser_Properties\<close>: the properties of the parser. The main facts are that cutting the input
    into reads does not matter, that a rendered request parses back, that limits hold and indices
    stay in range.
  \<^item> \<open>Router\<close>, \<open>App\<close>: the trie is the map of the registrations; the cache is the readable files; the
    built application dispatches to both.
  \<^item> \<open>Conn\<close>: the connection and its contract \<open>wire_spec\<close>, the bytes that a client's bytes call for.
    Every run of a connection is a refinement of it, and it is complete when it closes or waits.
  \<^item> \<open>Config\<close>, \<open>Sys\<close>: configuration, listener, results of system calls, event masks, addresses,
    connection table, signals, affinity; \<open>Sys_Calls\<close>: the wrappers of single calls (registrations,
    waiting, \<open>poll\<close>, the receive time-out), with the fact that a registration determines what it is for.
  \<^item> \<open>Event_Io\<close>: the driver of one non-blocking connection and the blocking loop, both refinements of
    the contract; an edge-triggered call drains its direction.
  \<^item> \<open>Progress\<close>: the interface \<open>io_machine\<close> of a loop that reads and writes as its connection asks; it answers a
    whole conversation, however its requests and responses are cut. The blocking loop and the calls of
    the event-driven driver on a ready connection interpret it.
  \<^item> \<open>Event_Loop\<close>: the interface \<open>event_loop\<close> of a table, its interests and its operations, with the
    invariant proved once; \<open>Poll_Loop\<close>, \<open>Epoll_Loop\<close> interpret it, \<open>Reactor\<close> is shown equal to the
    edge-triggered loop. The state of each loop has a field with the connections it has closed, in the
    state they were closed in, so that the invariants speak of all connections there ever were.
  \<^item> \<open>Io_Uring\<close>, \<open>Uring_Runtime\<close>: user data, kernel gate, ring of provided buffers, and the completion
    loop with the invariant that every connection has exactly the request its state asks for;
    \<open>Uring_Memory\<close>: the memory behind the ring, with the descriptors inside the pool.
  \<^item> \<open>Service\<close>: serving one stream, the interface \<open>dispatcher\<close> of programs that take in work and hand
    it out, and the iterative model; \<open>Process_Models\<close> (forking), \<open>Preforked_Group\<close> (the parent and the workers of
    preforked with the signals between them) and \<open>Thread_Models\<close> (thread-per-conn, thread-pool) interpret it
    on all interleavings. For the group of preforked processes a shutdown leaves no worker behind and can
    always be completed.
  \<^item> \<open>Server_Main\<close>: command line, handlers, routes, choice of the model; \<open>Serve\<close>: the \<open>serve\<close> functions
    of all models and the theorem that each of them serves the same site: the wires of a run are all its
    streams, open and closed, each with what it received, what it was sent and whether more is owed;
    \<open>Server_Program\<close>: what \<open>serve\<close> returns and with which code the process exits.
  \<^item> \<open>Loadgen_Client\<close>: the request and the reading of one response, and that server and client agree;
    \<open>Loadgen_Time\<close>: doubles as rationals rounded to 53 bits, durations, instants;
    \<open>Loadgen_Schedule\<close>: the scheduler and its cadence; \<open>Loadgen\<close>: the queue (interface
    \<open>work_queue\<close>), the workers and the accounting of requests; \<open>Loadgen_Main\<close>: command line,
    connections and exit code; \<open>Loadgen_Output\<close>: the CSV file and the percentile dump.
  \<^item> \<open>Conformance_Client\<close>, \<open>Conformance\<close>: the conformance suite, its HTTP client and the start of the server;
    every model passes it, from the theorem on what all models send.
  \<^item> \<open>Parser_Tests\<close>, \<open>Core_Tests\<close>, \<open>Server_Tests\<close>: the unit tests of the three crates as predicates, and that
    the model passes them. They tie the definitions to the expectations of the repository, and
    those on limits follow from general facts on texts without a line end and on too many fields.

  \<^bold>\<open>Bounds.\<close> The cadence of the scheduler is exact for a period and duration of together less than
  \<open>2 ^ 50\<close> nanoseconds, thirteen days, since up to there three roundings to 53 bits stay below half a
  nanosecond. Bodies and counters are bounded by the width of \<open>usize\<close> where the code casts them.

  \<^bold>\<open>What the theorems say about the kernel.\<close> Hypotheses such as \<open>new_stream\<close>, \<open>new_streams\<close>, \<open>fk_good\<close> or
  \<open>ticks_ok\<close> state documented behaviour: an accepted descriptor is a new stream, a process id is
  positive and not in use, a completion answers a submission. \<open>counters_unread\<close> says that handlers do
  not read the metrics; it is proved for the handlers of the binary. \<open>delivered\<close> says that a client gets
  what the server has sent once nothing is owed; \<open>fills\<close>, \<open>poll_reports\<close> and \<open>epoll_reports\<close> are the
  documented results of \<open>epoll_wait\<close> and \<open>poll\<close>.

  \<^bold>\<open>Not modelled.\<close> The kernel, the \<open>libc\<close>, \<open>socket2\<close>, \<open>io-uring\<close> and \<open>hdrhistogram\<close> crates; memory
  mapping and raw pointers (the buffers of the ring are offsets into a pool); what is printed for the
  user; failures of the load generator to spawn a thread; the parsing and printing of doubles; the two unit tests of
  \<open>bind_listener\<close>, which assert what the kernel says of its own sockets. The shared application of the multireactor differs between
  its workers only in the counters, which no response depends on, so each worker has its own copy.
\<close>

end
